(* ===== verification/Lancet_Prelude.thy ===== *)
theory Lancet_Prelude
  imports Complex_Main "HOL-Library.Word"
begin

section \<open>Prelude: machine types, faults, results and shared automation\<close>

text \<open>
  What every other theory of the development shares: names for the machine integers of the C
  code, the faults a C execution can end in, the result type \<open>fault + 'a\<close> with its bind, the
  collections of rewrite rules the component proofs use, and generic facts on lists, finite
  arrays and modular counters.
\<close>

subsection \<open>Machine types\<close>

type_synonym u8 = "8 word"
type_synonym u16 = "16 word"
type_synonym u32 = "32 word"
type_synonym u64 = "64 word"

text \<open>
  A region of memory seen through a \<open>char *\<close> is the list of the bytes from the pointer to the
  end of the object; C's \<open>double\<close> is an idealised real (rounding is not modelled).
\<close>

type_synonym bytes = "char list"
type_synonym double = real

abbreviation NUL :: char where "NUL \<equiv> CHR 0x00"
abbreviation LF :: char where "LF \<equiv> CHR 0x0A"
abbreviation CR :: char where "CR \<equiv> CHR 0x0D"
abbreviation CRLF :: bytes where "CRLF \<equiv> [CHR 0x0D, CHR 0x0A]"

subsection \<open>Faults and results\<close>

text \<open>
  The ways an execution of the modelled code ends abnormally. \<open>AssertFail\<close> is a failed
  \<open>assert\<close> (the build keeps them: \<open>CMAKE_C_FLAGS_RELEASEASSERT\<close> in
  \<open>agents/CMakeLists.txt\<close>), \<open>DivByZero\<close> the trap of an integer division, \<open>NullDeref\<close>,
  \<open>OutOfBounds\<close> and \<open>Uninit\<close> are undefined behaviour (a null pointer, an access outside the
  object, a field that was never written), \<open>ImplDefined\<close> a conversion or a signed overflow the C
  standard leaves open, \<open>NonFinite\<close> a floating-point operation whose value is an infinity or a
  NaN (which the reals cannot carry), \<open>ExitFail\<close> a call of \<open>exit\<close> or \<open>abort\<close>, and
  \<open>Diverges\<close> a loop that never ends.
\<close>

datatype fault =
    AssertFail
  | DivByZero
  | NullDeref
  | OutOfBounds
  | Uninit
  | ImplDefined
  | NonFinite
  | ExitFail
  | Diverges

type_synonym 'a result = "fault + 'a"

definition bindE :: "'a result \<Rightarrow> ('a \<Rightarrow> 'b result) \<Rightarrow> 'b result" where
  "bindE m f = (case m of Inl e \<Rightarrow> Inl e | Inr x \<Rightarrow> f x)"

definition assertE :: "bool \<Rightarrow> unit result" where
  "assertE b = (if b then Inr () else Inl AssertFail)"

lemma bindE_simps [simp, code]:
  "bindE (Inl e) f = Inl e"
  "bindE (Inr x) f = f x"
  by (simp_all add: bindE_def)

lemma bindE_cong [fundef_cong]:
  "m = m' \<Longrightarrow> (\<And>x. m' = Inr x \<Longrightarrow> f x = g x) \<Longrightarrow> bindE m f = bindE m' g"
  by (cases m') simp_all

lemma bindE_eq_Inr: "bindE m f = Inr y \<longleftrightarrow> (\<exists>x. m = Inr x \<and> f x = Inr y)"
  by (cases m) simp_all

lemma bindE_eq_Inl: "bindE m f = Inl e \<longleftrightarrow> m = Inl e \<or> (\<exists>x. m = Inr x \<and> f x = Inl e)"
  by (cases m) simp_all

lemma bindE_assoc: "bindE (bindE m f) g = bindE m (\<lambda>x. bindE (f x) g)"
  by (cases m) simp_all

lemma assertE_simps [simp]:
  "assertE True = Inr ()"
  "assertE False = Inl AssertFail"
  by (simp_all add: assertE_def)

lemma assertE_eq [simp]:
  "assertE b = Inr u \<longleftrightarrow> b"
  "assertE b = Inl e \<longleftrightarrow> \<not> b \<and> e = AssertFail"
  by (auto simp: assertE_def)

lemma case_option_eq_Inr:
  "(case x of None \<Rightarrow> Inl e | Some y \<Rightarrow> f y) = Inr z \<longleftrightarrow> (\<exists>y. x = Some y \<and> f y = Inr z)"
  by (cases x) simp_all

lemma if_Inl_eq_Inr: "(if b then Inl e else m) = Inr z \<longleftrightarrow> \<not> b \<and> m = Inr z"
  by simp

lemmas result_iffs = bindE_eq_Inr case_option_eq_Inr if_Inl_eq_Inr

subsection \<open>Collections of rewrite rules\<close>

text \<open>
  \<open>mem_simps\<close> holds what the C string and memory routines compute under their
  preconditions, \<open>brp_simps\<close> the arithmetic of byte/request pairs.
\<close>

named_theorems mem_simps
named_theorems brp_simps

subsection \<open>Lists\<close>

fun index_of :: "'a \<Rightarrow> 'a list \<Rightarrow> nat option" where
  "index_of x [] = None"
| "index_of x (y # ys) = (if y = x then Some 0 else map_option Suc (index_of x ys))"

lemma index_of_None_iff: "index_of x xs = None \<longleftrightarrow> x \<notin> set xs"
  by (induction xs) auto

lemma index_of_SomeD:
  "index_of x xs = Some i \<Longrightarrow> i < length xs \<and> xs ! i = x \<and> x \<notin> set (take i xs)"
  by (induction xs arbitrary: i) (auto split: if_splits)

lemma index_of_append:
  "index_of x (xs @ ys) =
     (case index_of x xs of Some i \<Rightarrow> Some i | None \<Rightarrow> map_option ((+) (length xs)) (index_of x ys))"
proof (induction xs)
  case Nil
  show ?case by (cases "index_of x ys") simp_all
next
  case (Cons a xs)
  then show ?case by (cases "index_of x ys") (auto split: option.splits)
qed

lemma index_of_append1: "index_of x xs = Some i \<Longrightarrow> index_of x (xs @ ys) = Some i"
  by (simp add: index_of_append)

lemma index_of_notin_append: "x \<notin> set xs \<Longrightarrow> index_of x (xs @ x # ys) = Some (length xs)"
  by (simp add: index_of_append index_of_None_iff [THEN iffD2])

lemma take_drop_prefix:
  "take n (drop k xs) = drop k (take (k + n) xs)"
  by (simp add: take_drop add.commute)

lemma drop_append_le [simp]: "n \<le> length xs \<Longrightarrow> drop n (xs @ ys) = drop n xs @ ys"
  by simp

lemma sum_list_take_le: "sum_list (take n (xs :: nat list)) \<le> sum_list xs"
proof -
  have "sum_list (take n xs) + sum_list (drop n xs) = sum_list xs"
    by (metis append_take_drop_id sum_list.append)
  then show ?thesis by linarith
qed

subsection \<open>Words\<close>

lemma unat_of_nat_id: "n < 2 ^ LENGTH('a) \<Longrightarrow> unat (of_nat n :: 'a::len word) = n"
  by (simp add: unsigned_of_nat take_bit_nat_eq_self)

lemma unat_add_nowrap:
  "unat (a :: 'a::len word) + unat b < 2 ^ LENGTH('a) \<Longrightarrow> unat (a + b) = unat a + unat b"
  by (simp add: unat_word_ariths)

lemma unat_Suc_nowrap:
  "Suc (unat (a :: 'a::len word)) < 2 ^ LENGTH('a) \<Longrightarrow> unat (a + 1) = Suc (unat a)"
proof -
  assume a: "Suc (unat a) < 2 ^ LENGTH('a)"
  have "unat (a + 1) = Suc (unat a) mod 2 ^ LENGTH('a)"
    by (cases "LENGTH('a) = 1") (simp_all add: unat_word_ariths)
  with a show ?thesis by simp
qed

text \<open>A C conversion to \<open>int\<close>, \<open>int64_t\<close> or \<open>size_t\<close> of a mathematical integer, as gcc does it.\<close>

definition s32 :: "int \<Rightarrow> int" where
  "s32 i = (i + 2 ^ 31) mod 2 ^ 32 - 2 ^ 31"

definition s64 :: "int \<Rightarrow> int" where
  "s64 i = (i + 2 ^ 63) mod 2 ^ 64 - 2 ^ 63"

definition size_of_int :: "int \<Rightarrow> nat" where
  "size_of_int i = nat (i mod 2 ^ 64)"

lemma s32_id: "- (2 ^ 31) \<le> i \<Longrightarrow> i < 2 ^ 31 \<Longrightarrow> s32 i = i"
  by (simp add: s32_def)

lemma s64_id: "- (2 ^ 63) \<le> i \<Longrightarrow> i < 2 ^ 63 \<Longrightarrow> s64 i = i"
  by (simp add: s64_def)

lemma size_of_int_nat: "0 \<le> i \<Longrightarrow> i < 2 ^ 64 \<Longrightarrow> size_of_int i = nat i"
  by (simp add: size_of_int_def)

lemma size_of_int_of_nat: "n < 2 ^ 64 \<Longrightarrow> size_of_int (int n) = n"
  by (subst size_of_int_nat) (simp_all flip: of_nat_less_iff)

subsection \<open>Ring slots\<close>

text \<open>
  Two counters less than a ring's capacity apart never share a slot: the fact every ring
  buffer of the program rests on.
\<close>

lemma mod_slots_distinct:
  fixes i j m :: nat
  assumes "i < j" and "j < i + m"
  shows "i mod m \<noteq> j mod m"
proof
  assume "i mod m = j mod m"
  then have "m dvd j - i"
    using assms(1) by (metis mod_eq_dvd_iff_nat less_imp_le)
  then show False
    using assms by (auto dest: dvd_imp_le)
qed

end
