(* ===== verification/C_Library.thy ===== *)
theory C_Library
  imports Lancet_Prelude
begin

section \<open>The parts of the C library the program uses\<close>

text \<open>
  String and memory routines over a region of memory (\<open>OutOfBounds\<close> when a routine runs off
  its end), decimal conversion, byte order, rounding and the \<open>drand48\<close> generator. Each is an
  executable function; the lemmas say what it computes when its precondition holds.
\<close>

subsection \<open>Searching and comparing\<close>

fun memchr :: "bytes \<Rightarrow> char \<Rightarrow> nat \<Rightarrow> nat option result" where
  "memchr mem c 0 = Inr None"
| "memchr [] c (Suc n) = Inl OutOfBounds"
| "memchr (x # mem) c (Suc n) =
     (if x = c then Inr (Some 0) else bindE (memchr mem c n) (\<lambda>r. Inr (map_option Suc r)))"

text \<open>\<open>strchr\<close> stops at the terminating NUL, not at any length: it is only searched for other characters here.\<close>

fun strchr :: "bytes \<Rightarrow> char \<Rightarrow> nat option result" where
  "strchr [] c = Inl OutOfBounds"
| "strchr (x # mem) c =
     (if x = c then Inr (Some 0)
      else if x = NUL then Inr None
      else bindE (strchr mem c) (\<lambda>r. Inr (map_option Suc r)))"

text \<open>\<open>strncmp_eq s t n\<close> is the test \<open>strncmp(s, t, n) == 0\<close>.\<close>

fun strncmp_eq :: "bytes \<Rightarrow> bytes \<Rightarrow> nat \<Rightarrow> bool result" where
  "strncmp_eq s t 0 = Inr True"
| "strncmp_eq (x # s) (y # t) (Suc n) =
     (if x \<noteq> y then Inr False else if x = NUL then Inr True else strncmp_eq s t n)"
| "strncmp_eq _ _ (Suc n) = Inl OutOfBounds"

text \<open>The C string that holds the characters of \<open>s\<close>.\<close>

definition cstr :: "string \<Rightarrow> bytes" where
  "cstr s = s @ [NUL]"

lemma memchr_index_of [mem_simps]:
  "n \<le> length mem \<Longrightarrow> memchr mem c n = Inr (index_of c (take n mem))"
  by (induction mem c n rule: memchr.induct) auto

lemma strchr_index_of:
  "NUL \<notin> set s \<Longrightarrow> c \<noteq> NUL \<Longrightarrow> strchr (s @ NUL # rest) c = Inr (index_of c s)"
  by (induction s) auto

lemma strchr_found:
  "NUL \<notin> set s \<Longrightarrow> c \<notin> set s \<Longrightarrow> strchr (s @ c # rest) c = Inr (Some (length s))"
  by (induction s) auto

lemma strncmp_eq_prefix [mem_simps]:
  "n \<le> length mem \<Longrightarrow> n \<le> length lit \<Longrightarrow> NUL \<notin> set (take n lit) \<Longrightarrow>
   strncmp_eq mem lit n = Inr (take n mem = take n lit)"
  by (induction mem lit n rule: strncmp_eq.induct) auto

lemma strncmp_eq_cstr:
  "NUL \<notin> set s \<Longrightarrow> NUL \<notin> set t \<Longrightarrow>
   strncmp_eq (cstr s) (cstr t) (length t) = Inr (take (length t) s = t)"
proof (induction t arbitrary: s)
  case Nil
  then show ?case by (simp add: cstr_def)
next
  case (Cons y t)
  then show ?case by (cases s) (auto simp: cstr_def)
qed

subsection \<open>Tokens\<close>

text \<open>
  One call of \<open>strtok\<close> or \<open>strtok_r\<close>: skip delimiters, cut at the next one. The second
  component is the saved pointer the next call starts from.
\<close>

definition strtok_r :: "string \<Rightarrow> string \<Rightarrow> string option \<times> string" where
  "strtok_r delim s =
     (let s' = dropWhile (\<lambda>c. c \<in> set delim) s
      in if s' = [] then (None, [])
         else (Some (takeWhile (\<lambda>c. c \<notin> set delim) s'),
               drop 1 (dropWhile (\<lambda>c. c \<notin> set delim) s')))"

lemma strtok_r_token:
  assumes "tok \<noteq> []" and "\<forall>c \<in> set tok. c \<notin> set delim" and "d \<in> set delim"
  shows "strtok_r delim (tok @ d # rest) = (Some tok, rest)"
proof -
  have "dropWhile (\<lambda>c. c \<in> set delim) (tok @ d # rest) = tok @ d # rest"
    using assms(1,2) by (cases tok) auto
  moreover have "takeWhile (\<lambda>c. c \<notin> set delim) (tok @ d # rest) = tok"
    using assms(2,3) by (simp add: takeWhile_append2)
  moreover have "dropWhile (\<lambda>c. c \<notin> set delim) (tok @ d # rest) = d # rest"
    using assms(2,3) by (simp add: dropWhile_append2)
  ultimately show ?thesis by (simp add: strtok_r_def)
qed

lemma strtok_r_last:
  assumes "tok \<noteq> []" and "\<forall>c \<in> set tok. c \<notin> set delim"
  shows "strtok_r delim tok = (Some tok, [])"
proof -
  have d: "dropWhile (\<lambda>c. c \<in> set delim) tok = tok"
    using assms by (cases tok) auto
  have t: "takeWhile (\<lambda>c. c \<notin> set delim) tok = tok"
    using assms(2) by simp
  have e: "dropWhile (\<lambda>c. c \<notin> set delim) tok = []"
    using assms(2) by simp
  show ?thesis using assms(1) by (simp only: strtok_r_def Let_def d t e if_False) simp
qed

subsection \<open>Decimal numbers\<close>

definition is_digit :: "char \<Rightarrow> bool" where
  "is_digit c \<longleftrightarrow> 48 \<le> (of_char c :: nat) \<and> (of_char c :: nat) \<le> 57"

definition digit_val :: "char \<Rightarrow> nat" where
  "digit_val c = of_char c - 48"

definition digit_char :: "nat \<Rightarrow> char" where
  "digit_char n = char_of (48 + n)"

definition is_space :: "char \<Rightarrow> bool" where
  "is_space c \<longleftrightarrow> c = CHR '' '' \<or> (9 \<le> (of_char c :: nat) \<and> (of_char c :: nat) \<le> 13)"

lemma digit_char_props:
  assumes "n < 10"
  shows "is_digit (digit_char n)" and "digit_val (digit_char n) = n"
    and "digit_char n \<noteq> NUL" and "digit_char n \<noteq> LF" and "digit_char n \<noteq> CR"
    and "digit_char n \<noteq> CHR ''-''" and "digit_char n \<noteq> CHR ''+''" and "\<not> is_space (digit_char n)"
proof -
  have c: "(of_char (digit_char n) :: nat) = 48 + n"
    using assms by (simp add: digit_char_def)
  then show "is_digit (digit_char n)" and "digit_val (digit_char n) = n"
    using assms by (simp_all add: is_digit_def digit_val_def)
  have d: "digit_char n \<noteq> x" if "(of_char x :: nat) < 48" for x
    using that c by auto
  show "digit_char n \<noteq> NUL" and "digit_char n \<noteq> LF" and "digit_char n \<noteq> CR"
    and "digit_char n \<noteq> CHR ''-''" and "digit_char n \<noteq> CHR ''+''"
    by (rule d, simp)+
  have "digit_char n \<noteq> CHR '' ''"
    by (rule d) simp
  with c show "\<not> is_space (digit_char n)"
    by (simp add: is_space_def)
qed

lemma digit_char_code: "digit_char 0 = CHR ''0''" "digit_char (Suc 0) = CHR ''1''"
  by code_simp+

fun show_nat :: "nat \<Rightarrow> string" where
  "show_nat n = (if n < 10 then [digit_char n] else show_nat (n div 10) @ [digit_char (n mod 10)])"

declare show_nat.simps [simp del]

text \<open>\<open>%d\<close> and \<open>%ld\<close>, and \<open>%0*d\<close> with a non-negative argument.\<close>

definition show_int :: "int \<Rightarrow> string" where
  "show_int i = (if i < 0 then CHR ''-'' # show_nat (nat (- i)) else show_nat (nat i))"

definition show_padded :: "nat \<Rightarrow> nat \<Rightarrow> string" where
  "show_padded w n = replicate (w - length (show_nat n)) (CHR ''0'') @ show_nat n"

text \<open>
  The digits of \<open>strtol\<close>: accumulate until the first other character, which must exist.
\<close>

fun scan_digits :: "bytes \<Rightarrow> nat \<Rightarrow> nat result" where
  "scan_digits [] acc = Inl OutOfBounds"
| "scan_digits (x # mem) acc =
     (if is_digit x then scan_digits mem (10 * acc + digit_val x) else Inr acc)"

fun skip_space :: "bytes \<Rightarrow> bytes" where
  "skip_space [] = []"
| "skip_space (x # mem) = (if is_space x then skip_space mem else x # mem)"

text \<open>\<open>atoi\<close> as \<open>(int) strtol(s, NULL, 10)\<close>: the value saturates at \<open>long\<close> and is then cut to 32 bits.\<close>

definition atoi :: "bytes \<Rightarrow> int result" where
  "atoi mem =
     (case skip_space mem of
        [] \<Rightarrow> Inl OutOfBounds
      | c # rest \<Rightarrow>
          if c = CHR ''-'' then
            bindE (scan_digits rest 0) (\<lambda>n. Inr (s32 (max (- int n) (- (2 ^ 63)))))
          else
            bindE (scan_digits (if c = CHR ''+'' then rest else c # rest) 0)
              (\<lambda>n. Inr (s32 (min (int n) (2 ^ 63 - 1)))))"

lemma show_nat_nonempty [simp]: "show_nat n \<noteq> []"
  by (subst show_nat.simps) simp

lemma show_nat_digits: "c \<in> set (show_nat n) \<Longrightarrow> \<exists>d < 10. c = digit_char d"
proof (induction n rule: show_nat.induct)
  case (1 n)
  then show ?case
    by (subst (asm) (2) show_nat.simps) (auto split: if_splits intro: exI [of _ "n mod 10"])
qed

lemma show_nat_is_digit: "c \<in> set (show_nat n) \<Longrightarrow> is_digit c"
  by (auto dest!: show_nat_digits simp: digit_char_props)

lemma scan_digits_append:
  "\<forall>c \<in> set ds. is_digit c \<Longrightarrow>
   scan_digits (ds @ rest) acc = scan_digits rest (foldl (\<lambda>a c. 10 * a + digit_val c) acc ds)"
  by (induction ds arbitrary: acc) auto

lemma foldl_show_nat: "foldl (\<lambda>a c. 10 * a + digit_val c) 0 (show_nat n) = n"
proof (induction n rule: show_nat.induct)
  case (1 n)
  show ?case
  proof (cases "n < 10")
    case True
    then show ?thesis by (subst show_nat.simps) (simp add: digit_char_props)
  next
    case False
    with 1 show ?thesis
      by (subst show_nat.simps) (simp add: digit_char_props)
  qed
qed

lemma scan_digits_show_nat:
  "\<not> is_digit x \<Longrightarrow> scan_digits (show_nat n @ x # rest) 0 = Inr n"
  by (subst scan_digits_append) (auto simp: show_nat_is_digit foldl_show_nat)

lemma hd_show_nat: "hd (show_nat n) \<noteq> CHR ''-''" "hd (show_nat n) \<noteq> CHR ''+''"
  "\<not> is_space (hd (show_nat n))" "is_digit (hd (show_nat n))"
proof -
  obtain d where "d < 10" and "hd (show_nat n) = digit_char d"
    using show_nat_digits [of "hd (show_nat n)" n] by auto
  then show "hd (show_nat n) \<noteq> CHR ''-''" "hd (show_nat n) \<noteq> CHR ''+''"
    "\<not> is_space (hd (show_nat n))" "is_digit (hd (show_nat n))"
    by (simp_all add: digit_char_props)
qed

text \<open>Reading back what \<open>%d\<close> printed.\<close>

lemma atoi_show_nat:
  assumes "\<not> is_digit x" and "n < 2 ^ 31"
  shows "atoi (show_nat n @ x # rest) = Inr (int n)"
proof -
  obtain c cs where s: "show_nat n = c # cs"
    by (cases "show_nat n") auto
  have c: "c \<noteq> CHR ''-''" "c \<noteq> CHR ''+''" "\<not> is_space c"
    using hd_show_nat [of n] by (simp_all add: s)
  have "scan_digits (c # cs @ x # rest) 0 = Inr n"
    using scan_digits_show_nat [OF assms(1), of n rest] by (simp add: s)
  moreover have "s32 (min (int n) (2 ^ 63 - 1)) = int n"
    using assms(2) by (simp add: s32_id)
  ultimately show ?thesis
    using c by (simp add: atoi_def s)
qed

text \<open>\<open>atoll\<close> keeps the 64 bits.\<close>

definition atoll :: "bytes \<Rightarrow> int result" where
  "atoll mem =
     (case skip_space mem of
        [] \<Rightarrow> Inl OutOfBounds
      | c # rest \<Rightarrow>
          if c = CHR ''-'' then
            bindE (scan_digits rest 0) (\<lambda>n. Inr (max (- int n) (- (2 ^ 63))))
          else
            bindE (scan_digits (if c = CHR ''+'' then rest else c # rest) 0)
              (\<lambda>n. Inr (min (int n) (2 ^ 63 - 1))))"

lemma atoll_show_nat:
  assumes "\<not> is_digit x" and "n < 2 ^ 63"
  shows "atoll (show_nat n @ x # rest) = Inr (int n)"
proof -
  obtain c cs where s: "show_nat n = c # cs"
    by (cases "show_nat n") auto
  have c: "c \<noteq> CHR ''-''" "c \<noteq> CHR ''+''" "\<not> is_space c"
    using hd_show_nat [of n] by (simp_all add: s)
  have "scan_digits (c # cs @ x # rest) 0 = Inr n"
    using scan_digits_show_nat [OF assms(1), of n rest] by (simp add: s)
  then show ?thesis
    using c assms(2) by (simp add: atoll_def s)
qed

subsection \<open>Byte order\<close>

text \<open>
  The host is little-endian (x86, as \<open>rdtsc\<close> in \<open>misc.h\<close> requires): a word in memory is its
  bytes, least significant first, and \<open>ntohl\<close>, \<open>htonl\<close>, \<open>htons\<close> reverse the bytes.
\<close>

fun le_val :: "bytes \<Rightarrow> nat" where
  "le_val [] = 0"
| "le_val (c # cs) = of_char c + 256 * le_val cs"

fun le_bytes :: "nat \<Rightarrow> nat \<Rightarrow> bytes" where
  "le_bytes 0 n = []"
| "le_bytes (Suc k) n = char_of (n mod 256) # le_bytes k (n div 256)"

definition be_val :: "bytes \<Rightarrow> nat" where
  "be_val bs = le_val (rev bs)"

definition store16 :: "u16 \<Rightarrow> bytes" where
  "store16 x = le_bytes 2 (unat x)"

definition store32 :: "u32 \<Rightarrow> bytes" where
  "store32 x = le_bytes 4 (unat x)"

definition store64 :: "u64 \<Rightarrow> bytes" where
  "store64 x = le_bytes 8 (unat x)"

definition load16 :: "bytes \<Rightarrow> u16" where
  "load16 bs = of_nat (le_val (take 2 bs))"

definition load32 :: "bytes \<Rightarrow> u32" where
  "load32 bs = of_nat (le_val (take 4 bs))"

definition load64 :: "bytes \<Rightarrow> u64" where
  "load64 bs = of_nat (le_val (take 8 bs))"

definition ntohl :: "u32 \<Rightarrow> u32" where
  "ntohl x = load32 (rev (store32 x))"

definition htonl :: "u32 \<Rightarrow> u32" where
  "htonl x = load32 (rev (store32 x))"

definition htons :: "u16 \<Rightarrow> u16" where
  "htons x = load16 (rev (store16 x))"

lemma length_le_bytes [simp]: "length (le_bytes k n) = k"
  by (induction k arbitrary: n) auto

lemma length_store [simp]:
  "length (store16 h) = 2" "length (store32 x) = 4" "length (store64 y) = 8"
  by (simp_all add: store16_def store32_def store64_def)

lemma le_val_bound: "le_val bs < 256 ^ length bs"
proof (induction bs)
  case Nil
  then show ?case by simp
next
  case (Cons c bs)
  have carry: "a < 256 \<Longrightarrow> v < p \<Longrightarrow> a + 256 * v < 256 * p" for a v p :: nat
    by linarith
  have "of_char c + 256 * le_val bs < 256 * 256 ^ length bs"
    by (rule carry) (simp, rule Cons)
  then show ?case by simp
qed

lemma le_val_le_bytes: "le_val (le_bytes k n) = n mod 256 ^ k"
proof (induction k arbitrary: n)
  case 0
  then show ?case by simp
next
  case (Suc k)
  have "n mod (256 * 256 ^ k) = 256 * (n div 256 mod 256 ^ k) + n mod 256"
    by (rule mod_mult2_eq)
  with Suc show ?case by simp
qed

lemma le_bytes_le_val: "le_bytes (length bs) (le_val bs) = bs"
proof (induction bs)
  case Nil
  then show ?case by simp
next
  case (Cons c bs)
  have "(of_char c :: nat) < 256" by simp
  with Cons show ?case by simp
qed

lemma load32_store32: "load32 (store32 x @ rest) = x"
proof -
  have "unat x < 2 ^ LENGTH(32)" by (rule unsigned_less)
  then show ?thesis by (simp add: load32_def store32_def le_val_le_bytes)
qed

lemma store32_load32:
  assumes "length bs = 4"
  shows "store32 (load32 bs) = bs"
proof -
  have "le_val bs < 256 ^ 4"
    using le_val_bound [of bs] assms by simp
  then have "unat (load32 bs) = le_val bs"
    using assms by (simp add: load32_def unat_of_nat_id)
  then show ?thesis
    using le_bytes_le_val [of bs] assms by (simp add: store32_def)
qed

lemma unat_load32_rev:
  assumes "length bs = 4"
  shows "unat (load32 (rev bs)) = be_val bs"
proof -
  have "le_val (rev bs) < 256 ^ 4"
    using le_val_bound [of "rev bs"] assms by simp
  then show ?thesis
    using assms by (simp add: load32_def unat_of_nat_id be_val_def)
qed

lemma unat_ntohl_load32: "length bs = 4 \<Longrightarrow> unat (ntohl (load32 bs)) = be_val bs"
  by (simp add: ntohl_def store32_load32 unat_load32_rev)

lemma load16_store16: "load16 (store16 x @ rest) = x"
proof -
  have "unat x < 2 ^ LENGTH(16)" by (rule unsigned_less)
  then show ?thesis by (simp add: load16_def store16_def le_val_le_bytes)
qed

lemma store16_load16:
  assumes "length bs = 2"
  shows "store16 (load16 bs) = bs"
proof -
  have "le_val bs < 256 ^ 2"
    using le_val_bound [of bs] assms by simp
  then have "unat (load16 bs) = le_val bs"
    using assms by (simp add: load16_def unat_of_nat_id)
  then show ?thesis
    using le_bytes_le_val [of bs] assms by (simp add: store16_def)
qed

text \<open>A field the program swapped is, in memory, the big-endian number the peer reads.\<close>

lemma be_val_htonl: "be_val (store32 (htonl x)) = unat x"
proof -
  have "unat x < 2 ^ LENGTH(32)" by (rule unsigned_less)
  then have "le_val (store32 x) = unat x"
    by (simp add: store32_def le_val_le_bytes)
  moreover have "store32 (htonl x) = rev (store32 x)"
    by (simp add: htonl_def store32_load32)
  ultimately show ?thesis by (simp add: be_val_def)
qed

lemma be_val_htons: "be_val (store16 (htons x)) = unat x"
proof -
  have "unat x < 2 ^ LENGTH(16)" by (rule unsigned_less)
  then have "le_val (store16 x) = unat x"
    by (simp add: store16_def le_val_le_bytes)
  moreover have "store16 (htons x) = rev (store16 x)"
    by (simp add: htons_def store16_load16)
  ultimately show ?thesis by (simp add: be_val_def)
qed

lemma ntohl_htonl [simp]: "ntohl (htonl x) = x"
proof -
  have "load32 (store32 x) = x"
    using load32_store32 [of x "[]"] by simp
  then show ?thesis by (simp add: ntohl_def htonl_def store32_load32)
qed

subsection \<open>Rounding and random numbers\<close>

text \<open>\<open>lround\<close>: to the nearest integer, halves away from zero; \<open>trunc\<close> is the conversion of a \<open>double\<close> to an integer type.\<close>

definition lround :: "double \<Rightarrow> int" where
  "lround x = (if 0 \<le> x then \<lfloor>x + 1/2\<rfloor> else - \<lfloor>1/2 - x\<rfloor>)"

definition trunc :: "double \<Rightarrow> int" where
  "trunc x = (if 0 \<le> x then \<lfloor>x\<rfloor> else - \<lfloor>- x\<rfloor>)"

text \<open>
  The linear congruential generator POSIX prescribes for \<open>drand48\<close>: the 48-bit state and its
  reading as a fraction.
\<close>

definition drand48_next :: "48 word \<Rightarrow> 48 word" where
  "drand48_next x = 0x5DEECE66D * x + 0xB"

definition drand48 :: "48 word \<Rightarrow> double \<times> 48 word" where
  "drand48 x = (let x' = drand48_next x in (real (unat x') / 2 ^ 48, x'))"

lemma drand48_range: "0 \<le> fst (drand48 x) \<and> fst (drand48 x) < 1"
proof -
  have "(of_nat (unat (drand48_next x)) :: real) < of_nat (2 ^ LENGTH(48))"
    by (simp only: of_nat_less_iff unsigned_less)
  moreover have "(0 :: real) \<le> of_nat (unat (drand48_next x))"
    by (rule of_nat_0_le_iff)
  ultimately show ?thesis by (simp add: drand48_def Let_def)
qed

lemma lround_of_int [simp]: "lround (of_int i) = i"
  by (simp add: lround_def)

lemma lround_nonneg: "0 \<le> x \<Longrightarrow> 0 \<le> lround x"
  by (simp add: lround_def)

lemma trunc_bounds: "0 \<le> x \<Longrightarrow> x < of_int n \<Longrightarrow> 0 \<le> trunc x \<and> trunc x < n"
  by (simp add: trunc_def floor_less_iff)

end
