(* ===== verification/Lancet_Types.thy ===== *)
theory Lancet_Types
  imports C_Library
begin

section \<open>Data types shared by the agent's components\<close>

text \<open>
  \<open>struct byte_req_pair\<close>, \<open>struct lat_sample\<close> (\<open>inc/lancet/stats.h\<close>), \<open>struct timespec\<close> and
  \<open>timespec_diff\<close> (\<open>agents/timestamping.c\<close>), \<open>struct iovec\<close> and \<open>struct request\<close>
  (\<open>inc/lancet/app_proto.h\<close>). Pairs are a commutative monoid, so that accounting lemmas are
  stated with \<open>sum_list\<close>; time stamps are linearly ordered.
\<close>

subsection \<open>Byte and request counts\<close>

datatype byte_req_pair = BRP (brp_bytes: u64) (brp_reqs: u64)

instantiation byte_req_pair :: comm_monoid_add
begin

definition zero_byte_req_pair :: byte_req_pair where
  "zero_byte_req_pair = BRP 0 0"

definition plus_byte_req_pair :: "byte_req_pair \<Rightarrow> byte_req_pair \<Rightarrow> byte_req_pair" where
  "plus_byte_req_pair p q = BRP (brp_bytes p + brp_bytes q) (brp_reqs p + brp_reqs q)"

instance
  by standard (simp_all add: zero_byte_req_pair_def plus_byte_req_pair_def ac_simps)

end

lemma brp_zero [simp, brp_simps]: "brp_bytes 0 = 0" "brp_reqs 0 = 0"
  by (simp_all add: zero_byte_req_pair_def)

lemma brp_plus [simp, brp_simps]:
  "brp_bytes (p + q) = brp_bytes p + brp_bytes q"
  "brp_reqs (p + q) = brp_reqs p + brp_reqs q"
  by (simp_all add: plus_byte_req_pair_def)

text \<open>The pair that counts \<open>b\<close> bytes in \<open>r\<close> messages, at the width of the C fields.\<close>

definition to_brp :: "nat \<times> nat \<Rightarrow> byte_req_pair" where
  "to_brp p = BRP (of_nat (fst p)) (of_nat (snd p))"

lemma to_brp_sel [simp]:
  "brp_bytes (to_brp p) = of_nat (fst p)" "brp_reqs (to_brp p) = of_nat (snd p)"
  by (simp_all add: to_brp_def)

lemma to_brp_add [brp_simps]: "to_brp (a, b) + to_brp (c, d) = to_brp (a + c, b + d)"
  by (simp add: to_brp_def plus_byte_req_pair_def)

lemma to_brp_0 [simp, brp_simps]: "to_brp (0, 0) = 0"
  by (simp add: to_brp_def zero_byte_req_pair_def)

subsection \<open>Time stamps\<close>

datatype timespec = Timespec (tv_sec: int) (tv_nsec: int)

instantiation timespec :: linorder
begin

definition less_eq_timespec :: "timespec \<Rightarrow> timespec \<Rightarrow> bool" where
  "less_eq_timespec a b \<longleftrightarrow> tv_sec a < tv_sec b \<or> (tv_sec a = tv_sec b \<and> tv_nsec a \<le> tv_nsec b)"

definition less_timespec :: "timespec \<Rightarrow> timespec \<Rightarrow> bool" where
  "less_timespec a b \<longleftrightarrow> tv_sec a < tv_sec b \<or> (tv_sec a = tv_sec b \<and> tv_nsec a < tv_nsec b)"

instance
proof
  fix x y z :: timespec
  show "(x < y) = (x \<le> y \<and> \<not> y \<le> x)"
    by (auto simp: less_eq_timespec_def less_timespec_def)
  show "x \<le> x"
    by (simp add: less_eq_timespec_def)
  show "x \<le> y \<Longrightarrow> y \<le> z \<Longrightarrow> x \<le> z"
    by (auto simp: less_eq_timespec_def)
  show "x \<le> y \<Longrightarrow> y \<le> x \<Longrightarrow> x = y"
    by (auto simp: less_eq_timespec_def intro: timespec.expand)
  show "x \<le> y \<or> y \<le> x"
    by (auto simp: less_eq_timespec_def)
qed

end

definition zero_ts :: timespec where
  "zero_ts = Timespec 0 0"

text \<open>A normalised time stamp, and the nanoseconds it stands for.\<close>

definition ts_wf :: "timespec \<Rightarrow> bool" where
  "ts_wf t \<longleftrightarrow> 0 \<le> tv_nsec t \<and> tv_nsec t < 10 ^ 9"

definition ts_ns :: "timespec \<Rightarrow> int" where
  "ts_ns t = tv_sec t * 10 ^ 9 + tv_nsec t"

text \<open>
  \<open>timespec_diff(res, a, b)\<close>: \<open>None\<close> is the return value -1, which leaves \<open>*res\<close> as it was,
  \<open>Some r\<close> is 0 with \<open>*res = r\<close>. A null pointer is the argument \<open>None\<close>.
\<close>

definition timespec_diff :: "timespec option \<Rightarrow> timespec option \<Rightarrow> timespec option" where
  "timespec_diff a b =
     (case (a, b) of
        (Some a, Some b) \<Rightarrow>
          (if tv_sec a = 0 \<or> tv_sec b = 0 then None
           else if tv_nsec a < tv_nsec b then
             Some (Timespec (tv_sec a - 1 - tv_sec b) (10 ^ 9 - (tv_nsec b - tv_nsec a)))
           else Some (Timespec (tv_sec a - tv_sec b) (tv_nsec a - tv_nsec b)))
      | _ \<Rightarrow> None)"

text \<open>\<open>latency.tv_nsec + latency.tv_sec * 1e9\<close>, computed in \<open>double\<close> and cut to a \<open>long\<close>.\<close>

definition latency_ns :: "timespec \<Rightarrow> int" where
  "latency_ns t = trunc (of_int (tv_nsec t) + of_int (tv_sec t) * 10 ^ 9)"

lemma ts_le_iff_ns:
  assumes "ts_wf a" and "ts_wf b"
  shows "a \<le> b \<longleftrightarrow> ts_ns a \<le> ts_ns b"
proof (cases "tv_sec a" "tv_sec b" rule: linorder_cases)
  case less
  then have "ts_ns a \<le> ts_ns b"
    using assms by (simp add: ts_wf_def ts_ns_def)
  with less show ?thesis by (simp add: less_eq_timespec_def)
next
  case equal
  then show ?thesis by (simp add: ts_ns_def less_eq_timespec_def)
next
  case greater
  then have "\<not> ts_ns a \<le> ts_ns b"
    using assms by (simp add: ts_wf_def ts_ns_def)
  with greater show ?thesis by (simp add: less_eq_timespec_def)
qed

lemma trunc_of_int [simp]: "trunc (of_int i) = i"
  by (simp add: trunc_def flip: of_int_minus)

lemma latency_ns_eq: "latency_ns t = ts_ns t"
proof -
  have "of_int (tv_nsec t) + of_int (tv_sec t) * 10 ^ 9 = (of_int (ts_ns t) :: real)"
    by (simp add: ts_ns_def)
  then show ?thesis by (simp add: latency_ns_def)
qed

lemma timespec_diff_Some:
  assumes "ts_wf a" and "ts_wf b" and "tv_sec a \<noteq> 0" and "tv_sec b \<noteq> 0"
  shows "\<exists>r. timespec_diff (Some a) (Some b) = Some r \<and> ts_wf r \<and> ts_ns r = ts_ns a - ts_ns b"
  using assms by (auto simp: timespec_diff_def ts_wf_def ts_ns_def algebra_simps)

lemma timespec_diff_None_iff:
  "timespec_diff a b = None \<longleftrightarrow>
     a = None \<or> b = None \<or> tv_sec (the a) = 0 \<or> tv_sec (the b) = 0"
  by (auto simp: timespec_diff_def split: option.splits)

subsection \<open>Scatter/gather requests\<close>

text \<open>
  \<open>struct iovec\<close>: the memory from \<open>iov_base\<close> to the end of its object, and the length the
  program declares. \<open>iov_data\<close> is what a system call that is handed the vector reads.
\<close>

record iovec =
  iov_base :: bytes
  iov_len :: nat

record request =
  meta :: u64
  iov_cnt :: nat
  iovs :: "iovec list"

definition empty_request :: request where
  "empty_request = \<lparr>meta = 0, iov_cnt = 0, iovs = []\<rparr>"

definition mk_iov :: "bytes \<Rightarrow> nat \<Rightarrow> iovec" where
  "mk_iov b n = \<lparr>iov_base = b, iov_len = n\<rparr>"

definition iov_ok :: "iovec \<Rightarrow> bool" where
  "iov_ok v \<longleftrightarrow> iov_len v \<le> length (iov_base v)"

definition iov_data :: "iovec \<Rightarrow> bytes" where
  "iov_data v = take (iov_len v) (iov_base v)"

text \<open>The bytes the whole request stands for, and the sum every sender computes first.\<close>

definition request_payload :: "request \<Rightarrow> bytes" where
  "request_payload r = concat (map iov_data (take (iov_cnt r) (iovs r)))"

definition bytes_to_send :: "request \<Rightarrow> nat" where
  "bytes_to_send r = sum_list (map iov_len (take (iov_cnt r) (iovs r)))"

definition request_ok :: "request \<Rightarrow> bool" where
  "request_ok r \<longleftrightarrow> iov_cnt r \<le> length (iovs r) \<and> list_all iov_ok (iovs r)"

lemma iov_sel [simp]:
  "iov_base (mk_iov b n) = b" "iov_len (mk_iov b n) = n"
  by (simp_all add: mk_iov_def)

lemma iov_ok_mk [simp]: "iov_ok (mk_iov b n) \<longleftrightarrow> n \<le> length b"
  by (simp add: iov_ok_def)

lemma iov_data_mk [simp]: "iov_data (mk_iov b n) = take n b"
  by (simp add: iov_data_def)

lemma length_iov_data [simp]: "iov_ok v \<Longrightarrow> length (iov_data v) = iov_len v"
  by (simp add: iov_data_def iov_ok_def)

lemma length_concat_iov_data:
  "list_all iov_ok vs \<Longrightarrow> length (concat (map iov_data vs)) = sum_list (map iov_len vs)"
  by (induction vs) simp_all

lemma length_request_payload:
  "request_ok r \<Longrightarrow> length (request_payload r) = bytes_to_send r"
  unfolding request_payload_def bytes_to_send_def request_ok_def
  by (rule length_concat_iov_data) (auto simp: list_all_iff dest: in_set_takeD)

end
