(* ===== verification/Rand_Gen.thy ===== *)
theory Rand_Gen
  imports Lancet_Types "HOL-Library.Stream"
begin

section \<open>Random generators (\<open>agents/rand_gen.c\<close>, \<open>inc/lancet/rand_gen.h\<close>)\<close>

text \<open>
  A \<open>struct rand_gen\<close> carries three function pointers and a union of parameters. A pointer is
  the name of the C function it points to; a field an initialiser never writes is \<open>None\<close>, as
  the block comes from \<open>malloc\<close>. The union's members all start with up to three doubles, so one
  triple of slots stands for all of them: \<open>a\<close> is \<open>p1.a\<close>, \<open>lss.loc\<close>, \<open>bp.low\<close> and \<open>lgp.sigma\<close>,
  \<open>b\<close> is \<open>lss.scale\<close>, \<open>bp.up\<close> and \<open>lgp.mu\<close>, \<open>c\<close> is \<open>lss.shape\<close> and \<open>bp.prob\<close>.
\<close>

subsection \<open>Floating-point operations that can leave the reals\<close>

definition fdiv :: "double \<Rightarrow> double \<Rightarrow> double result" where
  "fdiv x y = (if y = 0 then Inl NonFinite else Inr (x / y))"

definition flog :: "double \<Rightarrow> double result" where
  "flog x = (if x \<le> 0 then Inl NonFinite else Inr (ln x))"

definition fpow :: "double \<Rightarrow> double \<Rightarrow> double result" where
  "fpow x s =
     (if 0 < x then Inr (x powr s)
      else if x = 0 then (if s < 0 then Inl NonFinite else Inr (if s = 0 then 1 else 0))
      else if s = of_int \<lfloor>s\<rfloor> then Inr (x powi \<lfloor>s\<rfloor>)
      else Inl NonFinite)"

text \<open>The conversion of a \<open>double\<close> to \<open>uint64_t\<close>: undefined outside the type's range.\<close>

definition to_u64 :: "double \<Rightarrow> u64 result" where
  "to_u64 x = (let i = trunc x in if 0 \<le> i \<and> i < 2 ^ 64 then Inr (of_int i) else Inl ImplDefined)"

subsection \<open>The generator structure and the thread's sources of randomness\<close>

datatype gen_kind = GEN_OTHER | GEN_FIXED | GEN_EXP

datatype set_avg_fn =
    Fixed_set_avg | Exp_set_avg | Gpar_set_avg | Gev_set_avg
  | Bimodal_set_avg | Lognorm_set_avg

datatype inv_cdf_fn =
    Fixed_inv_cdf | Exp_inv_cdf | Gpar_inv_cdf | Gev_inv_cdf
  | Bimodal_inv_cdf | Lognorm_inv_cdf

datatype generate_fn = Rr_generate | Uni_generate | Lognorm_generate

record rand_gen =
  gen_type :: "gen_kind option"
  set_avg_ptr :: "set_avg_fn option"
  inv_cdf_ptr :: "inv_cdf_fn option"
  generate_ptr :: "generate_fn option"
  par_a :: double
  par_b :: double
  par_c :: double

text \<open>
  What a thread draws from: the thread-local round-robin counter, the \<open>drand48\<close> state, and the
  values \<open>rand()\<close> and the C++ normal generator (\<open>agents/cpp_rand.cc\<close>) are going to return.
\<close>

record rand_env =
  prev_rr :: u64
  drand_x :: "48 word"
  rand_s :: "nat stream"
  normal_s :: "double stream"

definition start_env :: rand_env where
  "start_env = \<lparr>prev_rr = 0, drand_x = 0, rand_s = sconst 0, normal_s = sconst 0\<rparr>"

definition env_drand48 :: "rand_env \<Rightarrow> double \<times> rand_env" where
  "env_drand48 e = (let (y, x') = drand48 (drand_x e) in (y, e\<lparr>drand_x := x'\<rparr>))"

definition env_rand :: "rand_env \<Rightarrow> nat \<times> rand_env" where
  "env_rand e = (shd (rand_s e), e\<lparr>rand_s := stl (rand_s e)\<rparr>)"

definition env_normal :: "rand_env \<Rightarrow> double \<times> rand_env" where
  "env_normal e = (shd (normal_s e), e\<lparr>normal_s := stl (normal_s e)\<rparr>)"

text \<open>
  \<open>malloc\<close>: nothing is written yet. The numeric slots have no observable value before an
  initialiser stores them; they are 0 here and no modelled read happens before the store.
\<close>

definition fresh_gen :: rand_gen where
  "fresh_gen = \<lparr>gen_type = None, set_avg_ptr = None, inv_cdf_ptr = None, generate_ptr = None,
     par_a = 0, par_b = 0, par_c = 0\<rparr>"

subsection \<open>Setting the average\<close>

definition fixed_set_avg :: "rand_gen \<Rightarrow> double \<Rightarrow> rand_gen result" where
  "fixed_set_avg g avg = Inr (g\<lparr>par_a := avg\<rparr>)"

definition exp_set_avg :: "rand_gen \<Rightarrow> double \<Rightarrow> rand_gen result" where
  "exp_set_avg g avg = bindE (fdiv 1 avg) (\<lambda>lam. Inr (g\<lparr>par_a := lam\<rparr>))"

definition gpar_set_avg :: "rand_gen \<Rightarrow> double \<Rightarrow> rand_gen result" where
  "gpar_set_avg g avg = Inr (g\<lparr>par_b := (avg - par_a g) * (1 - par_c g)\<rparr>)"

definition gev_set_avg :: "rand_gen \<Rightarrow> double \<Rightarrow> rand_gen result" where
  "gev_set_avg g avg = Inl AssertFail"

definition bimodal_set_avg :: "rand_gen \<Rightarrow> double \<Rightarrow> rand_gen result" where
  "bimodal_set_avg g avg = Inl AssertFail"

definition lognorm_set_avg :: "rand_gen \<Rightarrow> double \<Rightarrow> rand_gen result" where
  "lognorm_set_avg g avg = Inl AssertFail"

fun call_set_avg :: "set_avg_fn \<Rightarrow> rand_gen \<Rightarrow> double \<Rightarrow> rand_gen result" where
  "call_set_avg Fixed_set_avg g avg = fixed_set_avg g avg"
| "call_set_avg Exp_set_avg g avg = exp_set_avg g avg"
| "call_set_avg Gpar_set_avg g avg = gpar_set_avg g avg"
| "call_set_avg Gev_set_avg g avg = gev_set_avg g avg"
| "call_set_avg Bimodal_set_avg g avg = bimodal_set_avg g avg"
| "call_set_avg Lognorm_set_avg g avg = lognorm_set_avg g avg"

definition set_avg :: "rand_gen \<Rightarrow> double \<Rightarrow> rand_gen result" where
  "set_avg g avg = (case set_avg_ptr g of None \<Rightarrow> Inl Uninit | Some f \<Rightarrow> call_set_avg f g avg)"

definition set_avg_ext :: "rand_gen \<Rightarrow> double \<Rightarrow> rand_gen result" where
  "set_avg_ext g avg =
     (case gen_type g of
        None \<Rightarrow> Inl Uninit
      | Some GEN_FIXED \<Rightarrow> fixed_set_avg g avg
      | Some GEN_EXP \<Rightarrow> exp_set_avg g avg
      | Some GEN_OTHER \<Rightarrow> Inl AssertFail)"

subsection \<open>Inverse distribution functions\<close>

definition fixed_inv_cdf :: "rand_gen \<Rightarrow> double \<Rightarrow> double result" where
  "fixed_inv_cdf g y = Inr (par_a g)"

definition exp_inv_cdf :: "rand_gen \<Rightarrow> double \<Rightarrow> double result" where
  "exp_inv_cdf g y = bindE (flog y) (\<lambda>l. fdiv (- l) (par_a g))"

definition gpar_inv_cdf :: "rand_gen \<Rightarrow> double \<Rightarrow> double result" where
  "gpar_inv_cdf g y =
     bindE (fpow (1 - y) (- par_c g)) (\<lambda>p.
     bindE (fdiv (par_b g * (p - 1)) (par_c g)) (\<lambda>q. Inr (par_a g + q)))"

definition gev_inv_cdf :: "rand_gen \<Rightarrow> double \<Rightarrow> double result" where
  "gev_inv_cdf g y =
     bindE (fpow (- exp y) (- par_c g)) (\<lambda>p.
     bindE (fdiv (par_b g * (p - 1)) (par_c g)) (\<lambda>q. Inr (par_a g + q)))"

definition bimodal_inv_cdf :: "rand_gen \<Rightarrow> double \<Rightarrow> double result" where
  "bimodal_inv_cdf g y = (if y \<le> par_c g then Inr (par_a g) else Inr (par_b g))"

definition lognorm_inv_cdf :: "rand_gen \<Rightarrow> double \<Rightarrow> double result" where
  "lognorm_inv_cdf g y = Inl AssertFail"

fun call_inv_cdf :: "inv_cdf_fn \<Rightarrow> rand_gen \<Rightarrow> double \<Rightarrow> double result" where
  "call_inv_cdf Fixed_inv_cdf g y = fixed_inv_cdf g y"
| "call_inv_cdf Exp_inv_cdf g y = exp_inv_cdf g y"
| "call_inv_cdf Gpar_inv_cdf g y = gpar_inv_cdf g y"
| "call_inv_cdf Gev_inv_cdf g y = gev_inv_cdf g y"
| "call_inv_cdf Bimodal_inv_cdf g y = bimodal_inv_cdf g y"
| "call_inv_cdf Lognorm_inv_cdf g y = lognorm_inv_cdf g y"

definition inv_cdf :: "rand_gen \<Rightarrow> double \<Rightarrow> double result" where
  "inv_cdf g y = (case inv_cdf_ptr g of None \<Rightarrow> Inl Uninit | Some f \<Rightarrow> call_inv_cdf f g y)"

subsection \<open>Drawing a number\<close>

definition rr_generate :: "rand_gen \<Rightarrow> rand_env \<Rightarrow> (double \<times> rand_env) result" where
  "rr_generate g e =
     bindE (to_u64 (par_a g)) (\<lambda>max.
       if max = 0 then Inl DivByZero
       else Inr (of_nat (unat (prev_rr e mod max)), e\<lparr>prev_rr := prev_rr e + 1\<rparr>))"

definition uni_generate :: "rand_gen \<Rightarrow> rand_env \<Rightarrow> (double \<times> rand_env) result" where
  "uni_generate g e =
     bindE (to_u64 (par_a g)) (\<lambda>max.
       if max = 0 then Inl DivByZero
       else (let (r, e') = env_rand e in Inr (of_nat (unat (of_nat r mod max)), e')))"

definition lognorm_generate :: "rand_gen \<Rightarrow> rand_env \<Rightarrow> (double \<times> rand_env) result" where
  "lognorm_generate g e =
     (let (y, e') = env_normal e in Inr (exp (par_b g + y * par_a g), e'))"

fun call_generate :: "generate_fn \<Rightarrow> rand_gen \<Rightarrow> rand_env \<Rightarrow> (double \<times> rand_env) result" where
  "call_generate Rr_generate g e = rr_generate g e"
| "call_generate Uni_generate g e = uni_generate g e"
| "call_generate Lognorm_generate g e = lognorm_generate g e"

definition generate :: "rand_gen \<Rightarrow> rand_env \<Rightarrow> (double \<times> rand_env) result" where
  "generate g e =
     (case generate_ptr g of
        Some f \<Rightarrow> call_generate f g e
      | None \<Rightarrow> (let (y, e') = env_drand48 e in bindE (inv_cdf g y) (\<lambda>v. Inr (v, e'))))"

subsection \<open>Initialisers\<close>

definition fixed_init :: "double \<Rightarrow> rand_gen result" where
  "fixed_init a =
     (let g = fresh_gen\<lparr>set_avg_ptr := Some Fixed_set_avg, inv_cdf_ptr := Some Fixed_inv_cdf,
                generate_ptr := None, gen_type := Some GEN_FIXED\<rparr>
      in set_avg g a)"

definition rr_init :: "double \<Rightarrow> rand_gen result" where
  "rr_init a = Inr (fresh_gen\<lparr>generate_ptr := Some Rr_generate, par_a := a\<rparr>)"

definition uni_init :: "double \<Rightarrow> rand_gen result" where
  "uni_init a = Inr (fresh_gen\<lparr>generate_ptr := Some Uni_generate, par_a := a\<rparr>)"

definition exp_init :: "double \<Rightarrow> rand_gen result" where
  "exp_init a =
     (let g = fresh_gen\<lparr>set_avg_ptr := Some Exp_set_avg, inv_cdf_ptr := Some Exp_inv_cdf,
                generate_ptr := None, gen_type := Some GEN_EXP\<rparr>
      in set_avg g a)"

definition gpar_init :: "double \<times> double \<times> double \<Rightarrow> rand_gen result" where
  "gpar_init p = (case p of (a, b, c) \<Rightarrow>
     Inr (fresh_gen\<lparr>par_a := a, par_b := b, par_c := c, set_avg_ptr := Some Gpar_set_avg,
       inv_cdf_ptr := Some Gpar_inv_cdf, generate_ptr := None, gen_type := Some GEN_OTHER\<rparr>))"

definition gev_init :: "double \<times> double \<times> double \<Rightarrow> rand_gen result" where
  "gev_init p = (case p of (a, b, c) \<Rightarrow>
     Inr (fresh_gen\<lparr>par_a := a, par_b := b, par_c := c, set_avg_ptr := Some Gev_set_avg,
       inv_cdf_ptr := Some Gev_inv_cdf, generate_ptr := None, gen_type := Some GEN_OTHER\<rparr>))"

definition bimodal_init :: "double \<times> double \<times> double \<Rightarrow> rand_gen result" where
  "bimodal_init p = (case p of (a, b, c) \<Rightarrow>
     Inr (fresh_gen\<lparr>par_a := a, par_b := b, par_c := c, set_avg_ptr := Some Bimodal_set_avg,
       inv_cdf_ptr := Some Bimodal_inv_cdf, generate_ptr := None, gen_type := Some GEN_OTHER\<rparr>))"

definition lognormal_init :: "double \<times> double \<Rightarrow> rand_gen result" where
  "lognormal_init p = (case p of (a, b) \<Rightarrow>
     Inr (fresh_gen\<lparr>par_b := a, par_a := b, generate_ptr := Some Lognorm_generate,
       set_avg_ptr := Some Lognorm_set_avg, inv_cdf_ptr := Some Lognorm_inv_cdf,
       gen_type := Some GEN_OTHER\<rparr>))"

definition gamma_init :: "double \<times> double \<Rightarrow> rand_gen result" where
  "gamma_init p = Inl AssertFail"

subsection \<open>Parsing a generator's description\<close>

definition dec_val :: "string \<Rightarrow> nat" where
  "dec_val ds = foldl (\<lambda>a c. 10 * a + digit_val c) 0 ds"

text \<open>
  \<open>atof\<close> on decimal numbers: white space, a sign, digits with an optional point, an optional
  exponent; the rest of the string is ignored (hexadecimal, infinities and NaN are not
  modelled).
\<close>

definition split_sign :: "string \<Rightarrow> bool \<times> string" where
  "split_sign s =
     (case s of
        [] \<Rightarrow> (False, [])
      | c # cs \<Rightarrow> if c = CHR ''-'' then (True, cs) else if c = CHR ''+'' then (False, cs) else (False, s))"

definition dec_exponent :: "string \<Rightarrow> int" where
  "dec_exponent s =
     (case s of
        [] \<Rightarrow> 0
      | c # cs \<Rightarrow>
          if c = CHR ''e'' \<or> c = CHR ''E'' then
            (let (neg, ds) = split_sign cs; v = int (dec_val (takeWhile is_digit ds))
             in if neg then - v else v)
          else 0)"

definition atof :: "string \<Rightarrow> double" where
  "atof s =
     (let (neg, s') = split_sign (skip_space s);
          ip = takeWhile is_digit s'; r = dropWhile is_digit s';
          frac = r \<noteq> [] \<and> hd r = CHR ''.'';
          fp = (if frac then takeWhile is_digit (tl r) else []);
          r' = (if frac then dropWhile is_digit (tl r) else r);
          e = (if ip = [] \<and> fp = [] then 0 else dec_exponent r');
          m = real (dec_val (ip @ fp)) / 10 ^ length fp * 10 powi e
      in if neg then - m else m)"

definition atof_ptr :: "string option \<Rightarrow> double result" where
  "atof_ptr t = (case t of None \<Rightarrow> Inl NullDeref | Some s \<Rightarrow> Inr (atof s))"

definition parse_param_1 :: "string \<Rightarrow> double result" where
  "parse_param_1 type =
     (let (_, p) = strtok_r '':'' type; (tok, _) = strtok_r '':'' p
      in case tok of None \<Rightarrow> Inr 0 | Some t \<Rightarrow> Inr (atof t))"

definition parse_param_2 :: "string \<Rightarrow> (double \<times> double) result" where
  "parse_param_2 type =
     (let (_, p) = strtok_r '':'' type; (t1, p) = strtok_r '':'' p; (t2, _) = strtok_r '':'' p
      in bindE (atof_ptr t1) (\<lambda>a. bindE (atof_ptr t2) (\<lambda>b. Inr (a, b))))"

definition parse_param_3 :: "string \<Rightarrow> (double \<times> double \<times> double) result" where
  "parse_param_3 type =
     (let (_, p) = strtok_r '':'' type; (t1, p) = strtok_r '':'' p; (t2, p) = strtok_r '':'' p;
          (t3, _) = strtok_r '':'' p
      in bindE (atof_ptr t1) (\<lambda>a. bindE (atof_ptr t2) (\<lambda>b. bindE (atof_ptr t3) (\<lambda>c.
           Inr (a, b, c)))))"

text \<open>
  \<open>strncmp(s, pre, strlen(pre)) == 0\<close> on C strings (lemma \<open>strncmp_eq_cstr\<close>), and the chain of
  tests of \<open>init_rand\<close> in the code's order. \<open>Inr None\<close> is the \<open>NULL\<close> of an unknown type.
\<close>

definition has_prefix :: "string \<Rightarrow> string \<Rightarrow> bool" where
  "has_prefix s pre \<longleftrightarrow> take (length pre) s = pre"

definition init_rand :: "string \<Rightarrow> rand_gen option result" where
  "init_rand s =
     (if has_prefix s ''fixed'' then bindE (bindE (parse_param_1 s) fixed_init) (\<lambda>g. Inr (Some g))
      else if has_prefix s ''rr'' then bindE (bindE (parse_param_1 s) rr_init) (\<lambda>g. Inr (Some g))
      else if has_prefix s ''uni'' then bindE (bindE (parse_param_1 s) uni_init) (\<lambda>g. Inr (Some g))
      else if has_prefix s ''exp'' then bindE (bindE (parse_param_1 s) exp_init) (\<lambda>g. Inr (Some g))
      else if has_prefix s ''pareto'' then bindE (bindE (parse_param_3 s) gpar_init) (\<lambda>g. Inr (Some g))
      else if has_prefix s ''gev'' then bindE (bindE (parse_param_3 s) gev_init) (\<lambda>g. Inr (Some g))
      else if s = ''fb_key'' then
        bindE (bindE (parse_param_3 ''gev:30.7984:8.20449:0.078688'') gev_init) (\<lambda>g. Inr (Some g))
      else if s = ''fb_ia'' then
        bindE (bindE (parse_param_3 ''gpar:0:16.0292:0.154971'') gpar_init) (\<lambda>g. Inr (Some g))
      else if s = ''fb_val'' then
        bindE (bindE (parse_param_3 ''gpar:15.0:214.476:0.348238'') gpar_init) (\<lambda>g. Inr (Some g))
      else if has_prefix s ''bimodal'' then
        bindE (bindE (parse_param_3 s) bimodal_init) (\<lambda>g. Inr (Some g))
      else if has_prefix s ''lognorm'' then
        bindE (bindE (parse_param_2 s) lognormal_init) (\<lambda>g. Inr (Some g))
      else if has_prefix s ''gamma'' then
        bindE (bindE (parse_param_2 s) gamma_init) (\<lambda>g. Inr (Some g))
      else Inr None)"

subsection \<open>Reading a printed count back\<close>

lemma takeWhile_digits_show_nat:
  assumes "\<not> is_digit x"
  shows "takeWhile is_digit (show_nat n @ x # rest) = show_nat n"
    and "dropWhile is_digit (show_nat n @ x # rest) = x # rest"
  using assms by (simp_all add: takeWhile_append2 dropWhile_append2 show_nat_is_digit)

lemma atof_show_nat:
  assumes "\<not> is_digit x" and "x \<noteq> CHR ''.''" and "x \<noteq> CHR ''e''" and "x \<noteq> CHR ''E''"
  shows "atof (show_nat n @ x # rest) = of_nat n"
proof -
  obtain c cs where s: "show_nat n = c # cs"
    by (cases "show_nat n") auto
  have c: "c \<noteq> CHR ''-''" "c \<noteq> CHR ''+''" "\<not> is_space c"
    using hd_show_nat [of n] by (simp_all add: s)
  have sp: "split_sign (skip_space (show_nat n @ x # rest)) = (False, show_nat n @ x # rest)"
    using c by (simp add: s split_sign_def)
  show ?thesis
    using assms takeWhile_digits_show_nat [OF assms(1), of n rest]
    by (simp add: atof_def sp dec_exponent_def dec_val_def foldl_show_nat)
qed

text \<open>The two key selectors, described as \<open>sprintf(key_sel, "%s:%d\n", token, key_count)\<close> does.\<close>

definition selector_desc :: "string \<Rightarrow> nat \<Rightarrow> string" where
  "selector_desc name n = name @ '':'' @ show_nat n @ [LF]"

lemma parse_param_1_selector:
  assumes "name \<noteq> []" and "CHR '':'' \<notin> set name"
  shows "parse_param_1 (selector_desc name n) = Inr (of_nat n)"
proof -
  have t1: "strtok_r '':'' (name @ CHR '':'' # (show_nat n @ [LF])) = (Some name, show_nat n @ [LF])"
    using assms by (intro strtok_r_token) auto
  have "CHR '':'' \<notin> set (show_nat n)"
    using show_nat_is_digit [of "CHR '':''" n] by (auto simp: is_digit_def)
  then have t2: "strtok_r '':'' (show_nat n @ [LF]) = (Some (show_nat n @ [LF]), [])"
    by (intro strtok_r_last) auto
  show ?thesis
    using t1 t2 atof_show_nat [of LF n "[]"]
    by (simp add: parse_param_1_def selector_desc_def is_digit_def)
qed

lemma init_rand_uni:
  "init_rand (selector_desc ''uni'' n) =
     Inr (Some (fresh_gen\<lparr>generate_ptr := Some Uni_generate, par_a := of_nat n\<rparr>))"
  using parse_param_1_selector [of "''uni''" n]
  by (simp add: init_rand_def has_prefix_def uni_init_def selector_desc_def)

lemma init_rand_rr:
  "init_rand (selector_desc ''rr'' n) =
     Inr (Some (fresh_gen\<lparr>generate_ptr := Some Rr_generate, par_a := of_nat n\<rparr>))"
  using parse_param_1_selector [of "''rr''" n]
  by (simp add: init_rand_def has_prefix_def rr_init_def selector_desc_def)

lemma to_u64_of_nat: "n < 2 ^ 64 \<Longrightarrow> to_u64 (of_nat n) = Inr (of_nat n)"
proof -
  assume n: "n < 2 ^ 64"
  have "trunc (of_nat n) = int n"
    using trunc_of_int [of "int n"] by simp
  moreover have "int n < 2 ^ 64"
    using n by simp
  ultimately show ?thesis by (simp add: to_u64_def)
qed

lemma unat_mod_of_nat:
  "0 < n \<Longrightarrow> n < 2 ^ 64 \<Longrightarrow> unat (x mod of_nat n :: u64) = unat x mod n"
  by (simp add: unat_mod unat_of_nat_id)

lemma u64_of_nat_neq_0: "0 < n \<Longrightarrow> n < 2 ^ 64 \<Longrightarrow> (of_nat n :: u64) \<noteq> 0"
  using unat_of_nat_id [where 'a = 64, of n] by auto

lemma rr_generate_eq:
  assumes "par_a g = of_nat n" and "0 < n" and "n < 2 ^ 64"
  shows "rr_generate g e =
    Inr (of_nat (unat (prev_rr e) mod n), e\<lparr>prev_rr := prev_rr e + 1\<rparr>)"
  using assms by (simp add: rr_generate_def to_u64_of_nat u64_of_nat_neq_0 unat_mod_of_nat)

lemma uni_generate_eq:
  assumes "par_a g = of_nat n" and "0 < n" and "n < 2 ^ 64"
  shows "uni_generate g e =
    Inr (of_nat (unat (of_nat (shd (rand_s e)) :: u64) mod n), e\<lparr>rand_s := stl (rand_s e)\<rparr>)"
  using assms
  by (simp add: uni_generate_def to_u64_of_nat u64_of_nat_neq_0 unat_mod_of_nat env_rand_def)

text \<open>Property C31. A key selector built by \<open>memcache_init\<close> or \<open>redis_init\<close> (\<open>uni\<close> or \<open>rr\<close> over
  \<open>key_count\<close> keys) parses, and every number it ever generates, from any state of the thread's
  random sources, is an index of the key array.\<close>

theorem key_selector_in_range:
  assumes "name = ''uni'' \<or> name = ''rr''" and "0 < n" and "n < 2 ^ 31"
  shows "\<exists>g. init_rand (selector_desc name n) = Inr (Some g) \<and>
    (\<forall>e. \<exists>v e'. generate g e = Inr (v, e') \<and> 0 \<le> trunc v \<and> trunc v < int n)"
proof -
  have n: "n < 2 ^ 64" using assms(3) by simp
  have idx: "0 \<le> trunc (of_nat (k mod n)) \<and> trunc (of_nat (k mod n)) < int n" for k
    using trunc_of_int [of "int (k mod n)"] assms(2) by simp
  from assms(1) show ?thesis
  proof
    assume "name = ''uni''"
    then show ?thesis
      using idx assms(2) n by (simp add: init_rand_uni generate_def uni_generate_eq)
  next
    assume "name = ''rr''"
    then show ?thesis
      using idx assms(2) n by (simp add: init_rand_rr generate_def rr_generate_eq)
  qed
qed

theorem key_selector_in_range_witness:
  "\<exists>g. init_rand (selector_desc ''uni'' 1000) = Inr (Some g) \<and>
    (\<forall>e. \<exists>v e'. generate g e = Inr (v, e') \<and> 0 \<le> trunc v \<and> trunc v < int 1000)"
  using key_selector_in_range [of "''uni''" 1000] by simp

text \<open>The first \<open>k\<close> numbers a generator returns.\<close>

fun draws :: "nat \<Rightarrow> rand_gen \<Rightarrow> rand_env \<Rightarrow> (double list \<times> rand_env) result" where
  "draws 0 g e = Inr ([], e)"
| "draws (Suc k) g e =
     bindE (generate g e) (\<lambda>(v, e'). bindE (draws k g e') (\<lambda>(vs, e''). Inr (v # vs, e'')))"

lemma draws_rr:
  assumes "generate_ptr g = Some Rr_generate" and "par_a g = of_nat n" and "0 < n" and "n < 2 ^ 64"
  shows "unat (prev_rr e) + k < 2 ^ 64 \<Longrightarrow>
    draws k g e = Inr (map (\<lambda>i. of_nat (i mod n)) [unat (prev_rr e)..<unat (prev_rr e) + k],
      e\<lparr>prev_rr := prev_rr e + of_nat k\<rparr>)"
proof (induction k arbitrary: e)
  case 0
  then show ?case by simp
next
  case (Suc k)
  have u: "unat (prev_rr e + 1) = Suc (unat (prev_rr e))"
    using Suc.prems by (intro unat_Suc_nowrap) simp
  have "draws k g (e\<lparr>prev_rr := prev_rr e + 1\<rparr>) =
    Inr (map (\<lambda>i. of_nat (i mod n)) [Suc (unat (prev_rr e))..<Suc (unat (prev_rr e)) + k],
      e\<lparr>prev_rr := prev_rr e + 1 + of_nat k\<rparr>)"
    using Suc.IH [of "e\<lparr>prev_rr := prev_rr e + 1\<rparr>"] Suc.prems by (simp add: u)
  moreover have "[unat (prev_rr e)..<unat (prev_rr e) + Suc k] =
      unat (prev_rr e) # [Suc (unat (prev_rr e))..<Suc (unat (prev_rr e)) + k]"
    by (simp add: upt_rec)
  ultimately show ?case
    using assms rr_generate_eq [OF assms(2-4), of e]
    by (simp add: generate_def add.assoc del: upt_Suc)
qed

lemma mod_window_image:
  fixes p n :: nat
  assumes "0 < n"
  shows "(\<lambda>i. i mod n) ` {p..<p + n} = {..<n}"
proof (rule card_subset_eq)
  show "finite {..<n}" by simp
  show "(\<lambda>i. i mod n) ` {p..<p + n} \<subseteq> {..<n}"
    using assms by auto
  have "inj_on (\<lambda>i. i mod n) {p..<p + n}"
  proof (rule inj_onI)
    fix x y assume xy: "x \<in> {p..<p + n}" "y \<in> {p..<p + n}" and m: "x mod n = y mod n"
    show "x = y"
    proof (rule ccontr)
      assume "x \<noteq> y"
      then consider "x < y" | "y < x" by linarith
      then show False
        using mod_slots_distinct [of x y n] mod_slots_distinct [of y x n] xy m by cases auto
    qed
  qed
  then show "card ((\<lambda>i. i mod n) ` {p..<p + n}) = card {..<n}"
    by (simp add: card_image)
qed

text \<open>As long as the 64-bit counter does not wrap, \<open>n\<close> consecutive draws of a round-robin
  generator over \<open>n\<close> keys return every index below \<open>n\<close> exactly once.\<close>

theorem rr_visits_every_key:
  assumes "generate_ptr g = Some Rr_generate" and "par_a g = of_nat n" and "0 < n" and "n < 2 ^ 64"
    and "unat (prev_rr e) + n < 2 ^ 64"
  shows "\<exists>vs e'. draws n g e = Inr (vs, e') \<and> length vs = n \<and> set vs = of_nat ` {..<n}"
proof -
  let ?p = "unat (prev_rr e)"
  have "(\<lambda>i. of_nat (i mod n) :: real) ` {?p..<?p + n} = of_nat ` (\<lambda>i. i mod n) ` {?p..<?p + n}"
    by (simp add: image_image)
  then have "set (map (\<lambda>i. of_nat (i mod n) :: real) [?p..<?p + n]) = of_nat ` {..<n}"
    using mod_window_image [OF assms(3), of ?p] by simp
  then show ?thesis
    using draws_rr [OF assms(1-4), of e n] assms(5) by simp
qed

theorem rr_visits_every_key_witness:
  "\<exists>vs e'. draws 3 (fresh_gen\<lparr>generate_ptr := Some Rr_generate, par_a := 3\<rparr>)
      \<lparr>prev_rr = 5, drand_x = 0, rand_s = sconst 0, normal_s = sconst 0\<rparr> = Inr (vs, e') \<and>
    length vs = 3 \<and> set vs = of_nat ` {..<3}"
  using rr_visits_every_key [of "fresh_gen\<lparr>generate_ptr := Some Rr_generate, par_a := 3\<rparr>" 3
      "\<lparr>prev_rr = 5, drand_x = 0, rand_s = sconst 0, normal_s = sconst 0\<rparr>"]
  by simp

subsection \<open>The laws of the sampled distributions\<close>

lemma init_exp:
  assumes "avg \<noteq> 0"
  shows "exp_init avg = Inr (fresh_gen\<lparr>set_avg_ptr := Some Exp_set_avg,
    inv_cdf_ptr := Some Exp_inv_cdf, generate_ptr := None, gen_type := Some GEN_EXP, par_a := 1 / avg\<rparr>)"
  using assms by (simp add: exp_init_def set_avg_def exp_set_avg_def fdiv_def)

text \<open>Property C32. The exponential generator with average \<open>avg\<close> maps a uniform \<open>y\<close> to a non-negative \<open>x\<close>
  whose survival probability under the exponential law of mean \<open>avg\<close> is \<open>y\<close>.\<close>

theorem exp_samples_exponential:
  assumes "0 < avg" and "0 < y" and "y \<le> 1"
  shows "\<exists>g x. exp_init avg = Inr g \<and> inv_cdf g y = Inr x \<and> 0 \<le> x \<and> exp (- (x / avg)) = y"
  using assms
  by (simp add: init_exp inv_cdf_def exp_inv_cdf_def flog_def fdiv_def mult_nonneg_nonpos2)

theorem exp_samples_exponential_witness:
  "\<exists>g x. exp_init 10 = Inr g \<and> inv_cdf g (1/2) = Inr x \<and> 0 \<le> x \<and> exp (- (x / 10)) = 1/2"
  using exp_samples_exponential [of 10 "1/2"] by simp

text \<open>The generalised Pareto generator inverts the distribution function with its location,
  scale and shape, and never returns less than the location.\<close>

theorem pareto_inverts_cdf:
  assumes "0 < scale" and "0 < shape" and "0 \<le> y" and "y < 1"
  shows "\<exists>g x. gpar_init (loc, scale, shape) = Inr g \<and> inv_cdf g y = Inr x \<and> loc \<le> x \<and>
    1 - (1 + shape * (x - loc) / scale) powr (- 1 / shape) = y"
proof -
  let ?p = "(1 - y) powr (- shape)"
  let ?x = "loc + scale * (?p - 1) / shape"
  have "(1 + shape * (?x - loc) / scale) powr (- 1 / shape) = ?p powr (- 1 / shape)"
    using assms by simp
  also have "\<dots> = 1 - y"
    using assms by (simp add: powr_powr)
  finally have inv: "1 - (1 + shape * (?x - loc) / scale) powr (- 1 / shape) = y"
    by simp
  have "1 \<le> ?p"
    using assms by (simp add: powr_minus_divide powr_le1)
  then have "loc \<le> ?x"
    using assms by simp
  with inv show ?thesis
    using assms by (simp add: gpar_init_def inv_cdf_def gpar_inv_cdf_def fpow_def fdiv_def)
qed

theorem pareto_inverts_cdf_witness:
  "\<exists>g x. gpar_init (15, 214, 1/2) = Inr g \<and> inv_cdf g (1/4) = Inr x \<and> 15 \<le> x \<and>
    1 - (1 + 1/2 * (x - 15) / 214) powr (- 1 / (1/2)) = 1/4"
  using pareto_inverts_cdf [of 214 "1/2" "1/4" 15] by simp

text \<open>The GEV generator raises a negative number to a power: with a shape that is not an
  integer (as in \<open>fb_key\<close>) it never produces a number.\<close>

theorem gev_never_samples:
  assumes "shape \<noteq> of_int \<lfloor>shape\<rfloor>" and "gev_init (loc, scale, shape) = Inr g"
  shows "inv_cdf g y = Inl NonFinite"
proof -
  have "- shape \<noteq> of_int \<lfloor>- shape\<rfloor>"
    using assms(1) by (metis Ints_cases Ints_minus Ints_of_int add.inverse_inverse floor_of_int)
  moreover have "\<not> 0 < - exp y" "- exp y \<noteq> 0"
    using exp_gt_zero [of y] by linarith+
  ultimately show ?thesis
    using assms(2) by (auto simp: gev_init_def inv_cdf_def gev_inv_cdf_def fpow_def)
qed

theorem gev_never_samples_witness:
  "\<exists>g. gev_init (30, 8, 1/2) = Inr g \<and> inv_cdf g (1/4) = Inl NonFinite"
  using gev_never_samples [of "1/2" 30 8 _ "1/4"] by (simp add: gev_init_def)

text \<open>\<open>set_avg_ext\<close>, the entry point the manager uses to change the load, works on fixed and
  exponential generators only; on \<open>rr\<close> and \<open>uni\<close> generators it reads a type tag that was never
  written, on the others its assertion fails.\<close>

theorem set_avg_ext_only_fixed_and_exp:
  "set_avg_ext g avg =
     (if gen_type g = Some GEN_FIXED then Inr (g\<lparr>par_a := avg\<rparr>)
      else if gen_type g = Some GEN_EXP then
        (if avg = 0 then Inl NonFinite else Inr (g\<lparr>par_a := 1 / avg\<rparr>))
      else if gen_type g = None then Inl Uninit else Inl AssertFail)"
  by (auto simp: set_avg_ext_def fixed_set_avg_def exp_set_avg_def fdiv_def
      split: option.splits gen_kind.splits)

end
