(* ===== verification/Key_Gen.thy ===== *)
theory Key_Gen
  imports Rand_Gen
begin

section \<open>Key generation (\<open>agents/key_gen.c\<close>, \<open>inc/lancet/key_gen.h\<close>)\<close>

text \<open>
  The key array of the key-value protocols: every key is its index printed with leading zeros
  to the drawn size and cut there. Allocation is assumed to succeed for sizes that fit.
\<close>

record key_gen =
  key_size_gen :: rand_gen
  key_count :: int
  keys :: "iovec list"

text \<open>
  One round of the loop of \<open>generate_keys\<close>. The quotient \<open>i / key_count\<close> is an integer one. The
  block has \<open>key_size + 1\<close> zeroed bytes and \<open>snprintf\<close> writes at most \<open>key_size\<close> characters
  into it; a negative size makes the size of the block negative (or zero), one that overflows
  \<open>int\<close> makes the cast in the call implementation-defined.
\<close>

definition generate_key :: "rand_gen \<Rightarrow> int \<Rightarrow> nat \<Rightarrow> iovec result" where
  "generate_key g n i =
     bindE (inv_cdf g (of_int (int i div n))) (\<lambda>x.
       let key_size = lround x in
       if key_size < - 1 then Inl NullDeref
       else if key_size = - 1 \<or> 2 ^ 31 - 1 \<le> key_size then Inl ImplDefined
       else (let w = nat key_size
             in Inr (mk_iov (take w (show_padded w i) @ [NUL]) w)))"

fun generate_keys_from :: "rand_gen \<Rightarrow> int \<Rightarrow> nat list \<Rightarrow> iovec list result" where
  "generate_keys_from g n [] = Inr []"
| "generate_keys_from g n (i # is) =
     bindE (generate_key g n i) (\<lambda>k. bindE (generate_keys_from g n is) (\<lambda>ks. Inr (k # ks)))"

definition generate_keys :: "rand_gen \<Rightarrow> int \<Rightarrow> iovec list result" where
  "generate_keys g n = generate_keys_from g n [0..<nat n]"

definition init_key_gen :: "string \<Rightarrow> int \<Rightarrow> key_gen result" where
  "init_key_gen type n =
     bindE (init_rand type) (\<lambda>og.
       case og of
         None \<Rightarrow> if 0 < n then Inl NullDeref
                 else Inr \<lparr>key_size_gen = fresh_gen, key_count = n, keys = []\<rparr>
       | Some g \<Rightarrow>
           bindE (generate_keys g n) (\<lambda>ks.
             Inr \<lparr>key_size_gen = g, key_count = n, keys = ks\<rparr>))"

definition uniform_get_key :: "key_gen \<Rightarrow> rand_env \<Rightarrow> (iovec \<times> rand_env) result" where
  "uniform_get_key kg e =
     (let (r, e') = env_rand e in
      if key_count kg = 0 then Inl DivByZero
      else (let k = nat (int r mod key_count kg) in
            if k < length (keys kg) then Inr (keys kg ! k, e') else Inl OutOfBounds))"

subsection \<open>Printed indices\<close>

lemma length_show_nat_le: "0 < w \<Longrightarrow> length (show_nat n) \<le> w \<longleftrightarrow> n < 10 ^ w"
proof (induction n arbitrary: w rule: show_nat.induct)
  case (1 n)
  show ?case
  proof (cases "n < 10")
    case True
    then have "n < 10 ^ w"
      using 1(2) by (metis One_nat_def Suc_leI less_le_trans one_le_numeral power_increasing power_one_right)
    then show ?thesis
      using True 1(2) by (subst show_nat.simps) simp
  next
    case False
    obtain v where w: "w = Suc v" using 1(2) by (cases w) auto
    show ?thesis
    proof (cases "v = 0")
      case True
      with False w show ?thesis by (subst show_nat.simps) simp
    next
      case v: False
      with False 1(1) [of v] w show ?thesis
        by (subst show_nat.simps) (auto simp: div_less_iff_less_mult mult.commute)
    qed
  qed
qed

lemma show_nat_times_10: "0 < m \<Longrightarrow> show_nat (m * 10) = show_nat m @ ''0''"
  by (subst show_nat.simps) (simp add: digit_char_code)

lemma show_nat_power_10: "show_nat (10 ^ k) = CHR ''1'' # replicate k (CHR ''0'')"
proof (induction k)
  case 0
  show ?case by (subst show_nat.simps) (simp add: digit_char_code)
next
  case (Suc k)
  have "show_nat (10 ^ k * 10) = show_nat (10 ^ k) @ ''0''"
    by (rule show_nat_times_10) simp
  with Suc show ?case
    by (simp add: mult.commute replicate_append_same)
qed

lemma dec_val_show_padded: "dec_val (show_padded w n) = n"
proof -
  have "foldl (\<lambda>a c. 10 * a + digit_val c) 0 (replicate k (CHR ''0'')) = 0" for k
    by (induction k) (simp_all add: digit_val_def)
  then show ?thesis
    by (simp add: dec_val_def show_padded_def foldl_show_nat)
qed

lemma length_show_padded: "0 < w \<Longrightarrow> n < 10 ^ w \<Longrightarrow> length (show_padded w n) = w"
  using length_show_nat_le [of w n] by (simp add: show_padded_def)

lemma show_padded_full: "show_nat n = s \<Longrightarrow> w \<le> length s \<Longrightarrow> show_padded w n = s"
  by (simp add: show_padded_def)

lemma le_length_show_padded: "w \<le> length (show_padded w n)"
  by (simp add: show_padded_def)

subsection \<open>The key array\<close>

text \<open>The key of index \<open>i\<close> at width \<open>w\<close>, as the server sees it.\<close>

definition key_bytes :: "nat \<Rightarrow> nat \<Rightarrow> bytes" where
  "key_bytes w i = take w (show_padded w i)"

lemma generate_keys_from_eq:
  assumes "\<forall>i \<in> set is. int i div n = 0"
    and "inv_cdf g 0 = Inr x" and "lround x = int w" and "w < 2 ^ 31 - 1"
  shows "generate_keys_from g n is = Inr (map (\<lambda>i. mk_iov (key_bytes w i @ [NUL]) w) is)"
  using assms(1)
proof (induction "is")
  case Nil
  show ?case by simp
next
  case (Cons i "is")
  have "int w < 2 ^ 31 - 1" using assms(4) by simp
  with Cons assms(2-3) show ?case
    by (simp add: generate_key_def Let_def key_bytes_def)
qed

text \<open>
  Because the quotient \<open>i / key_count\<close> is computed in integers, the size
  distribution is only ever evaluated at 0: all keys have the one size \<open>w\<close> it has there, and key
  \<open>i\<close> is \<open>i\<close> in decimal, padded with zeros to \<open>w\<close> characters and cut after \<open>w\<close>.
\<close>

theorem generated_keys_all_same_size:
  assumes "inv_cdf g 0 = Inr x" and "lround x = int w" and "w < 2 ^ 31 - 1"
  shows "generate_keys g (int n) = Inr (map (\<lambda>i. mk_iov (key_bytes w i @ [NUL]) w) [0..<n])"
  unfolding generate_keys_def
  by (subst generate_keys_from_eq [OF _ assms]) (simp_all add: zdiv_int [symmetric])

theorem generated_keys_all_same_size_witness:
  "generate_keys (fresh_gen\<lparr>inv_cdf_ptr := Some Fixed_inv_cdf, par_a := 4\<rparr>) (int 3) =
     Inr (map (\<lambda>i. mk_iov (key_bytes 4 i @ [NUL]) 4) [0..<3])"
proof -
  have "inv_cdf (fresh_gen\<lparr>inv_cdf_ptr := Some Fixed_inv_cdf, par_a := 4\<rparr>) 0 = Inr 4"
    by (simp add: inv_cdf_def fixed_inv_cdf_def)
  moreover have "lround 4 = int 4"
    using lround_of_int [of 4] by simp
  ultimately show ?thesis
    by (rule generated_keys_all_same_size) simp
qed

lemma inj_key_bytes:
  assumes "0 < w"
  shows "inj_on (key_bytes w) {..<10 ^ w}"
proof (rule inj_onI)
  fix i j assume "i \<in> {..<10 ^ w}" "j \<in> {..<10 ^ w}" and eq: "key_bytes w i = key_bytes w j"
  then have "show_padded w i = show_padded w j"
    using assms by (simp add: key_bytes_def length_show_padded)
  then show "i = j"
    by (metis dec_val_show_padded)
qed

lemma key_bytes_collision:
  assumes "0 < w"
  shows "key_bytes w (10 ^ w) = key_bytes w (10 ^ (w - 1))"
proof -
  obtain v where w: "w = Suc v" using assms by (cases w) auto
  have "take v (CHR ''0'' # replicate v (CHR ''0'')) = replicate v (CHR ''0'')"
    by (simp flip: replicate_Suc)
  then show ?thesis
    by (simp add: w key_bytes_def show_padded_full [OF show_nat_power_10] del: power_Suc)
qed

text \<open>
  The keys of a workload with keys of \<open>w\<close> characters are pairwise different exactly
  when there are at most \<open>10 ^ w\<close> of them; one more and the cut makes two indices share a key.
\<close>

theorem keys_distinct_iff:
  assumes "0 < w"
  shows "distinct (map (key_bytes w) [0..<n]) \<longleftrightarrow> n \<le> 10 ^ w"
proof
  assume "n \<le> 10 ^ w"
  then have "inj_on (key_bytes w) {0..<n}"
    by (intro inj_on_subset [OF inj_key_bytes [OF assms]]) auto
  then show "distinct (map (key_bytes w) [0..<n])"
    by (simp add: distinct_map)
next
  assume d: "distinct (map (key_bytes w) [0..<n])"
  show "n \<le> 10 ^ w"
  proof (rule ccontr)
    assume "\<not> n \<le> 10 ^ w"
    moreover have lt: "(10 :: nat) ^ (w - 1) < 10 ^ w"
      using assms by (intro power_strict_increasing) auto
    ultimately have "10 ^ w \<in> set [0..<n]" and "10 ^ (w - 1) \<in> set [0..<n]"
      unfolding set_upt atLeastLessThan_iff by linarith+
    moreover have "inj_on (key_bytes w) (set [0..<n])"
      using d by (simp add: distinct_map)
    ultimately have "(10 :: nat) ^ w = 10 ^ (w - 1)"
      using key_bytes_collision [OF assms] by (blast dest: inj_onD)
    with lt show False by linarith
  qed
qed

theorem keys_distinct_iff_witness:
  "distinct (map (key_bytes 1) [0..<11]) \<longleftrightarrow> (11 :: nat) \<le> 10 ^ 1"
  by (rule keys_distinct_iff) simp

end
