(* ===== verification/KV_Workload.thy ===== *)
theory KV_Workload
  imports Key_Gen
begin

section \<open>Key-value workloads (\<open>struct kv_info\<close> of \<open>inc/lancet/app_proto.h\<close>)\<close>

text \<open>
  What the three key-value protocols share: the workload record, its parsing from
  \<open><proto>_<key size>_<value size>_<key count>_<get ratio>_<selector>\<close> (the same statements stand
  in \<open>memcache_init\<close> and \<open>init_redis_kv\<close>), and the choice of a key, of the operation and of a
  value length at the head of every \<open>create_request\<close>.
\<close>

definition MAX_VAL_SIZE :: nat where
  "MAX_VAL_SIZE = 2 * 1024 * 1024"

definition random_char :: bytes where
  "random_char = replicate MAX_VAL_SIZE (CHR ''x'')"

record kv_info =
  kv_key :: key_gen
  kv_val_len :: rand_gen
  kv_key_sel :: rand_gen
  kv_get_ratio :: double

definition kv_get_key_count :: "kv_info \<Rightarrow> int" where
  "kv_get_key_count info = key_count (kv_key info)"

subsection \<open>Parsing\<close>

definition init_rand_ptr :: "string option \<Rightarrow> rand_gen option result" where
  "init_rand_ptr t = (case t of None \<Rightarrow> Inl NullDeref | Some s \<Rightarrow> init_rand s)"

definition assert_ptr :: "'a option \<Rightarrow> 'a result" where
  "assert_ptr t = (case t of None \<Rightarrow> Inl AssertFail | Some x \<Rightarrow> Inr x)"

definition atoi_ptr :: "string option \<Rightarrow> int result" where
  "atoi_ptr t = (case t of None \<Rightarrow> Inl NullDeref | Some s \<Rightarrow> atoi (cstr s))"

text \<open>\<open>sprintf(key_sel, "%s:%d\n", token, key_count)\<close> into an array of 64 bytes.\<close>

definition print_key_sel :: "string option \<Rightarrow> int \<Rightarrow> string result" where
  "print_key_sel t n =
     (case t of
        None \<Rightarrow> Inl NullDeref
      | Some s \<Rightarrow>
          (let out = s @ '':'' @ show_int n @ [LF]
           in if length out < 64 then Inr out else Inl OutOfBounds))"

definition parse_kv_info :: "string \<Rightarrow> kv_info result" where
  "parse_kv_info proto =
     (let (_, p) = strtok_r ''_'' proto; (key_dist, p) = strtok_r ''_'' p;
          (vd, p) = strtok_r ''_'' p
      in bindE (bindE (init_rand_ptr vd) assert_ptr) (\<lambda>val_len.
         let (kc, p) = strtok_r ''_'' p
         in bindE (atoi_ptr kc) (\<lambda>count.
            bindE (case key_dist of None \<Rightarrow> Inl NullDeref | Some kd \<Rightarrow> init_key_gen kd count) (\<lambda>kg.
            let (gr, p) = strtok_r ''_'' p
            in bindE (atof_ptr gr) (\<lambda>ratio.
               let (ks, p) = strtok_r ''_'' p
               in bindE (print_key_sel ks count) (\<lambda>sel.
                  bindE (bindE (init_rand sel) assert_ptr) (\<lambda>key_sel.
                  Inr \<lparr>kv_key = kg, kv_val_len = val_len, kv_key_sel = key_sel,
                       kv_get_ratio = ratio\<rparr>)))))))"

subsection \<open>Choosing a key, an operation and a value length\<close>

text \<open>The conversion of a \<open>double\<close> to \<open>int\<close>: undefined outside the type's range.\<close>

definition to_int :: "double \<Rightarrow> int result" where
  "to_int x = (let i = trunc x in if - (2 ^ 31) \<le> i \<and> i < 2 ^ 31 then Inr i else Inl ImplDefined)"

definition pick_key :: "kv_info \<Rightarrow> rand_env \<Rightarrow> (iovec \<times> rand_env) result" where
  "pick_key info e =
     bindE (generate (kv_key_sel info) e) (\<lambda>(v, e').
     bindE (to_int v) (\<lambda>key_idx.
       if 0 \<le> key_idx \<and> nat key_idx < length (keys (kv_key info))
       then Inr (keys (kv_key info) ! nat key_idx, e')
       else Inl OutOfBounds))"

text \<open>\<open>drand48() > info->get_ratio\<close> selects a write.\<close>

definition pick_write :: "kv_info \<Rightarrow> rand_env \<Rightarrow> bool \<times> rand_env" where
  "pick_write info e = (let (y, e') = env_drand48 e in (kv_get_ratio info < y, e'))"

definition pick_val_len :: "kv_info \<Rightarrow> rand_env \<Rightarrow> (int \<times> rand_env) result" where
  "pick_val_len info e =
     bindE (generate (kv_val_len info) e) (\<lambda>(v, e').
     let val_len = lround v
     in bindE (assertE (val_len \<le> int MAX_VAL_SIZE)) (\<lambda>_. Inr (val_len, e')))"

subsection \<open>Well-formed workloads\<close>

text \<open>
  What \<open>parse_kv_info\<close> establishes for a selector in range: as many keys as the selector can
  index, each a readable buffer.
\<close>

definition kv_wf :: "kv_info \<Rightarrow> bool" where
  "kv_wf info \<longleftrightarrow>
     list_all iov_ok (keys (kv_key info)) \<and>
     length (keys (kv_key info)) < 2 ^ 31 \<and>
     0 < length (keys (kv_key info)) \<and>
     generate_ptr (kv_key_sel info) \<in> {Some Uni_generate, Some Rr_generate} \<and>
     par_a (kv_key_sel info) = of_nat (length (keys (kv_key info)))"

lemma selector_generate_range:
  assumes "generate_ptr g = Some Uni_generate \<or> generate_ptr g = Some Rr_generate"
    and "par_a g = of_nat n" and "0 < n" and "n < 2 ^ 64"
  shows "\<exists>k e'. generate g e = Inr (of_nat k, e') \<and> k < n"
  using assms(1)
proof
  assume "generate_ptr g = Some Uni_generate"
  then show ?thesis
    using uni_generate_eq [OF assms(2-4), of e] assms(3)
    by (auto simp: generate_def intro: mod_less_divisor)
next
  assume "generate_ptr g = Some Rr_generate"
  then show ?thesis
    using rr_generate_eq [OF assms(2-4), of e] assms(3)
    by (auto simp: generate_def intro: mod_less_divisor)
qed

lemma to_int_of_nat: "n < 2 ^ 31 \<Longrightarrow> to_int (of_nat n) = Inr (int n)"
  using trunc_of_int [of "int n"] by (simp add: to_int_def)

lemma pick_key_wf:
  assumes "kv_wf info"
  shows "\<exists>k e'. pick_key info e = Inr (k, e') \<and> k \<in> set (keys (kv_key info)) \<and> iov_ok k"
proof -
  let ?n = "length (keys (kv_key info))"
  have n: "0 < ?n" "?n < 2 ^ 31" and ok: "\<forall>k \<in> set (keys (kv_key info)). iov_ok k"
    using assms by (simp_all add: kv_wf_def list_all_iff)
  have "?n < 2 ^ 64" using n(2) by (rule less_trans) simp
  then obtain i e' where g: "generate (kv_key_sel info) e = Inr (of_nat i, e')" and i: "i < ?n"
    using assms selector_generate_range [of "kv_key_sel info" ?n e] n(1)
    unfolding kv_wf_def by auto
  have "i < 2 ^ 31" using i n(2) by (rule less_trans)
  then have "pick_key info e = Inr (keys (kv_key info) ! i, e')"
    using g i by (simp add: pick_key_def to_int_of_nat del: of_nat_less_iff)
  with i ok show ?thesis by auto
qed

lemma pick_val_len_le:
  "pick_val_len info e = Inr (n, e') \<Longrightarrow> n \<le> int MAX_VAL_SIZE"
  by (auto simp: pick_val_len_def bindE_eq_Inr Let_def)

lemma length_random_char [simp]: "length random_char = MAX_VAL_SIZE"
  by (simp add: random_char_def)

lemma take_random_char [simp]:
  "n \<le> MAX_VAL_SIZE \<Longrightarrow> take n random_char = replicate n (CHR ''x'')"
  by (simp add: random_char_def min_def)

text \<open>The memory a workload's keys and values take stays within the protocol's fields.\<close>

definition kv_sizes_ok :: "kv_info \<Rightarrow> bool" where
  "kv_sizes_ok info \<longleftrightarrow>
     list_all (\<lambda>k. iov_len k < 2 ^ 16) (keys (kv_key info)) \<and>
     (\<forall>e n e'. pick_val_len info e = Inr (n, e') \<longrightarrow> 0 \<le> n)"

lemma pick_val_len_ok:
  assumes "kv_sizes_ok info" and "pick_val_len info e = Inr (n, e')"
  shows "\<exists>m. n = int m \<and> m \<le> MAX_VAL_SIZE \<and> size_of_int n = m"
proof -
  have "0 \<le> n" using assms unfolding kv_sizes_ok_def by blast
  then obtain m where m: "n = int m" by (cases n rule: int_cases2) auto
  moreover have "m \<le> MAX_VAL_SIZE" using pick_val_len_le [OF assms(2)] m by simp
  moreover from this have "size_of_int n = m"
    unfolding m by (intro size_of_int_of_nat) (simp add: MAX_VAL_SIZE_def)
  ultimately show ?thesis by blast
qed

text \<open>A workload of one key and three-byte values in which every operation is a write.\<close>

definition one_key_info :: "double \<Rightarrow> kv_info" where
  "one_key_info ratio =
     \<lparr>kv_key = \<lparr>key_size_gen = fresh_gen, key_count = 1, keys = [mk_iov ''k'' 1]\<rparr>,
      kv_val_len = fresh_gen\<lparr>inv_cdf_ptr := Some Fixed_inv_cdf, par_a := 3\<rparr>,
      kv_key_sel = fresh_gen\<lparr>generate_ptr := Some Rr_generate, par_a := 1\<rparr>,
      kv_get_ratio = ratio\<rparr>"

lemma one_key_wf: "kv_wf (one_key_info r)"
  by (simp add: kv_wf_def one_key_info_def fresh_gen_def)

lemma one_key_val_len: "pick_val_len (one_key_info r) e = Inr (3, snd (env_drand48 e))"
  by (simp add: pick_val_len_def one_key_info_def generate_def inv_cdf_def fixed_inv_cdf_def
      fresh_gen_def lround_def MAX_VAL_SIZE_def split: prod.splits)

lemma one_key_sizes_ok: "kv_sizes_ok (one_key_info r)"
  by (simp add: kv_sizes_ok_def one_key_val_len) (simp add: one_key_info_def)

lemma one_key_pick: "\<exists>e'. pick_key (one_key_info r) start_env = Inr (mk_iov ''k'' 1, e')"
  using pick_key_wf [OF one_key_wf, of r start_env] by (auto simp: one_key_info_def)

lemma one_key_write: "pick_write (one_key_info (- 1)) e = (True, snd (env_drand48 e))"
  using drand48_range [of "drand_x e"]
  by (cases "drand48 (drand_x e)") (simp add: pick_write_def one_key_info_def env_drand48_def)

end
