(* ===== verification/Response_Frames.thy ===== *)
theory Response_Frames
  imports Lancet_Types
begin

section \<open>The interface between transports and application protocols\<close>

text \<open>
  A transport hands the bytes it has buffered to \<open>consume_response\<close> of the application protocol
  (\<open>inc/lancet/app_proto.h\<close>, \<open>process_response\<close> in \<open>agents/agent.c\<close>), which answers how many
  bytes of complete responses it found at the front, and how many responses. What the transports
  rely on is stated here as two locales: \<open>framing\<close>, the laws of cutting the first complete
  message off a byte stream, and \<open>response_protocol\<close>, that a consumer counts exactly the frames
  of its input. The protocols' theories interpret them on the model's own functions.
\<close>

subsection \<open>Greedy framing\<close>

text \<open>
  \<open>frames f xs\<close> cuts complete messages off the front of \<open>xs\<close> while \<open>f\<close> finds one: the number of
  bytes cut and the number of messages.
\<close>

function frames :: "(bytes \<Rightarrow> nat) \<Rightarrow> bytes \<Rightarrow> nat \<times> nat" where
  "frames f xs =
     (if f xs = 0 \<or> length xs < f xs then (0, 0)
      else (case frames f (drop (f xs) xs) of (b, r) \<Rightarrow> (f xs + b, Suc r)))"
  by pat_completeness auto
termination
  by (relation "measure (\<lambda>(f, xs). length xs)") auto

declare frames.simps [simp del]

text \<open>Componentwise sums of such counts.\<close>

definition pair_add :: "nat \<times> nat \<Rightarrow> nat \<times> nat \<Rightarrow> nat \<times> nat" where
  "pair_add p q = (fst p + fst q, snd p + snd q)"

lemma pair_add_simps [simp]:
  "pair_add (a, b) (c, d) = (a + c, b + d)"
  "pair_add p (0, 0) = p" "pair_add (0, 0) p = p"
  by (simp_all add: pair_add_def)

lemma to_brp_pair_add [brp_simps]: "to_brp (pair_add p q) = to_brp p + to_brp q"
  by (simp add: to_brp_def pair_add_def plus_byte_req_pair_def)

locale framing =
  fixes frame :: "bytes \<Rightarrow> nat"
  assumes frame_le: "frame xs \<le> length xs"
    and frame_ext: "frame xs \<noteq> 0 \<Longrightarrow> frame (xs @ ys) = frame xs"
begin

lemma frame_Nil [simp]: "frame [] = 0"
  using frame_le [of "[]"] by simp

lemma frames_unfold:
  "frames frame xs =
     (if frame xs = 0 then (0, 0) else pair_add (frame xs, 1) (frames frame (drop (frame xs) xs)))"
  using frame_le [of xs] by (subst frames.simps) (auto split: prod.split)

lemma frames_none: "frame xs = 0 \<Longrightarrow> frames frame xs = (0, 0)"
  by (simp add: frames_unfold [of xs])

text \<open>
  The loop of a consumer: with \<open>b\<close> bytes left it ends if there is no complete message at their front, and goes on behind the
  message otherwise. \<open>Q\<close> is what the input is known to be, \<open>R\<close> the form of the result.
\<close>

lemma loop_counts:
  assumes "length xs = n"
    and stop: "\<And>b res. b \<le> n \<Longrightarrow> Q (drop (n - b) xs) \<Longrightarrow> frame (drop (n - b) xs) = 0 \<Longrightarrow> L b res = R res"
    and next_frame: "\<And>b res k. b \<le> n \<Longrightarrow> Q (drop (n - b) xs) \<Longrightarrow> frame (drop (n - b) xs) = k \<Longrightarrow> 0 < k \<Longrightarrow> k \<le> b \<Longrightarrow>
      L b res = L (b - k) (res + BRP (of_nat k) 1) \<and> Q (drop k (drop (n - b) xs))"
  shows "b \<le> n \<Longrightarrow> Q (drop (n - b) xs) \<Longrightarrow> L b res = R (res + to_brp (frames frame (drop (n - b) xs)))"
proof (induction b arbitrary: res rule: less_induct)
  case (less b)
  let ?d = "drop (n - b) xs" and ?k = "frame (drop (n - b) xs)"
  show ?case
  proof (cases "?k = 0")
    case True
    with stop [OF less.prems] frames_none [of ?d] show ?thesis by simp
  next
    case False
    have kb: "?k \<le> b" using frame_le [of ?d] less.prems(1) assms(1) by simp
    from next_frame [OF less.prems refl _ kb] False have
      L: "L b res = L (b - ?k) (res + BRP (of_nat ?k) 1)" and Q: "Q (drop ?k ?d)" by simp_all
    have d: "drop ?k ?d = drop (n - (b - ?k)) xs" using kb less.prems(1) by (simp add: add.commute)
    have "frames frame ?d = pair_add (?k, 1) (frames frame (drop (n - (b - ?k)) xs))"
      using False by (subst frames_unfold) (simp add: d [symmetric])
    moreover have "L (b - ?k) (res + BRP (of_nat ?k) 1) =
        R (res + BRP (of_nat ?k) 1 + to_brp (frames frame (drop (n - (b - ?k)) xs)))"
      using less.prems(1) False kb Q unfolding d by (intro less.IH) auto
    moreover have "BRP (of_nat ?k) 1 = to_brp (?k, 1)" by (simp add: to_brp_def)
    ultimately show ?thesis using L by (simp add: to_brp_pair_add add.assoc)
  qed
qed

lemma frames_induct [case_names step]:
  assumes "\<And>xs. (frame xs \<noteq> 0 \<Longrightarrow> P (drop (frame xs) xs)) \<Longrightarrow> P xs"
  shows "P xs"
proof (induction xs rule: length_induct)
  case (1 xs)
  show ?case
  proof (rule assms)
    assume "frame xs \<noteq> 0"
    then have "length (drop (frame xs) xs) < length xs"
      using frame_le [of xs] by simp
    with 1 show "P (drop (frame xs) xs)" by blast
  qed
qed

lemma frames_bytes_le: "fst (frames frame xs) \<le> length xs"
proof (induction xs rule: frames_induct)
  case (step xs)
  then show ?case
    using frame_le [of xs] by (subst frames_unfold) (auto simp: pair_add_def)
qed

lemma frames_count_le: "snd (frames frame xs) \<le> fst (frames frame xs)"
proof (induction xs rule: frames_induct)
  case (step xs)
  then show ?case
    by (subst (1 2) frames_unfold) (auto simp: pair_add_def)
qed

lemma frames_bytes_0_iff: "fst (frames frame xs) = 0 \<longleftrightarrow> frame xs = 0"
  by (subst frames_unfold) (simp add: pair_add_def)

lemma frames_count_0_iff: "snd (frames frame xs) = 0 \<longleftrightarrow> frame xs = 0"
  by (subst frames_unfold) (simp add: pair_add_def)

text \<open>
  The law transports need: more bytes never change what was already cut, so counting the front
  now and the rest later gives the same total as counting everything at once.
\<close>

lemma frames_append:
  "frames frame (xs @ ys) =
     pair_add (frames frame xs) (frames frame (drop (fst (frames frame xs)) xs @ ys))"
proof (induction xs rule: frames_induct)
  case (step xs)
  show ?case
  proof (cases "frame xs = 0")
    case True
    then show ?thesis by (simp add: frames_unfold [of xs])
  next
    case False
    let ?r = "drop (frame xs) xs"
    have "frames frame (xs @ ys) = pair_add (frame xs, 1) (frames frame (?r @ ys))"
      using False frame_le [of xs] by (subst frames_unfold) (simp add: frame_ext)
    also have "\<dots> = pair_add (pair_add (frame xs, 1) (frames frame ?r))
        (frames frame (drop (fst (frames frame ?r)) ?r @ ys))"
      using step [OF False] by (simp add: pair_add_def)
    finally show ?thesis
      using False by (simp add: frames_unfold [of xs] pair_add_def add.commute)
  qed
qed

lemma frames_rest: "frame (drop (fst (frames frame xs)) xs) = 0"
proof (induction xs rule: frames_induct)
  case (step xs)
  then show ?case
    by (subst frames_unfold) (auto simp: pair_add_def add.commute)
qed

lemma frames_message:
  "frame m = length m \<Longrightarrow> m \<noteq> [] \<Longrightarrow>
   frames frame (m @ xs) = pair_add (length m, 1) (frames frame xs)"
  by (subst frames_unfold) (simp add: frame_ext)

lemma frames_messages:
  "\<forall>m \<in> set ms. m \<noteq> [] \<and> frame m = length m \<Longrightarrow>
   frames frame (concat ms) = (length (concat ms), length ms)"
  by (induction ms) (simp_all add: frames_message frames_unfold [of "[]"])

end

subsection \<open>Consumers\<close>

text \<open>
  A consumer is correct on the streams of a set \<open>valid\<close> (what a well-behaved server sends) that
  is closed under prefixes and under cutting off a frame.
\<close>

locale response_protocol = framing frame
  for frame :: "bytes \<Rightarrow> nat" +
  fixes consume :: "iovec \<Rightarrow> byte_req_pair result"
    and valid :: "bytes \<Rightarrow> bool"
  assumes valid_prefix: "valid (xs @ ys) \<Longrightarrow> valid xs"
    and valid_drop: "valid xs \<Longrightarrow> frame xs \<noteq> 0 \<Longrightarrow> valid (drop (frame xs) xs)"
    and consume_frames: "iov_ok v \<Longrightarrow> iov_len v < 2 ^ 31 \<Longrightarrow> valid (iov_data v) \<Longrightarrow>
      consume v = Inr (to_brp (frames frame (iov_data v)))"
begin

lemma valid_drop_frames: "valid xs \<Longrightarrow> valid (drop (fst (frames frame xs)) xs)"
proof (induction xs rule: frames_induct)
  case (step xs)
  show ?case
  proof (cases "frame xs = 0")
    case True
    with step.prems show ?thesis by (subst frames_unfold) simp
  next
    case False
    then have "valid (drop (fst (frames frame (drop (frame xs) xs))) (drop (frame xs) xs))"
      using step valid_drop by blast
    with False show ?thesis
      by (subst frames_unfold) (simp add: pair_add_def add.commute)
  qed
qed

lemma consume_bounds:
  assumes "iov_ok v" and "iov_len v < 2 ^ 31" and "valid (iov_data v)"
  shows "\<exists>p. consume v = Inr p \<and> unat (brp_bytes p) \<le> iov_len v \<and>
    unat (brp_reqs p) \<le> unat (brp_bytes p) \<and> (brp_bytes p = 0 \<longleftrightarrow> brp_reqs p = 0)"
proof -
  let ?f = "frames frame (iov_data v)"
  have b: "fst ?f \<le> iov_len v"
    using frames_bytes_le [of "iov_data v"] assms(1) by simp
  have c: "snd ?f \<le> fst ?f"
    by (rule frames_count_le)
  have ub: "unat (of_nat (fst ?f) :: u64) = fst ?f" and ur: "unat (of_nat (snd ?f) :: u64) = snd ?f"
    using b c assms(2) by (simp_all add: unat_of_nat_id)
  have "(of_nat (fst ?f) :: u64) = 0 \<longleftrightarrow> (of_nat (snd ?f) :: u64) = 0"
    using ub ur frames_bytes_0_iff [of "iov_data v"] frames_count_0_iff [of "iov_data v"]
    by (metis unat_0 unat_eq_zero)
  with b c ub ur show ?thesis
    by (simp add: consume_frames [OF assms])
qed

end

end
