(* ===== verification/Memcache.thy ===== *)
theory Memcache
  imports KV_Workload Response_Frames
begin

section \<open>The memcached protocols (\<open>agents/memcache.c\<close>, \<open>inc/lancet/memcache_bin.h\<close>)\<close>

text \<open>
  Both variants of the memcached client: the consumers that count responses at the front of the
  connection buffer, and the request builders. The binary consumer is shown to count exactly the
  frames of the protocol; the ASCII one does so only while no bytes of an earlier response are
  left behind the received data.
\<close>

subsection \<open>ASCII responses\<close>

text \<open>
  \<open>strchnth(s, c, occ)\<close>: the offset of the \<open>occ\<close>-th \<open>c\<close> (\<open>occ = 0\<close> would be a pointer before
  the object; the program never asks for it).
\<close>

fun strchnth :: "bytes \<Rightarrow> char \<Rightarrow> nat \<Rightarrow> nat option result" where
  "strchnth s c 0 = Inl OutOfBounds"
| "strchnth s c (Suc n) =
     bindE (strchr s c) (\<lambda>r.
       case r of
         None \<Rightarrow> Inr None
       | Some k \<Rightarrow>
           if n = 0 then Inr (Some k)
           else bindE (strchnth (drop (Suc k) s) c n) (\<lambda>r'. Inr (map_option ((+) (Suc k)) r')))"

abbreviation END_CRLF :: bytes where "END_CRLF \<equiv> ''END'' @ CRLF"
abbreviation STORED_CRLF :: bytes where "STORED_CRLF \<equiv> ''STORED'' @ CRLF"

function memcache_ascii_loop :: "iovec \<Rightarrow> int \<Rightarrow> byte_req_pair \<Rightarrow> byte_req_pair result" where
  "memcache_ascii_loop resp bytes_to_process res =
     (if bytes_to_process = 0 then Inr res
      else if bytes_to_process < 5 then Inr res
      else
        let buf = drop (nat (int (iov_len resp) - bytes_to_process)) (iov_base resp) in
        bindE (strncmp_eq buf END_CRLF 5) (\<lambda>is_end.
          if is_end then memcache_ascii_loop resp (bytes_to_process - 5) (res + BRP 5 1)
          else if bytes_to_process < 8 then Inr res
          else bindE (strncmp_eq buf STORED_CRLF 8) (\<lambda>is_stored.
            if is_stored then memcache_ascii_loop resp (bytes_to_process - 8) (res + BRP 8 1)
            else bindE (strchnth buf LF 3) (\<lambda>ptr.
              case ptr of
                None \<Rightarrow> Inr res
              | Some p \<Rightarrow>
                  let get_rep_size = int p + 1 in
                  memcache_ascii_loop resp (bytes_to_process - get_rep_size)
                    (res + BRP (of_int get_rep_size) 1)))))"
  by pat_completeness auto
termination
  by (relation "measure (\<lambda>(resp, b, res). nat b)") auto

declare memcache_ascii_loop.simps [simp del]

text \<open>
  The declared length is first converted to \<open>int\<close>; a length that does not fit (no transport
  passes one on a connection) is left to the implementation by the standard.
\<close>

definition memcache_ascii_consume_response :: "iovec \<Rightarrow> byte_req_pair result" where
  "memcache_ascii_consume_response resp =
     (if 2 ^ 31 \<le> iov_len resp then Inl ImplDefined
      else memcache_ascii_loop resp (int (iov_len resp)) 0)"

subsection \<open>Binary responses\<close>

text \<open>\<open>struct bmc_header\<close> as it lies in memory: its multi-byte fields are loaded little-endian.\<close>

record bmc_header =
  magic :: u8
  opcode :: u8
  key_len :: u16
  extra_len :: u8
  data_type :: u8
  vbucket :: u16
  body_len :: u32
  opaque :: u32
  version :: u64

definition zero_bmc_header :: bmc_header where
  "zero_bmc_header = \<lparr>magic = 0, opcode = 0, key_len = 0, extra_len = 0, data_type = 0,
     vbucket = 0, body_len = 0, opaque = 0, version = 0\<rparr>"

definition load_bmc_header :: "bytes \<Rightarrow> bmc_header result" where
  "load_bmc_header p =
     (if length p < 24 then Inl OutOfBounds
      else Inr \<lparr>magic = of_char (p ! 0), opcode = of_char (p ! 1), key_len = load16 (drop 2 p),
                extra_len = of_char (p ! 4), data_type = of_char (p ! 5),
                vbucket = load16 (drop 6 p), body_len = load32 (drop 8 p),
                opaque = load32 (drop 12 p), version = load64 (drop 16 p)\<rparr>)"

definition store_bmc_header :: "bmc_header \<Rightarrow> bytes" where
  "store_bmc_header h =
     le_bytes 1 (unat (magic h)) @ le_bytes 1 (unat (opcode h)) @ store16 (key_len h) @
     le_bytes 1 (unat (extra_len h)) @ le_bytes 1 (unat (data_type h)) @ store16 (vbucket h) @
     store32 (body_len h) @ store32 (opaque h) @ store64 (version h)"

datatype bin_state = WAIT_FOR_HEADER | WAIT_FOR_BODY | FINISHED

fun bin_rank :: "bin_state \<Rightarrow> nat" where
  "bin_rank WAIT_FOR_HEADER = 2"
| "bin_rank WAIT_FOR_BODY = 1"
| "bin_rank FINISHED = 0"

text \<open>
  The loop of the consumer; \<open>body_len\<close> is the local the header state writes. The comparisons
  with \<open>sizeof(struct bmc_header)\<close> are unsigned, on values that are never negative here.
\<close>

function memcache_bin_loop ::
  "iovec \<Rightarrow> bin_state \<Rightarrow> nat \<Rightarrow> nat \<Rightarrow> byte_req_pair \<Rightarrow> byte_req_pair result" where
  "memcache_bin_loop resp state bytes_to_process blen res =
     (if bytes_to_process = 0 then Inr res
      else case state of
        WAIT_FOR_HEADER \<Rightarrow>
          if bytes_to_process < 24 then Inr res
          else bindE (load_bmc_header (drop (iov_len resp - bytes_to_process) (iov_base resp))) (\<lambda>h.
            memcache_bin_loop resp WAIT_FOR_BODY bytes_to_process (unat (ntohl (body_len h))) res)
      | WAIT_FOR_BODY \<Rightarrow>
          if bytes_to_process < blen + 24 then Inr res
          else memcache_bin_loop resp FINISHED bytes_to_process blen res
      | FINISHED \<Rightarrow>
          memcache_bin_loop resp WAIT_FOR_HEADER (bytes_to_process - (blen + 24)) blen
            (res + BRP (of_nat (24 + blen)) 1))"
  by pat_completeness auto
termination
  by (relation "measure (\<lambda>(resp, state, b, blen, res). 3 * b + bin_rank state)") auto

declare memcache_bin_loop.simps [simp del]

definition memcache_bin_consume_response :: "iovec \<Rightarrow> byte_req_pair result" where
  "memcache_bin_consume_response resp =
     (if 2 ^ 31 \<le> iov_len resp then Inl ImplDefined
      else memcache_bin_loop resp WAIT_FOR_HEADER (iov_len resp) 0 0)"

subsection \<open>Requests\<close>

definition memcache_ascii_create_request ::
  "kv_info \<Rightarrow> rand_env \<Rightarrow> request \<Rightarrow> (request \<times> rand_env) result" where
  "memcache_ascii_create_request info e req =
     bindE (pick_key info e) (\<lambda>(key, e).
     let (write, e) = pick_write info e in
     if write then
       bindE (pick_val_len info e) (\<lambda>(val_len, e).
       let val_len_str = show_int val_len in
       Inr (req\<lparr>iovs := [mk_iov (''set '' @ [NUL]) 4, key, mk_iov ('' 0 0 '' @ [NUL]) 5,
                  mk_iov (cstr val_len_str) (length val_len_str), mk_iov (CRLF @ [NUL]) 2,
                  mk_iov random_char (size_of_int val_len), mk_iov (CRLF @ [NUL]) 2],
                iov_cnt := 7\<rparr>, e))
     else
       Inr (req\<lparr>iovs := [mk_iov (''get '' @ [NUL]) 4, key, mk_iov (CRLF @ [NUL]) 2],
                iov_cnt := 3\<rparr>, e))"

definition CMD_GETK :: u8 where "CMD_GETK = 0x0c"
definition CMD_SET :: u8 where "CMD_SET = 0x01"

definition memcache_bin_create_request ::
  "kv_info \<Rightarrow> rand_env \<Rightarrow> request \<Rightarrow> (request \<times> rand_env) result" where
  "memcache_bin_create_request info e req =
     bindE (pick_key info e) (\<lambda>(key, e).
     let header = zero_bmc_header\<lparr>magic := 0x80, key_len := htons (of_nat (iov_len key)),
                    data_type := 0, vbucket := 0\<rparr>;
         (write, e) = pick_write info e in
     if write then
       bindE (pick_val_len info e) (\<lambda>(val_len, e).
       let header = header\<lparr>opcode := CMD_SET, extra_len := 8,
             body_len := htonl (of_nat (iov_len key + size_of_int val_len + 8))\<rparr> in
       Inr (req\<lparr>iovs := [mk_iov (store_bmc_header header) 24, mk_iov (store64 0) 8, key,
                  mk_iov random_char (size_of_int val_len)],
                iov_cnt := 4\<rparr>, e))
     else
       let header = header\<lparr>opcode := CMD_GETK, extra_len := 0,
             body_len := htonl (of_nat (iov_len key))\<rparr> in
       Inr (req\<lparr>iovs := [mk_iov (store_bmc_header header) 24, key], iov_cnt := 2\<rparr>, e))"

subsection \<open>Initialisation\<close>

datatype memcache_variant = MEMCACHED_BIN | MEMCACHED_ASCII

text \<open>
  After the first \<open>strtok_r\<close> the string ends at the first underscore, so the variant is read
  off the first token. The return value -1 of an unknown variant is \<open>Inr None\<close>.
\<close>

definition memcache_init :: "string \<Rightarrow> (memcache_variant \<times> kv_info) option result" where
  "memcache_init proto =
     bindE (assertE (has_prefix proto ''memcache-'')) (\<lambda>_.
     bindE (parse_kv_info proto) (\<lambda>data.
     let name = takeWhile (\<lambda>c. c \<noteq> CHR ''_'') proto in
     if has_prefix name ''memcache-bin'' then Inr (Some (MEMCACHED_BIN, data))
     else if has_prefix name ''memcache-ascii'' then Inr (Some (MEMCACHED_ASCII, data))
     else Inr None))"

subsection \<open>The binary consumer counts frames\<close>

text \<open>One binary message: 24 bytes of header and as many more as its big-endian body length says.\<close>

definition mb_frame :: "bytes \<Rightarrow> nat" where
  "mb_frame xs =
     (if length xs < 24 then 0
      else let n = 24 + be_val (take 4 (drop 8 xs)) in if length xs < n then 0 else n)"

lemma mb_frame_le: "mb_frame xs \<le> length xs"
  by (simp add: mb_frame_def Let_def)

lemma mb_frame_ext: "mb_frame xs \<noteq> 0 \<Longrightarrow> mb_frame (xs @ ys) = mb_frame xs"
  by (auto simp: mb_frame_def Let_def split: if_splits)

lemma load32_take: "load32 (take 4 bs) = load32 bs"
  by (simp add: load32_def)

lemma body_len_at:
  assumes "24 \<le> length p"
  shows "\<exists>h. load_bmc_header p = Inr h \<and> unat (ntohl (body_len h)) = be_val (take 4 (drop 8 p))"
proof -
  have "length (take 4 (drop 8 p)) = 4" using assms by simp
  then have "unat (ntohl (load32 (drop 8 p))) = be_val (take 4 (drop 8 p))"
    using unat_ntohl_load32 by (metis load32_take)
  then show ?thesis using assms by (simp add: load_bmc_header_def)
qed

lemma window_data:
  assumes "iov_ok v" and "b \<le> iov_len v" and "k + n \<le> b"
  shows "take n (drop k (drop (iov_len v - b) (iov_base v))) =
    take n (drop k (drop (iov_len v - b) (iov_data v)))"
proof -
  have "n + (k + (iov_len v - b)) \<le> iov_len v" using assms by linarith
  then show ?thesis by (simp add: iov_data_def drop_take min_def)
qed

interpretation mb_f: framing mb_frame
  by unfold_locales (simp_all add: mb_frame_le mb_frame_ext)

text \<open>The loop at the start of a message, with \<open>b\<close> bytes left.\<close>

lemma memcache_bin_loop_step:
  assumes "iov_ok v" and "b \<le> iov_len v"
  shows "memcache_bin_loop v WAIT_FOR_HEADER b blen res =
    (let k = mb_frame (drop (iov_len v - b) (iov_data v)) in
     if k = 0 then Inr res else memcache_bin_loop v WAIT_FOR_HEADER (b - k) (k - 24) (res + BRP (of_nat k) 1))"
proof (cases "b < 24")
  case True
  then show ?thesis
    using assms by (subst memcache_bin_loop.simps) (simp add: mb_frame_def)
next
  case False
  let ?d = "drop (iov_len v - b) (iov_data v)" and ?p = "drop (iov_len v - b) (iov_base v)"
  let ?n = "be_val (take 4 (drop 8 ?d))"
  have "b \<le> length ?p" using assms by (simp add: iov_ok_def)
  with False obtain h where h: "load_bmc_header ?p = Inr h"
    and bl: "unat (ntohl (body_len h)) = be_val (take 4 (drop 8 ?p))"
    using body_len_at [of ?p] by auto
  have "take 4 (drop 8 ?p) = take 4 (drop 8 ?d)"
    using window_data [OF assms, of 8 4] False by simp
  with bl have n: "unat (ntohl (body_len h)) = ?n" by simp
  have "memcache_bin_loop v WAIT_FOR_HEADER b blen res = memcache_bin_loop v WAIT_FOR_BODY b ?n res"
    using False h n by (subst memcache_bin_loop.simps) simp
  moreover have "mb_frame ?d = (if b < ?n + 24 then 0 else ?n + 24)"
    unfolding mb_frame_def using assms False by simp
  moreover have "memcache_bin_loop v WAIT_FOR_BODY b ?n res =
      (if b < ?n + 24 then Inr res else memcache_bin_loop v FINISHED b ?n res)"
    using False by (subst memcache_bin_loop.simps) simp
  moreover have "memcache_bin_loop v FINISHED b ?n res =
      memcache_bin_loop v WAIT_FOR_HEADER (b - (?n + 24)) ?n (res + BRP (of_nat (?n + 24)) 1)"
    using False by (subst memcache_bin_loop.simps) (simp add: add.commute)
  ultimately show ?thesis by (cases "b < ?n + 24") simp_all
qed

lemma memcache_bin_loop_frames:
  assumes "iov_ok v" and "b \<le> iov_len v"
  shows "memcache_bin_loop v WAIT_FOR_HEADER b blen res =
    Inr (res + to_brp (frames mb_frame (drop (iov_len v - b) (iov_data v))))"
proof -
  let ?L = "\<lambda>b. memcache_bin_loop v WAIT_FOR_HEADER b 0"
  have any: "memcache_bin_loop v WAIT_FOR_HEADER b x res = ?L b res" if "b \<le> iov_len v" for b x res
    using memcache_bin_loop_step [OF assms(1) that] by simp
  have "?L b res = Inr (res + to_brp (frames mb_frame (drop (iov_len v - b) (iov_data v))))"
  proof (rule mb_f.loop_counts [where Q = "\<lambda>_. True" and L = ?L and R = Inr])
    fix b res k assume "b \<le> iov_len v" "mb_frame (drop (iov_len v - b) (iov_data v)) = k" "0 < k"
    then show "?L b res = ?L (b - k) (res + BRP (of_nat k) 1) \<and> True"
      using memcache_bin_loop_step [OF assms(1), of b 0 res] any [of "b - k" "k - 24"] by simp
  qed (use assms memcache_bin_loop_step [OF assms(1)] in simp_all)
  then show ?thesis by (simp only: any [OF assms(2), of blen])
qed

interpretation mb: response_protocol mb_frame memcache_bin_consume_response "\<lambda>_. True"
proof unfold_locales
  fix v :: iovec assume "iov_ok v" and "iov_len v < 2 ^ 31"
  then show "memcache_bin_consume_response v = Inr (to_brp (frames mb_frame (iov_data v)))"
    using memcache_bin_loop_frames [of v "iov_len v" 0 0]
    by (simp add: memcache_bin_consume_response_def)
qed (simp_all add: mb_frame_le mb_frame_ext)

text \<open>
  Whatever the received bytes are, the binary consumer returns (its loop ends and
  reads nothing outside the buffer) and reports exactly the complete messages at the front of the
  buffer and their total length.
\<close>

theorem memcache_bin_counts_frames:
  assumes "iov_ok resp" and "iov_len resp < 2 ^ 31"
  shows "memcache_bin_consume_response resp = Inr (to_brp (frames mb_frame (iov_data resp)))"
  using assms by (rule mb.consume_frames) simp

theorem memcache_bin_counts_frames_witness:
  "memcache_bin_consume_response (mk_iov (store_bmc_header zero_bmc_header @ [NUL]) 25) =
     Inr (to_brp (frames mb_frame (iov_data (mk_iov (store_bmc_header zero_bmc_header @ [NUL]) 25))))"
  by (rule memcache_bin_counts_frames) (simp_all add: store_bmc_header_def)

subsection \<open>The ASCII consumer counts frames when nothing lies behind the data\<close>

fun nth_index :: "'a \<Rightarrow> nat \<Rightarrow> 'a list \<Rightarrow> nat option" where
  "nth_index x 0 xs = None"
| "nth_index x (Suc n) xs =
     (case index_of x xs of
        None \<Rightarrow> None
      | Some k \<Rightarrow> if n = 0 then Some k else map_option ((+) (Suc k)) (nth_index x n (drop (Suc k) xs)))"

lemma nth_index_append: "nth_index x n xs = Some k \<Longrightarrow> nth_index x n (xs @ ys) = Some k"
proof (induction n arbitrary: xs k)
  case 0
  then show ?case by simp
next
  case (Suc n)
  then obtain i where i: "index_of x xs = Some i"
    by (auto split: option.splits)
  then have "i < length xs" by (blast dest: index_of_SomeD)
  with Suc i index_of_append1 [OF i, of ys] show ?case
    by (auto split: if_splits)
qed

lemma nth_index_less: "nth_index x n xs = Some k \<Longrightarrow> k < length xs"
proof (induction n arbitrary: xs k)
  case 0
  then show ?case by simp
next
  case (Suc n)
  then obtain i where i: "index_of x xs = Some i"
    by (auto split: option.splits)
  then have "i < length xs" by (blast dest: index_of_SomeD)
  moreover have "j < length xs - Suc i" if "nth_index x n (drop (Suc i) xs) = Some j" for j
    using Suc.IH [OF that] by simp
  ultimately show ?case
    using Suc.prems i by (fastforce split: if_splits)
qed

lemma strchnth_nth_index:
  "NUL \<notin> set s \<Longrightarrow> c \<noteq> NUL \<Longrightarrow> 0 < n \<Longrightarrow>
   strchnth (s @ NUL # rest) c n = Inr (nth_index c n s)"
proof (induction n arbitrary: s)
  case 0
  then show ?case by simp
next
  case (Suc n)
  show ?case
  proof (cases "index_of c s")
    case None
    with Suc.prems show ?thesis by (simp add: strchr_index_of)
  next
    case (Some k)
    then have "k < length s" by (blast dest: index_of_SomeD)
    moreover have "NUL \<notin> set (drop (Suc k) s)"
      using Suc.prems(1) by (auto dest: in_set_dropD)
    ultimately show ?thesis
      using Suc Some by (simp add: strchr_index_of)
  qed
qed

text \<open>One ASCII message: \<open>END\<close>, \<open>STORED\<close>, or three lines.\<close>

definition ascii_frame :: "bytes \<Rightarrow> nat" where
  "ascii_frame xs =
     (if length xs < 5 then 0
      else if take 5 xs = END_CRLF then 5
      else if length xs < 8 then 0
      else if take 8 xs = STORED_CRLF then 8
      else case nth_index LF 3 xs of None \<Rightarrow> 0 | Some k \<Rightarrow> Suc k)"

lemma ascii_frame_le: "ascii_frame xs \<le> length xs"
  using nth_index_less [of LF 3 xs] by (auto simp: ascii_frame_def Suc_le_eq split: option.split)

lemma ascii_frame_ext: "ascii_frame xs \<noteq> 0 \<Longrightarrow> ascii_frame (xs @ ys) = ascii_frame xs"
  using nth_index_append [of LF 3 xs _ ys]
  by (auto simp: ascii_frame_def simp del: nth_index.simps split: option.splits if_splits)

interpretation ascii: framing ascii_frame
  by unfold_locales (simp_all add: ascii_frame_le ascii_frame_ext)

text \<open>
  The connection buffer is clean when the received bytes hold no NUL and a NUL follows them, as
  in a buffer that was zeroed and never held more than it does now.
\<close>

definition clean_buffer :: "iovec \<Rightarrow> bool" where
  "clean_buffer v \<longleftrightarrow>
     NUL \<notin> set (iov_data v) \<and> iov_len v < length (iov_base v) \<and> iov_base v ! iov_len v = NUL"

lemma clean_buffer_split:
  assumes "clean_buffer v" and "k \<le> iov_len v"
  shows "\<exists>rest. drop k (iov_base v) = drop k (iov_data v) @ NUL # rest \<and> NUL \<notin> set (drop k (iov_data v))"
proof -
  have "iov_base v = iov_data v @ NUL # drop (Suc (iov_len v)) (iov_base v)"
    using assms(1) unfolding clean_buffer_def iov_data_def by (metis id_take_nth_drop)
  then have "drop k (iov_base v) = drop k (iov_data v) @ NUL # drop (Suc (iov_len v)) (iov_base v)"
    using assms by (metis clean_buffer_def drop_append_le iov_data_def length_take less_imp_le min.absorb2)
  then show ?thesis
    using assms(1) by (auto simp: clean_buffer_def dest: in_set_dropD)
qed

lemma ascii_match:
  assumes "clean_buffer v" and "b \<le> iov_len v" and "n \<le> b" and "n \<le> length lit" and "NUL \<notin> set (take n lit)"
  shows "strncmp_eq (drop (iov_len v - b) (iov_base v)) lit n = Inr (take n (drop (iov_len v - b) (iov_data v)) = take n lit)"
proof -
  have "iov_ok v" using assms(1) by (simp add: clean_buffer_def iov_ok_def)
  moreover obtain rest where "drop (iov_len v - b) (iov_base v) = drop (iov_len v - b) (iov_data v) @ NUL # rest"
    and "NUL \<notin> set (drop (iov_len v - b) (iov_data v))"
    using clean_buffer_split [OF assms(1), of "iov_len v - b"] by auto
  ultimately show ?thesis using assms(2-) by (simp add: strncmp_eq_prefix)
qed

text \<open>The loop with \<open>b\<close> bytes left.\<close>

lemma memcache_ascii_loop_step:
  assumes "clean_buffer v" and "b \<le> iov_len v"
  shows "memcache_ascii_loop v (int b) res =
    (let k = ascii_frame (drop (iov_len v - b) (iov_data v)) in
     if k = 0 then Inr res else memcache_ascii_loop v (int b - int k) (res + BRP (of_nat k) 1))"
proof -
  let ?d = "drop (iov_len v - b) (iov_data v)" and ?p = "drop (iov_len v - b) (iov_base v)"
  have len: "length ?d = b" using assms by (simp add: clean_buffer_def iov_ok_def)
  have idx: "nat (int (iov_len v) - int b) = iov_len v - b" using assms(2) by linarith
  note cmp = ascii_match [OF assms]
  consider "b < 5" | "5 \<le> b" "take 5 ?d = END_CRLF" | "5 \<le> b" "take 5 ?d \<noteq> END_CRLF" "b < 8"
    | "8 \<le> b" "take 5 ?d \<noteq> END_CRLF" "take 8 ?d = STORED_CRLF"
    | "8 \<le> b" "take 5 ?d \<noteq> END_CRLF" "take 8 ?d \<noteq> STORED_CRLF"
    by linarith
  then show ?thesis
  proof cases
    case 1
    with len show ?thesis by (subst memcache_ascii_loop.simps) (simp add: ascii_frame_def)
  next
    case 2
    with len cmp [of 5 END_CRLF] show ?thesis
      by (subst memcache_ascii_loop.simps) (simp add: idx ascii_frame_def)
  next
    case 3
    with len cmp [of 5 END_CRLF] show ?thesis
      by (subst memcache_ascii_loop.simps) (simp add: idx ascii_frame_def)
  next
    case 4
    with len cmp [of 5 END_CRLF] cmp [of 8 STORED_CRLF] show ?thesis
      by (subst memcache_ascii_loop.simps) (simp add: idx ascii_frame_def)
  next
    case 5
    have "strchnth ?p LF 3 = Inr (nth_index LF 3 ?d)"
      using clean_buffer_split [OF assms(1), of "iov_len v - b"] strchnth_nth_index by fastforce
    moreover have "ascii_frame ?d = (case nth_index LF 3 ?d of None \<Rightarrow> 0 | Some k \<Rightarrow> Suc k)"
      using 5 len by (simp add: ascii_frame_def del: nth_index.simps)
    ultimately show ?thesis
      using 5 cmp [of 5 END_CRLF] cmp [of 8 STORED_CRLF]
      by (subst memcache_ascii_loop.simps)
        (simp add: idx add.commute del: nth_index.simps strchnth.simps split: option.split)
  qed
qed

lemma memcache_ascii_loop_frames:
  assumes "clean_buffer v" and "b \<le> iov_len v"
  shows "memcache_ascii_loop v (int b) res =
    Inr (res + to_brp (frames ascii_frame (drop (iov_len v - b) (iov_data v))))"
proof (rule ascii.loop_counts [where Q = "\<lambda>_. True" and L = "\<lambda>b. memcache_ascii_loop v (int b)" and R = Inr])
  fix b res k assume "b \<le> iov_len v" "ascii_frame (drop (iov_len v - b) (iov_data v)) = k" "0 < k" "k \<le> b"
  then show "memcache_ascii_loop v (int b) res = memcache_ascii_loop v (int (b - k)) (res + BRP (of_nat k) 1) \<and> True"
    using memcache_ascii_loop_step [OF assms(1), of b res] by (simp add: of_nat_diff)
qed (use assms memcache_ascii_loop_step [OF assms(1)] in \<open>simp_all add: clean_buffer_def iov_ok_def\<close>)

lemma ascii_consume_frames:
  assumes "clean_buffer resp" and "iov_len resp < 2 ^ 31"
  shows "memcache_ascii_consume_response resp = Inr (to_brp (frames ascii_frame (iov_data resp)))"
  using memcache_ascii_loop_frames [OF assms(1), of "iov_len resp" 0] assms(2)
  by (simp add: memcache_ascii_consume_response_def)

text \<open>
  On a clean buffer the ASCII consumer returns and reports exactly the complete
  messages at the front of the received bytes and their total length.
\<close>

theorem memcache_ascii_counts_frames:
  assumes "clean_buffer resp" and "iov_len resp < 2 ^ 31"
  shows "memcache_ascii_consume_response resp = Inr (to_brp (frames ascii_frame (iov_data resp)))"
  using assms by (rule ascii_consume_frames)

theorem memcache_ascii_counts_frames_witness:
  "memcache_ascii_consume_response (mk_iov (END_CRLF @ ''STO'' @ [NUL]) 8) =
     Inr (to_brp (frames ascii_frame (END_CRLF @ ''STO'')))"
  using memcache_ascii_counts_frames [of "mk_iov (END_CRLF @ ''STO'' @ [NUL]) 8"]
  by (simp add: clean_buffer_def)

subsection \<open>Replies to pipelined requests\<close>

text \<open>The reply to a hit: the \<open>VALUE\<close> line, the data line and the end marker.\<close>

definition value_reply :: "bytes \<Rightarrow> bytes \<Rightarrow> bytes" where
  "value_reply hdr val = ''VALUE '' @ hdr @ CRLF @ val @ CRLF @ END_CRLF"

definition line_text :: "bytes \<Rightarrow> bool" where
  "line_text s \<longleftrightarrow> LF \<notin> set s \<and> NUL \<notin> set s"

lemma nth_index_notin:
  "x \<notin> set s \<Longrightarrow> nth_index x (Suc n) (s @ x # rest) =
     (if n = 0 then Some (length s) else map_option ((+) (Suc (length s))) (nth_index x n rest))"
  by (simp add: index_of_notin_append)

lemma strchnth_notin:
  "NUL \<notin> set s \<Longrightarrow> c \<notin> set s \<Longrightarrow> strchnth (s @ c # rest) c (Suc n) =
     (if n = 0 then Inr (Some (length s))
      else bindE (strchnth rest c n) (\<lambda>r. Inr (map_option ((+) (Suc (length s))) r)))"
  by (simp add: strchr_found)

lemma value_reply_lines:
  "value_reply hdr val @ rest =
     (''VALUE '' @ hdr @ [CR]) @ LF # (val @ [CR]) @ LF # (''END'' @ [CR]) @ LF # rest"
  by (simp add: value_reply_def)

lemma length_value_reply: "length (value_reply hdr val) = 15 + length hdr + length val"
  by (simp add: value_reply_def)

lemma three_lines:
  assumes "line_text hdr" and "line_text val"
  shows "nth_index LF 3 (value_reply hdr val @ rest) = Some (length (value_reply hdr val) - 1)"
    and "strchnth (value_reply hdr val @ rest) LF 3 = Inr (Some (length (value_reply hdr val) - 1))"
proof -
  have l: "LF \<notin> set (''VALUE '' @ hdr @ [CR])" "LF \<notin> set (val @ [CR])" "LF \<notin> set (''END'' @ [CR])"
    and n: "NUL \<notin> set (''VALUE '' @ hdr @ [CR])" "NUL \<notin> set (val @ [CR])" "NUL \<notin> set (''END'' @ [CR])"
    using assms by (auto simp: line_text_def)
  show "nth_index LF 3 (value_reply hdr val @ rest) = Some (length (value_reply hdr val) - 1)"
    unfolding value_reply_lines numeral_3_eq_3 length_value_reply
    by (simp only: nth_index_notin [OF l(1)] nth_index_notin [OF l(2)] nth_index_notin [OF l(3)]) simp
  show "strchnth (value_reply hdr val @ rest) LF 3 = Inr (Some (length (value_reply hdr val) - 1))"
    unfolding value_reply_lines numeral_3_eq_3 length_value_reply
    by (simp only: strchnth_notin [OF n(1) l(1)] strchnth_notin [OF n(2) l(2)]
        strchnth_notin [OF n(3) l(3)]) simp
qed

lemma take_value_reply:
  "take 5 (value_reply hdr val @ rest) \<noteq> END_CRLF"
  "take 8 (value_reply hdr val @ rest) \<noteq> STORED_CRLF"
  by (simp_all add: value_reply_def)

lemma ascii_frame_value_reply:
  assumes "line_text hdr" and "line_text val"
  shows "ascii_frame (value_reply hdr val) = length (value_reply hdr val)"
  using three_lines(1) [OF assms, of "[]"] take_value_reply [of hdr val "[]"]
    length_value_reply [of hdr val]
  by (simp add: ascii_frame_def del: nth_index.simps)

lemma ascii_frame_status:
  "ascii_frame END_CRLF = length END_CRLF"
  "ascii_frame STORED_CRLF = length STORED_CRLF"
  by (simp_all add: ascii_frame_def)

text \<open>What a server answers: a miss, a successful store, a hit.\<close>

inductive ascii_reply :: "bytes \<Rightarrow> bool" where
  miss: "ascii_reply END_CRLF"
| stored: "ascii_reply STORED_CRLF"
| hit: "line_text hdr \<Longrightarrow> line_text val \<Longrightarrow> ascii_reply (value_reply hdr val)"

lemma ascii_reply_frame:
  assumes "ascii_reply m"
  shows "m \<noteq> [] \<and> ascii_frame m = length m"
  using assms
proof cases
  case (hit hdr val)
  have "m \<noteq> []"
    unfolding hit(1) using length_value_reply [of hdr val] by auto
  with hit ascii_frame_value_reply show ?thesis by simp
qed (simp_all add: ascii_frame_status [simplified])

text \<open>
  Property C19. The replies of a server to any sequence of pipelined requests (misses, stores and
  hits in any order), received whole into a clean buffer, are counted one for one, and every byte
  is accounted for.
\<close>

theorem memcache_ascii_counts_replies:
  assumes "clean_buffer resp" and "iov_len resp < 2 ^ 31"
    and "iov_data resp = concat replies"
    and "\<forall>m \<in> set replies. ascii_reply m"
  shows "memcache_ascii_consume_response resp =
    Inr (BRP (of_nat (iov_len resp)) (of_nat (length replies)))"
proof -
  have "\<forall>m \<in> set replies. m \<noteq> [] \<and> ascii_frame m = length m"
    using assms(4) ascii_reply_frame by blast
  then have "frames ascii_frame (iov_data resp) = (length (iov_data resp), length replies)"
    unfolding assms(3) by (rule ascii.frames_messages)
  moreover have "length (iov_data resp) = iov_len resp"
    using assms(1) by (simp add: clean_buffer_def iov_data_def)
  ultimately show ?thesis
    by (simp add: ascii_consume_frames [OF assms(1,2)] to_brp_def)
qed

theorem memcache_ascii_counts_replies_witness:
  "memcache_ascii_consume_response (mk_iov (STORED_CRLF @ value_reply ''k 0 1'' ''v'' @ [NUL]) 29) =
     Inr (BRP (of_nat 29) (of_nat 2))"
proof -
  let ?v = "mk_iov (STORED_CRLF @ value_reply ''k 0 1'' ''v'' @ [NUL]) 29"
  have clean: "clean_buffer ?v"
    by (simp add: clean_buffer_def value_reply_def)
  have "ascii_reply (value_reply ''k 0 1'' ''v'')"
    by (rule ascii_reply.hit) (simp_all add: line_text_def)
  then have "\<forall>m \<in> set [STORED_CRLF, value_reply ''k 0 1'' ''v'']. ascii_reply m"
    by (simp add: ascii_reply.stored [simplified])
  moreover have "iov_data ?v = concat [STORED_CRLF, value_reply ''k 0 1'' ''v'']"
    by (simp add: value_reply_def)
  ultimately show ?thesis
    using memcache_ascii_counts_replies [OF clean, of "[STORED_CRLF, value_reply ''k 0 1'' ''v'']"]
    by simp
qed

text \<open>
  When the buffer is not clean the ASCII consumer can report bytes that were not
  received: if the first part of a reply (8 bytes or more) arrives where the same reply was
  buffered before, the search for the third line end runs on into the old bytes and the reply is
  reported as complete.
\<close>

theorem memcache_ascii_reads_stale_bytes:
  assumes "line_text hdr" and "line_text val" and "8 \<le> n" and "n < length (value_reply hdr val)"
    and "n < 2 ^ 31"
  shows "memcache_ascii_consume_response (mk_iov (value_reply hdr val @ rest) n) =
    Inr (BRP (of_nat (length (value_reply hdr val))) 1)"
proof -
  let ?m = "value_reply hdr val" and ?v = "mk_iov (value_reply hdr val @ rest) n"
  have lm: "15 \<le> length ?m" by (simp add: length_value_reply)
  have "strncmp_eq (?m @ rest) END_CRLF 5 = Inr False"
    and "strncmp_eq (?m @ rest) STORED_CRLF 8 = Inr False"
    using lm take_value_reply [of hdr val rest] by (simp_all add: strncmp_eq_prefix)
  then have "memcache_ascii_loop ?v (int n) 0 =
      memcache_ascii_loop ?v (int n - int (length ?m)) (0 + BRP (of_nat (length ?m)) 1)"
    using assms(3) three_lines(2) [OF assms(1,2), of rest] lm
    by (subst memcache_ascii_loop.simps) (simp add: of_nat_diff del: strchnth.simps)
  also have "\<dots> = Inr (0 + BRP (of_nat (length ?m)) 1)"
    using assms(4) by (subst memcache_ascii_loop.simps) simp
  finally show ?thesis
    using assms(5) by (simp add: memcache_ascii_consume_response_def)
qed

theorem memcache_ascii_reads_stale_bytes_witness:
  "memcache_ascii_consume_response (mk_iov (value_reply ''k 0 1'' ''v'' @ [NUL]) 13) =
     Inr (BRP (of_nat (length (value_reply ''k 0 1'' ''v''))) 1)"
  by (rule memcache_ascii_reads_stale_bytes) (simp_all add: line_text_def value_reply_def)

subsection \<open>Requests on the wire\<close>

text \<open>
  The server's side of the binary protocol: a request is a header with magic 0x80 whose
  big-endian body length covers exactly the rest, which is extras, key and value.
\<close>

definition bmc_request :: "bytes \<Rightarrow> (u8 \<times> bytes \<times> bytes) option" where
  "bmc_request p =
     (if length p < 24 \<or> (of_char (p ! 0) :: u8) \<noteq> 0x80 then None
      else let klen = be_val (take 2 (drop 2 p)); elen = of_char (p ! 4);
               blen = be_val (take 4 (drop 8 p)) in
        if length p = 24 + blen \<and> klen + elen \<le> blen
        then Some (of_char (p ! 1), take klen (drop (24 + elen) p), drop (24 + elen + klen) p)
        else None)"

lemma length_store_bmc_header [simp]: "length (store_bmc_header h) = 24"
  by (simp add: store_bmc_header_def)

lemma store_bmc_header_fields:
  "take 2 (drop 2 (store_bmc_header h @ rest)) = store16 (key_len h)"
  "take 4 (drop 8 (store_bmc_header h @ rest)) = store32 (body_len h)"
  "(store_bmc_header h @ rest) ! 0 = char_of (unat (magic h))"
  "(store_bmc_header h @ rest) ! 1 = char_of (unat (opcode h))"
  "(store_bmc_header h @ rest) ! 4 = char_of (unat (extra_len h))"
  by (simp_all add: store_bmc_header_def nth_append store16_def numeral_2_eq_2)

lemma of_char_char_of_u8: "(of_char (char_of (unat (x :: u8))) :: nat) = unat x"
proof -
  have "unat x < 2 ^ LENGTH(8)" by (rule unsigned_less)
  then show ?thesis by simp
qed

lemma of_char_char_of_u8_word: "(of_char (char_of (unat (x :: u8))) :: u8) = x"
  using of_nat_of_char [of "char_of (unat x)", where 'a = "8 word"]
  by (simp only: of_char_char_of_u8) simp

lemma take_4: "take 4 [a, b, c, d] = [a, b, c, d]"
  by simp

lemma bmc_request_stored:
  assumes "magic h = 0x80" and "key_len h = htons (of_nat (length key))"
    and "body_len h = htonl (of_nat (length extras + length key + length val))"
    and "unat (extra_len h) = length extras"
    and "length key < 2 ^ 16" and "length extras + length key + length val < 2 ^ 32"
  shows "bmc_request (store_bmc_header h @ extras @ key @ val) = Some (opcode h, key, val)"
proof -
  let ?p = "store_bmc_header h @ extras @ key @ val"
  have k: "be_val (take 2 (drop 2 ?p)) = length key"
    using assms(5) by (simp only: store_bmc_header_fields assms(2) be_val_htons) (simp add: unat_of_nat_id)
  have b: "be_val (take 4 (drop 8 ?p)) = length extras + length key + length val"
    using assms(6) unat_of_nat_id [where 'a = 32, of "length extras + length key + length val"]
    by (simp only: store_bmc_header_fields assms(3) be_val_htonl) simp
  have m: "(of_char (?p ! 0) :: u8) = 0x80" and o: "(of_char (?p ! 1) :: u8) = opcode h"
    by (simp_all only: store_bmc_header_fields of_char_char_of_u8_word assms(1))
  have e: "(of_char (?p ! 4) :: nat) = length extras"
    by (simp only: store_bmc_header_fields of_char_char_of_u8) (rule assms(4))
  show ?thesis
    unfolding bmc_request_def Let_def m o e k b by simp
qed

text \<open>The request for the key that was drawn, which is read or written.\<close>

lemma memcache_bin_get:
  assumes "pick_key info e = Inr (k, e1)" and "iov_ok k" and "iov_len k < 2 ^ 16" and "pick_write info e1 = (False, e2)"
    and "memcache_bin_create_request info e req = Inr (req', e')"
  shows "request_ok req' \<and> bmc_request (request_payload req') = Some (CMD_GETK, iov_data k, [])"
proof -
  let ?h = "zero_bmc_header\<lparr>magic := 0x80, key_len := htons (of_nat (iov_len k)), data_type := 0,
    vbucket := 0, opcode := CMD_GETK, extra_len := 0, body_len := htonl (of_nat (iov_len k))\<rparr>"
  have r: "req' = req\<lparr>iovs := [mk_iov (store_bmc_header ?h) 24, k], iov_cnt := 2\<rparr>"
    using assms by (simp add: memcache_bin_create_request_def)
  have "bmc_request (store_bmc_header ?h @ [] @ iov_data k @ []) = Some (opcode ?h, iov_data k, [])"
    using assms(2,3) by (intro bmc_request_stored) simp_all
  then have "bmc_request (request_payload req') = Some (CMD_GETK, iov_data k, [])"
    by (simp add: r request_payload_def)
  with r assms(2) show ?thesis by (auto simp: request_ok_def)
qed

lemma memcache_bin_set:
  assumes "pick_key info e = Inr (k, e1)" and "iov_ok k" and "iov_len k < 2 ^ 16" and "pick_write info e1 = (True, e2)"
    and "kv_sizes_ok info" and "memcache_bin_create_request info e req = Inr (req', e')"
  shows "request_ok req' \<and>
    (\<exists>n \<le> MAX_VAL_SIZE. bmc_request (request_payload req') = Some (CMD_SET, iov_data k, replicate n (CHR ''x'')))"
proof -
  obtain n e3 where n: "pick_val_len info e2 = Inr (n, e3)"
    using assms(1,4,6) by (auto simp: memcache_bin_create_request_def bindE_eq_Inr)
  obtain m where m: "n = int m" "m \<le> MAX_VAL_SIZE" "size_of_int n = m"
    using pick_val_len_ok [OF assms(5) n] by blast
  let ?h = "zero_bmc_header\<lparr>magic := 0x80, key_len := htons (of_nat (iov_len k)), data_type := 0,
    vbucket := 0, opcode := CMD_SET, extra_len := 8, body_len := htonl (of_nat (iov_len k + m + 8))\<rparr>"
  have r: "req' = req\<lparr>iovs := [mk_iov (store_bmc_header ?h) 24, mk_iov (store64 0) 8, k,
      mk_iov random_char m], iov_cnt := 4\<rparr>"
    using assms(1,4,6) n by (simp add: memcache_bin_create_request_def m(3))
  have m31: "m < 2 ^ 31" using m(2) by (simp add: MAX_VAL_SIZE_def)
  have len8: "unat (8 :: u8) = 8" by simp
  have "bmc_request (store_bmc_header ?h @ store64 0 @ iov_data k @ replicate m (CHR ''x'')) =
      Some (opcode ?h, iov_data k, replicate m (CHR ''x''))"
    using assms(2,3) m31 len8 by (intro bmc_request_stored) (simp_all add: ac_simps)
  then have "bmc_request (request_payload req') = Some (CMD_SET, iov_data k, replicate m (CHR ''x''))"
    using m(2) by (simp add: r request_payload_def take_4)
  with r assms(2) m(2) show ?thesis by (auto simp: request_ok_def)
qed



text \<open>The text commands of the ASCII protocol, for the bytes of a key and a value length.\<close>

definition ascii_get :: "bytes \<Rightarrow> bytes" where
  "ascii_get k = ''get '' @ k @ CRLF"

definition ascii_set :: "bytes \<Rightarrow> bytes \<Rightarrow> bytes" where
  "ascii_set k v = ''set '' @ k @ '' 0 0 '' @ show_int (int (length v)) @ CRLF @ v @ CRLF"

text \<open>
  Every request the ASCII builder makes is the text of one \<open>get\<close> or \<open>set\<close> command for
  one of the workload's keys, and the length a \<open>set\<close> announces is the length of the value that
  follows.
\<close>

theorem memcache_ascii_requests_well_formed:
  assumes "kv_wf info" and "kv_sizes_ok info"
    and "memcache_ascii_create_request info e req = Inr (req', e')"
  shows "request_ok req' \<and> (\<exists>k \<in> set (keys (kv_key info)).
    request_payload req' = ascii_get (iov_data k) \<or>
    (\<exists>n \<le> MAX_VAL_SIZE. request_payload req' = ascii_set (iov_data k) (replicate n (CHR ''x''))))"
proof -
  obtain k e1 where k: "pick_key info e = Inr (k, e1)" "k \<in> set (keys (kv_key info))" "iov_ok k"
    using pick_key_wf [OF assms(1)] by blast
  obtain w e2 where w: "pick_write info e1 = (w, e2)" by fastforce
  show ?thesis
  proof (cases w)
    case False
    then have r: "req' = req\<lparr>iovs := [mk_iov (''get '' @ [NUL]) 4, k, mk_iov (CRLF @ [NUL]) 2], iov_cnt := 3\<rparr>"
      using assms(3) k(1) w by (simp add: memcache_ascii_create_request_def)
    with k(2,3) show ?thesis
      by (auto simp: request_ok_def request_payload_def ascii_get_def)
  next
    case True
    obtain n e3 where n: "pick_val_len info e2 = Inr (n, e3)"
      using assms(3) k(1) w True by (auto simp: memcache_ascii_create_request_def bindE_eq_Inr)
    obtain m where m: "n = int m" "m \<le> MAX_VAL_SIZE" "size_of_int n = m"
      using pick_val_len_ok [OF assms(2) n] by blast
    have r: "req' = req\<lparr>iovs := [mk_iov (''set '' @ [NUL]) 4, k, mk_iov ('' 0 0 '' @ [NUL]) 5,
        mk_iov (cstr (show_int (int m))) (length (show_int (int m))), mk_iov (CRLF @ [NUL]) 2,
        mk_iov random_char m, mk_iov (CRLF @ [NUL]) 2], iov_cnt := 7\<rparr>"
      using assms(3) k(1) w True n m by (simp add: memcache_ascii_create_request_def Let_def)
    then have "request_payload req' = ascii_set (iov_data k) (replicate m (CHR ''x''))"
      using m(2) by (simp add: request_payload_def ascii_set_def cstr_def)
    with r k(2,3) m(2) show ?thesis
      by (auto simp: request_ok_def cstr_def)
  qed
qed

theorem memcache_ascii_requests_well_formed_witness:
  "\<exists>req' e'. memcache_ascii_create_request (one_key_info (- 1)) start_env empty_request = Inr (req', e') \<and>
     request_ok req' \<and>
     (request_payload req' = ascii_get ''k'' \<or>
      (\<exists>n \<le> MAX_VAL_SIZE. request_payload req' = ascii_set ''k'' (replicate n (CHR ''x''))))"
proof -
  obtain e1 where "pick_key (one_key_info (- 1)) start_env = Inr (mk_iov ''k'' 1, e1)"
    using one_key_pick by blast
  then obtain req' e' where
    c: "memcache_ascii_create_request (one_key_info (- 1)) start_env empty_request = Inr (req', e')"
    by (simp add: memcache_ascii_create_request_def one_key_write one_key_val_len Let_def)
  have "set (keys (kv_key (one_key_info (- 1)))) = {mk_iov ''k'' 1}"
    by (simp add: one_key_info_def)
  with memcache_ascii_requests_well_formed [OF one_key_wf one_key_sizes_ok c] c show ?thesis
    by simp
qed

text \<open>A reply of the binary protocol: a header and as many bytes as it announces.\<close>

definition mb_reply :: "bytes \<Rightarrow> bool" where
  "mb_reply m \<longleftrightarrow> 24 \<le> length m \<and> length m = 24 + be_val (take 4 (drop 8 m))"

lemma mb_frame_reply:
  assumes "mb_reply m"
  shows "m \<noteq> [] \<and> mb_frame m = length m"
proof -
  define n where "n = be_val (take 4 (drop 8 m))"
  have "length m = 24 + n" using assms by (simp only: mb_reply_def n_def)
  moreover have "mb_frame m = (if length m < 24 then 0 else if length m < 24 + n then 0 else 24 + n)"
    by (simp only: mb_frame_def Let_def n_def)
  ultimately show ?thesis by auto
qed

lemma htonl_0: "htonl 0 = 0" by code_simp

lemma zero_header_reply: "mb_reply (store_bmc_header zero_bmc_header)"
proof -
  have "take 4 (drop 8 (store_bmc_header zero_bmc_header @ [])) = store32 (htonl 0)"
    by (simp only: store_bmc_header_fields htonl_0) (simp add: zero_bmc_header_def)
  then have "be_val (take 4 (drop 8 (store_bmc_header zero_bmc_header))) = 0"
    by (simp only: append_Nil2 be_val_htonl) simp
  then show ?thesis unfolding mb_reply_def by (simp only: length_store_bmc_header) simp
qed

end
