(* ===== verification/Redis.thy ===== *)
theory Redis
  imports KV_Workload Response_Frames
begin

section \<open>The Redis protocols (\<open>agents/redis.c\<close>)\<close>

text \<open>
  The RESP client: the two reply parsers, the consumer loop over them, the request builder of the
  key-value workload and the YCSB-E workload. The consumer is shown to count exactly the replies
  of a well-behaved server however they are cut into reads, to abort on any other reply type, and
  to run forever on a reply that announces a negative length.
\<close>

subsection \<open>Parsing replies\<close>

text \<open>The sum and the difference of two \<open>int\<close>; overflow is undefined.\<close>

definition int_range :: "int \<Rightarrow> int result" where
  "int_range i = (if - (2 ^ 31) \<le> i \<and> i < 2 ^ 31 then Inr i else Inl ImplDefined)"

definition parse_string :: "bytes \<Rightarrow> int \<Rightarrow> int result" where
  "parse_string buf bytes_left =
     (if bytes_left < 1 then Inr 0
      else if buf = [] then Inl OutOfBounds
      else bindE (assertE (buf ! 0 = CHR ''+'')) (\<lambda>_.
        bindE (memchr buf LF (nat bytes_left)) (\<lambda>p.
          case p of None \<Rightarrow> Inr 0 | Some k \<Rightarrow> Inr (s32 (int k + 1)))))"

definition parse_bulk_string :: "bytes \<Rightarrow> int \<Rightarrow> int result" where
  "parse_bulk_string buf bytes_left =
     (if bytes_left < 1 then Inr 0
      else if buf = [] then Inl OutOfBounds
      else bindE (assertE (buf ! 0 = CHR ''$'')) (\<lambda>_.
        bindE (memchr buf LF (nat bytes_left)) (\<lambda>p.
          case p of
            None \<Rightarrow> Inr 0
          | Some k \<Rightarrow>
              bindE (atoi (drop 1 buf)) (\<lambda>len.
                if len = - 1 then Inr 5
                else
                  let extra = s32 (int k + 1 + 2) in
                  bindE (int_range (len + extra)) (\<lambda>n.
                    if n \<le> bytes_left then Inr n else Inr 0)))))"

text \<open>
  The loop subtracts what a parser returns, which can be negative; it then moves backwards and
  need not end. Not ending is \<open>None\<close> here and \<open>Diverges\<close> for the consumer.
\<close>

partial_function (option) redis_kv_loop ::
  "iovec \<Rightarrow> int \<Rightarrow> byte_req_pair \<Rightarrow> byte_req_pair result option" where
  "redis_kv_loop resp bytes_to_process res =
     (if bytes_to_process = 0 then Some (Inr res)
      else
        let i = int (iov_len resp) - bytes_to_process in
        if i < 0 \<or> int (length (iov_base resp)) \<le> i then Some (Inl OutOfBounds)
        else
          let buf = drop (nat i) (iov_base resp) in
          case (if buf ! 0 = CHR ''+'' then parse_string buf bytes_to_process
                else if buf ! 0 = CHR ''$'' then parse_bulk_string buf bytes_to_process
                else Inl AssertFail) of
            Inl e \<Rightarrow> Some (Inl e)
          | Inr processed \<Rightarrow>
              if processed = 0 then Some (Inr res)
              else case int_range (bytes_to_process - processed) of
                Inl e \<Rightarrow> Some (Inl e)
              | Inr b \<Rightarrow> redis_kv_loop resp b (res + BRP (of_int processed) 1))"

definition redis_kv_consume_response :: "iovec \<Rightarrow> byte_req_pair result" where
  "redis_kv_consume_response resp =
     (if 2 ^ 31 \<le> iov_len resp then Inl ImplDefined
      else case redis_kv_loop resp (int (iov_len resp)) 0 of None \<Rightarrow> Inl Diverges | Some r \<Rightarrow> r)"

subsection \<open>Key-value requests\<close>

abbreviation set_prem :: bytes where
  "set_prem \<equiv> ''*3'' @ CRLF @ ''$3'' @ CRLF @ ''SET'' @ CRLF @ ''$''"

abbreviation get_prem :: bytes where
  "get_prem \<equiv> ''*2'' @ CRLF @ ''$3'' @ CRLF @ ''GET'' @ CRLF @ ''$''"

definition redis_kv_create_request ::
  "kv_info \<Rightarrow> rand_env \<Rightarrow> request \<Rightarrow> (request \<times> rand_env) result" where
  "redis_kv_create_request info e req =
     bindE (pick_key info e) (\<lambda>(key, e).
     let key_len_str = show_int (int (iov_len key));
         ln = mk_iov (CRLF @ [NUL]) 2;
         fix_key = [mk_iov (cstr key_len_str) (length key_len_str), ln, key, ln];
         (write, e) = pick_write info e in
     if write then
       bindE (pick_val_len info e) (\<lambda>(val_len, e).
       let val_len_str = show_int val_len in
       Inr (req\<lparr>iovs := mk_iov (set_prem @ [NUL]) 14 # fix_key @
                  [mk_iov (''$'' @ [NUL]) 1, mk_iov (cstr val_len_str) (length val_len_str), ln,
                   mk_iov random_char (size_of_int val_len), ln],
                iov_cnt := 10\<rparr>, e))
     else
       Inr (req\<lparr>iovs := mk_iov (get_prem @ [NUL]) 14 # fix_key, iov_cnt := 5\<rparr>, e))"

definition init_redis_kv :: "string \<Rightarrow> kv_info result" where
  "init_redis_kv proto = parse_kv_info proto"

subsection \<open>YCSB-E\<close>

record ycsbe_info =
  scan_ratio :: double
  insert_ratio :: double
  ycsbe_key_count :: int
  scan_len :: int
  field_count :: nat
  field_size :: nat
  replicated :: bool
  fixed_req_body :: bytes

text \<open>The body: per field its bytes and a blank, then the last blank becomes a line end.\<close>

fun fill_body :: "nat \<Rightarrow> nat \<Rightarrow> bytes" where
  "fill_body 0 n = []"
| "fill_body (Suc i) n = replicate n (CHR ''x'') @ '' '' @ fill_body i n"

definition init_redis_ycsbe :: "string \<Rightarrow> ycsbe_info" where
  "init_redis_ycsbe proto =
     (let body = fill_body 10 100 in
      \<lparr>scan_ratio = 95 / 100, insert_ratio = 5 / 100, ycsbe_key_count = 1000000, scan_len = 10,
       field_count = 10, field_size = 100, replicated = has_prefix proto ''redis-ycsber'',
       fixed_req_body = body[length body - 1 := LF]\<rparr>)"

definition c_rand_mod :: "int \<Rightarrow> rand_env \<Rightarrow> (int \<times> rand_env) result" where
  "c_rand_mod m e =
     (if m = 0 then Inl DivByZero else (let (r, e) = env_rand e in Inr (int r mod m, e)))"

definition redis_ycsbe_create_request ::
  "ycsbe_info \<Rightarrow> rand_env \<Rightarrow> request \<Rightarrow> (request \<times> rand_env) result" where
  "redis_ycsbe_create_request info e req =
     bindE (c_rand_mod (ycsbe_key_count info) e) (\<lambda>(key, e).
     let ycsbe_key = show_int key @ '' '';
         (y, e) = env_drand48 e in
     if y \<le> scan_ratio info then
       bindE (c_rand_mod (scan_len info) e) (\<lambda>(r, e).
       let scan_count = r + 1;
           ycsbe_scan = show_int scan_count @ [LF];
           req = req\<lparr>iovs := [mk_iov (cstr ''ycsbe.scan '') 11, mk_iov (cstr ycsbe_key) (length ycsbe_key),
                       mk_iov (cstr ycsbe_scan) (length ycsbe_scan)], iov_cnt := 3\<rparr> in
       bindE (assertE (\<not> replicated info)) (\<lambda>_. Inr (req\<lparr>meta := 0\<rparr>, e)))
     else
       let req = req\<lparr>iovs := [mk_iov (cstr ''ycsbe.insert '') 13, mk_iov (cstr ycsbe_key) (length ycsbe_key),
                       mk_iov (fixed_req_body info) (field_count info * (field_size info + 1))],
                     iov_cnt := 3\<rparr> in
       bindE (assertE (\<not> replicated info)) (\<lambda>_. Inr (req\<lparr>meta := 0\<rparr>, e)))"

subsection \<open>Initialisation\<close>

datatype redis_variant = REDIS_YCSBE ycsbe_info | REDIS_KV kv_info

definition redis_init :: "string \<Rightarrow> redis_variant result" where
  "redis_init proto =
     bindE (assertE (has_prefix proto ''redis'')) (\<lambda>_.
       if has_prefix proto ''redis-ycsbe'' then Inr (REDIS_YCSBE (init_redis_ycsbe proto))
       else bindE (init_redis_kv proto) (\<lambda>d. Inr (REDIS_KV d)))"

subsection \<open>Replies and frames\<close>

text \<open>
  What a Redis server answers to GET and SET: a status line, a bulk string (at most the 512 MB
  the server allows), or the null bulk string of a missing key.
\<close>

inductive redis_reply :: "bytes \<Rightarrow> bool" where
  status: "LF \<notin> set s \<Longrightarrow> redis_reply (''+'' @ s @ CRLF)"
| bulk: "length v < 2 ^ 29 \<Longrightarrow> redis_reply (''$'' @ show_nat (length v) @ CRLF @ v @ CRLF)"
| missing: "redis_reply (''$-1'' @ CRLF)"

definition redis_frame :: "bytes \<Rightarrow> nat" where
  "redis_frame xs =
     (case index_of LF xs of
        None \<Rightarrow> 0
      | Some p \<Rightarrow>
          if xs ! 0 = CHR ''+'' then Suc p
          else if xs ! 0 = CHR ''$'' then
            (case atoi (drop 1 (take (Suc p) xs)) of
               Inl _ \<Rightarrow> 0
             | Inr len \<Rightarrow>
                 let n = (if len = - 1 then 5 else if len < 0 then 0 else nat len + p + 3) in
                 if n \<le> length xs then n else 0)
          else 0)"

text \<open>A stream a server can have sent so far.\<close>

definition redis_valid :: "bytes \<Rightarrow> bool" where
  "redis_valid xs \<longleftrightarrow> (\<exists>ms ys. (\<forall>m \<in> set ms. redis_reply m) \<and> xs @ ys = concat ms)"

lemma redis_frame_le: "redis_frame xs \<le> length xs"
  by (auto simp: redis_frame_def Let_def Suc_le_eq dest: index_of_SomeD split: option.split sum.split)

lemma redis_frame_ext:
  assumes "redis_frame xs \<noteq> 0"
  shows "redis_frame (xs @ ys) = redis_frame xs"
proof -
  obtain p where p: "index_of LF xs = Some p"
    using assms by (auto simp: redis_frame_def split: option.splits)
  then have "p < length xs" by (blast dest: index_of_SomeD)
  then have "(xs @ ys) ! 0 = xs ! 0" and "take (Suc p) (xs @ ys) = take (Suc p) xs"
    by (auto simp: nth_append)
  with assms show ?thesis
    unfolding redis_frame_def index_of_append1 [OF p] p
    by (cases "atoi (drop 1 (take (Suc p) xs))") (simp_all add: Let_def del: take_append drop_take split: if_splits)
qed

interpretation redis_f: framing redis_frame
  by unfold_locales (simp_all add: redis_frame_le redis_frame_ext)

lemma index_of_line: "LF \<notin> set s \<Longrightarrow> index_of LF (s @ CRLF @ rest) = Some (Suc (length s))"
  using index_of_notin_append [of LF "s @ [CR]" rest] by simp

lemma LF_notin_show_nat: "LF \<notin> set (show_nat n)"
  using show_nat_digits by (metis digit_char_props(4))

lemma not_digit_CR: "\<not> is_digit CR"
  by (simp add: is_digit_def)

lemma atoi_minus_1: "atoi (''-1'' @ CR # rest) = Inr (- 1)"
  by (simp add: atoi_def is_space_def is_digit_def digit_val_def s32_def)

lemma bulk_header:
  "index_of LF (''$'' @ show_nat n @ CRLF @ rest) = Some (length (show_nat n) + 2)"
  using index_of_line [of "''$'' @ show_nat n" rest] by (simp add: LF_notin_show_nat)

lemma redis_frame_reply:
  assumes "redis_reply m"
  shows "m \<noteq> [] \<and> redis_frame m = length m"
  using assms
proof cases
  case (status s)
  then have "index_of LF m = Some (Suc (Suc (length s)))"
    using index_of_line [of "''+'' @ s" "[]"] by simp
  then show ?thesis by (simp add: status redis_frame_def)
next
  case (bulk v)
  let ?n = "length v"
  have i: "index_of LF m = Some (length (show_nat ?n) + 2)"
    unfolding bulk(1) by (rule bulk_header)
  have h: "drop 1 (take (Suc (length (show_nat ?n) + 2)) m) = show_nat ?n @ CR # [LF]"
    by (simp add: bulk(1))
  have "?n < 2 ^ 31" using bulk(2) by simp
  then have "atoi (show_nat ?n @ CR # [LF]) = Inr (int ?n)"
    by (rule atoi_show_nat [OF not_digit_CR])
  then show ?thesis
    unfolding redis_frame_def i by (simp only: option.case h) (simp add: bulk(1))
next
  case missing
  have "index_of LF m = Some 4" by (simp add: missing)
  moreover have "drop 1 (take (Suc 4) m) = ''-1'' @ CR # [LF]" by (simp add: missing)
  ultimately show ?thesis
    using atoi_minus_1 [of "[LF]"] by (simp add: redis_frame_def missing)
qed

subsection \<open>The consumer counts frames\<close>

lemma parse_string_frame:
  assumes "take b buf = d" and "length d = b" and "0 < b" and "b < 2 ^ 31" and "d ! 0 = CHR ''+''"
  shows "parse_string buf (int b) = Inr (int (redis_frame d))"
proof -
  have len: "b \<le> length buf" using assms(1,2) by auto
  have hd: "buf ! 0 = CHR ''+''" using assms(1,3,5) by auto
  have m: "memchr buf LF b = Inr (index_of LF d)"
    using memchr_index_of [OF len] assms(1) by simp
  have "p < b" if "index_of LF d = Some p" for p
    using that assms(2) by (blast dest: index_of_SomeD)
  then have "s32 (int p + 1) = int p + 1" if "index_of LF d = Some p" for p
    using that assms(4) by (intro s32_id) (auto simp flip: of_nat_less_iff)
  then show ?thesis
    using len hd m assms(3,5) by (auto simp: parse_string_def redis_frame_def split: option.split)
qed

lemma length_show_nat_Suc: "length (show_nat n) \<le> Suc n"
proof (induction n rule: show_nat.induct)
  case (1 n)
  then show ?case by (subst show_nat.simps) auto
qed

lemma parse_bulk_frame:
  assumes "take b buf = d" and "length d = b" and "0 < b" and "b < 2 ^ 31" and "d ! 0 = CHR ''$''"
    and "d @ ys = m @ rest" and "redis_reply m"
  shows "parse_bulk_string buf (int b) = Inr (int (redis_frame d))"
proof -
  have len: "b \<le> length buf" using assms(1,2) by auto
  have hd: "buf ! 0 = CHR ''$''" "buf \<noteq> []" using assms(1,3,5) len by auto
  have mc: "memchr buf LF b = Inr (index_of LF d)"
    using memchr_index_of [OF len] assms(1) by simp
  show ?thesis
  proof (cases "index_of LF d")
    case None
    then show ?thesis
      using hd mc assms(3) by (simp add: parse_bulk_string_def redis_frame_def)
  next
    case (Some p)
    then have p: "p < b" using assms(2) by (blast dest: index_of_SomeD)
    have ip: "index_of LF (m @ rest) = Some p"
      using index_of_append1 [OF Some, of ys] assms(6) by simp
    have td: "take (Suc p) d = take (Suc p) (m @ rest)"
      using p assms(2) by (simp flip: assms(6))
    have "take (Suc p) buf = take (Suc p) d"
      using p assms(1) by (simp add: min_def flip: assms(1))
    then have buf: "drop (Suc 0) buf = drop (Suc 0) (take (Suc p) d) @ drop (Suc p) buf"
      using p len by (metis append_take_drop_id drop_append_le length_take less_imp_le_nat less_le_trans min.absorb2 One_nat_def Suc_leI zero_less_Suc)
    have d0: "(m @ rest) ! 0 = CHR ''$''"
      using assms(2,3,5) by (simp add: nth_append flip: assms(6))
    from assms(7) show ?thesis
    proof cases
      case (status s)
      with d0 show ?thesis by simp
    next
      case (bulk v)
      let ?n = "length v"
      have pn: "p = length (show_nat ?n) + 2"
        using ip bulk_header [of ?n "v @ CRLF @ rest"] by (simp add: bulk(1))
      have h: "drop (Suc 0) (take (Suc p) d) = show_nat ?n @ CR # [LF]"
        unfolding td unfolding pn by (simp add: bulk(1))
      have "?n < 2 ^ 31" using bulk(2) by simp
      then have a: "atoi (show_nat ?n @ CR # t) = Inr (int ?n)" for t
        by (rule atoi_show_nat [OF not_digit_CR])
      have "p \<le> Suc ?n + 2" using length_show_nat_Suc [of ?n] pn by simp
      then have e: "s32 (int p + 1 + 2) = int p + 3" and r: "int_range (int ?n + (int p + 3)) = Inr (int ?n + (int p + 3))"
        using bulk(2) by (simp_all add: s32_id int_range_def)
      show ?thesis
        using hd mc Some p e r assms(2,3,5) a [of "[LF]"] a [of "LF # drop (Suc p) buf"]
        by (simp add: parse_bulk_string_def redis_frame_def buf h Let_def)
    next
      case missing
      have p4: "p = 4" using ip by (simp add: missing)
      have h: "drop (Suc 0) (take 5 d) = ''-1'' @ CR # [LF]"
        using td unfolding p4 by (simp add: missing)
      show ?thesis
        using hd mc Some p p4 assms(2,3,5) atoi_minus_1 [of "[LF]"] atoi_minus_1 [of "LF # drop (Suc p) buf"]
        by (simp add: parse_bulk_string_def redis_frame_def buf h)
    qed
  qed
qed

lemma redis_valid_parts:
  assumes "redis_valid d" and "d \<noteq> []"
  shows "\<exists>m ms ys. redis_reply m \<and> (\<forall>m' \<in> set ms. redis_reply m') \<and> d @ ys = m @ concat ms"
proof -
  obtain ms ys where "\<forall>m \<in> set ms. redis_reply m" and e: "d @ ys = concat ms"
    using assms(1) unfolding redis_valid_def by blast
  moreover from e assms(2) obtain m ms' where "ms = m # ms'"
    by (cases ms) auto
  ultimately show ?thesis by auto
qed

lemma redis_reply_hd:
  assumes "redis_reply m"
  shows "(m @ r) ! 0 = CHR ''+'' \<or> (m @ r) ! 0 = CHR ''$''"
  using assms by cases simp_all

lemma redis_valid_drop:
  assumes "redis_valid d" and "redis_frame d \<noteq> 0"
  shows "redis_valid (drop (redis_frame d) d)"
proof -
  have "d \<noteq> []" using assms(2) by auto
  then obtain m ms ys where m: "redis_reply m" "\<forall>m' \<in> set ms. redis_reply m'" "d @ ys = m @ concat ms"
    using redis_valid_parts [OF assms(1)] by blast
  have "redis_frame d = redis_frame (m @ concat ms)"
    using redis_frame_ext [OF assms(2), of ys] m(3) by simp
  also have "\<dots> = length m"
    using redis_frame_reply [OF m(1)] by (simp add: redis_frame_ext)
  finally have f: "redis_frame d = length m" .
  have "drop (redis_frame d) (d @ ys) = concat ms"
    by (simp add: m(3) f)
  then have "drop (redis_frame d) d @ ys = concat ms"
    using redis_frame_le [of d] by simp
  with m(2) show ?thesis unfolding redis_valid_def by blast
qed

lemma redis_valid_prefix: "redis_valid (xs @ ys) \<Longrightarrow> redis_valid xs"
  unfolding redis_valid_def by (metis append.assoc)

text \<open>The loop with \<open>b\<close> bytes left, at the front of a reply.\<close>

lemma redis_kv_loop_step:
  assumes "iov_ok v" and "iov_len v < 2 ^ 31" and "b \<le> iov_len v" and "redis_valid (drop (iov_len v - b) (iov_data v))"
  shows "redis_kv_loop v (int b) res =
    (let k = redis_frame (drop (iov_len v - b) (iov_data v)) in
     if k = 0 then Some (Inr res) else redis_kv_loop v (int (b - k)) (res + BRP (of_nat k) 1))"
proof (cases "b = 0")
  case True
  with assms(1) show ?thesis by (subst redis_kv_loop.simps) simp
next
  case False
  let ?d = "drop (iov_len v - b) (iov_data v)" and ?p = "drop (iov_len v - b) (iov_base v)" and ?f = "redis_frame (drop (iov_len v - b) (iov_data v))"
  have len: "length ?d = b" using assms by simp
  obtain m ms ys where m: "redis_reply m" "?d @ ys = m @ concat ms"
    using redis_valid_parts [OF assms(4)] len False by fastforce
  have tk: "take b ?p = ?d" using assms(1,3) False by (auto simp: iov_data_def iov_ok_def drop_take)
  have d0: "?d ! 0 = ?p ! 0" using False by (simp flip: tk)
  have idx: "nat (int (iov_len v) - int b) = iov_len v - b"
    "\<not> int (iov_len v) - int b < 0" "\<not> int (length (iov_base v)) \<le> int (iov_len v) - int b"
    using assms(1,3) False by (simp_all add: iov_ok_def)
  have "(?d @ ys) ! 0 = ?d ! 0" using len False by (cases ?d) auto
  then have hd: "?d ! 0 = CHR ''+'' \<or> ?d ! 0 = CHR ''$''"
    using redis_reply_hd [OF m(1), of "concat ms"] unfolding m(2) by simp
  have b31: "0 < b" "b < 2 ^ 31" using False assms(2,3) by simp_all
  have "(if ?p ! 0 = CHR ''+'' then parse_string ?p (int b)
      else if ?p ! 0 = CHR ''$'' then parse_bulk_string ?p (int b) else Inl AssertFail) = Inr (int ?f)"
    using hd parse_string_frame [OF tk len b31] parse_bulk_frame [OF tk len b31 _ m(2,1)] by (auto simp: d0)
  moreover have "?f \<le> b" using redis_frame_le [of ?d] len by simp
  then have "int_range (int b - int ?f) = Inr (int (b - ?f))" using b31 by (simp add: int_range_def of_nat_diff)
  ultimately show ?thesis using False idx by (subst redis_kv_loop.simps) (simp add: Let_def)
qed

lemma redis_kv_loop_frames:
  assumes "iov_ok v" and "iov_len v < 2 ^ 31" and "b \<le> iov_len v" and "redis_valid (drop (iov_len v - b) (iov_data v))"
  shows "redis_kv_loop v (int b) res =
    Some (Inr (res + to_brp (frames redis_frame (drop (iov_len v - b) (iov_data v)))))"
proof (rule redis_f.loop_counts [where Q = redis_valid and L = "\<lambda>b. redis_kv_loop v (int b)" and R = "\<lambda>r. Some (Inr r)"])
  fix b res k assume a: "b \<le> iov_len v" "redis_valid (drop (iov_len v - b) (iov_data v))"
    "redis_frame (drop (iov_len v - b) (iov_data v)) = k" "0 < k"
  then show "redis_kv_loop v (int b) res = redis_kv_loop v (int (b - k)) (res + BRP (of_nat k) 1) \<and>
      redis_valid (drop k (drop (iov_len v - b) (iov_data v)))"
    using redis_kv_loop_step [OF assms(1,2) a(1,2), of res] redis_valid_drop [OF a(2)] by simp
qed (use assms redis_kv_loop_step [OF assms(1,2)] in simp_all)

interpretation redis: response_protocol redis_frame redis_kv_consume_response redis_valid
proof unfold_locales
  fix v :: iovec assume "iov_ok v" and "iov_len v < 2 ^ 31" and "redis_valid (iov_data v)"
  then show "redis_kv_consume_response v = Inr (to_brp (frames redis_frame (iov_data v)))"
    using redis_kv_loop_frames [of v "iov_len v" 0]
    by (simp add: redis_kv_consume_response_def)
qed (simp_all add: redis_valid_drop redis_valid_prefix)

lemma redis_valid_concat: "\<forall>m \<in> set ms. redis_reply m \<Longrightarrow> redis_valid (concat ms)"
  unfolding redis_valid_def by (intro exI [of _ ms] exI [of _ "[]"]) simp

text \<open>
  However the replies of a server are cut into reads, the consumer returns and counts
  exactly the complete replies at the front of the buffer: with the whole replies \<open>ms\<close> and the first
  part \<open>part\<close> of one more received, it reports \<open>length ms\<close> replies and their bytes.
\<close>

theorem redis_counts_replies:
  assumes "iov_ok resp" and "iov_len resp < 2 ^ 31"
    and "iov_data resp = concat replies @ part" and "\<forall>m \<in> set replies. redis_reply m"
    and "redis_reply next" and "part @ missing = next" and "missing \<noteq> []"
  shows "redis_kv_consume_response resp =
    Inr (BRP (of_nat (length (concat replies))) (of_nat (length replies)))"
proof -
  have "redis_frame part = 0"
  proof (rule ccontr)
    assume f: "redis_frame part \<noteq> 0"
    then have "redis_frame part = length next"
      using redis_frame_ext [OF f, of missing] redis_frame_reply [OF assms(5)] assms(6) by simp
    moreover have "redis_frame part \<le> length part" by (rule redis_frame_le)
    ultimately show False using assms(6,7) by auto
  qed
  then have p: "frames redis_frame part = (0, 0)"
    by (subst redis_f.frames_unfold) simp
  have "frames redis_frame (concat replies @ part) =
      pair_add (frames redis_frame (concat replies))
        (frames redis_frame (drop (fst (frames redis_frame (concat replies))) (concat replies) @ part))"
    by (rule redis_f.frames_append)
  moreover have "frames redis_frame (concat replies) = (length (concat replies), length replies)"
    using assms(4) redis_frame_reply by (intro redis_f.frames_messages) blast
  ultimately have f: "frames redis_frame (iov_data resp) = (length (concat replies), length replies)"
    by (simp add: assms(3) p)
  have "redis_valid (concat (replies @ [next]))"
    using assms(4,5) by (intro redis_valid_concat) auto
  then have "redis_valid (iov_data resp)"
    using redis_valid_prefix [of "concat replies @ part" missing] assms(3,6) by simp
  then show ?thesis
    by (simp add: redis.consume_frames [OF assms(1,2)] f to_brp_def)
qed

theorem redis_counts_replies_witness:
  "redis_kv_consume_response (mk_iov (''+OK'' @ CRLF @ ''$-1'' @ CRLF @ ''$3'' @ CRLF @ ''x'') 15) =
     Inr (BRP 10 2)"
proof -
  have s3: "show_nat (length ''xyz'') = ''3''" by code_simp
  have "redis_reply (''$'' @ show_nat (length ''xyz'') @ CRLF @ ''xyz'' @ CRLF)"
    by (rule redis_reply.bulk) simp
  then have r: "redis_reply (''+OK'' @ CRLF)" "redis_reply (''$-1'' @ CRLF)"
    "redis_reply (''$3'' @ CRLF @ ''xyz'' @ CRLF)"
    using redis_reply.status [of "''OK''"] redis_reply.missing unfolding s3 by simp_all
  have "redis_kv_consume_response (mk_iov (''+OK'' @ CRLF @ ''$-1'' @ CRLF @ ''$3'' @ CRLF @ ''x'') 15) =
      Inr (BRP (of_nat (length (concat [''+OK'' @ CRLF, ''$-1'' @ CRLF])))
        (of_nat (length [''+OK'' @ CRLF, ''$-1'' @ CRLF])))"
    by (rule redis_counts_replies [where part = "''$3'' @ CRLF @ ''x''" and missing = "''yz'' @ CRLF",
          OF _ _ _ _ r(3)]) (use r in simp_all)
  then show ?thesis by simp
qed

subsection \<open>Replies the consumer does not handle\<close>

text \<open>
  Any reply of another type (an error \<open>-ERR\<close>, an integer, an array) ends the agent
  with a failed assertion instead of being counted or skipped.
\<close>

theorem redis_other_replies_abort:
  assumes "iov_ok resp" and "0 < iov_len resp" and "iov_len resp < 2 ^ 31"
    and "iov_base resp ! 0 \<noteq> CHR ''+''" and "iov_base resp ! 0 \<noteq> CHR ''$''"
  shows "redis_kv_consume_response resp = Inl AssertFail"
proof -
  have "iov_base resp \<noteq> []" using assms(1,2) by (auto simp: iov_ok_def)
  then show ?thesis
    using assms unfolding redis_kv_consume_response_def
    by (subst redis_kv_loop.simps) simp
qed

theorem redis_other_replies_abort_witness:
  "redis_kv_consume_response (mk_iov (''-ERR unknown command'' @ CRLF) 22) = Inl AssertFail"
  by (rule redis_other_replies_abort) simp_all

text \<open>A reply with a negative length after a status line: the loop moves back to the status line.\<close>

definition backward_reply :: iovec where
  "backward_reply = mk_iov (''+OK'' @ CRLF @ ''$-13'' @ CRLF) 11"

lemma parse_backward:
  "parse_string (iov_base backward_reply) 11 = Inr 5"
  "parse_bulk_string (drop 5 (iov_base backward_reply)) 6 = Inr (- 5)"
  by (simp_all add: backward_reply_def parse_string_def parse_bulk_string_def memchr_index_of
      s32_def atoi_def is_space_def is_digit_def digit_val_def int_range_def)

lemma redis_kv_loop_backward:
  assumes "redis_kv_loop v b res = Some r"
  shows "v = backward_reply \<longrightarrow> b \<noteq> 11 \<and> b \<noteq> 6"
proof (rule redis_kv_loop.raw_induct
    [where P = "\<lambda>v b _ _. v = backward_reply \<longrightarrow> b \<noteq> 11 \<and> b \<noteq> 6", OF _ assms])
  fix loop v b res r
  assume ih: "\<And>v b res r. loop v b res = Some r \<Longrightarrow> v = backward_reply \<longrightarrow> b \<noteq> 11 \<and> b \<noteq> 6"
    and eq: "(if b = 0 then Some (Inr res)
      else
        let i = int (iov_len v) - b in
        if i < 0 \<or> int (length (iov_base v)) \<le> i then Some (Inl OutOfBounds)
        else
          let buf = drop (nat i) (iov_base v) in
          case (if buf ! 0 = CHR ''+'' then parse_string buf b
                else if buf ! 0 = CHR ''$'' then parse_bulk_string buf b
                else Inl AssertFail) of
            Inl e \<Rightarrow> Some (Inl e)
          | Inr processed \<Rightarrow>
              if processed = 0 then Some (Inr res)
              else case int_range (b - processed) of
                Inl e \<Rightarrow> Some (Inl e)
              | Inr b \<Rightarrow> loop v b (res + BRP (of_int processed) 1)) = Some r"
  have base: "length (iov_base backward_reply) = 11" "iov_len backward_reply = 11"
    "iov_base backward_reply ! 0 = CHR ''+''" "iov_base backward_reply ! 5 = CHR ''$''"
    by (simp_all add: backward_reply_def)
  have r: "int_range 6 = Inr 6" "int_range 11 = Inr 11"
    by (simp_all add: int_range_def)
  show "v = backward_reply \<longrightarrow> b \<noteq> 11 \<and> b \<noteq> 6"
  proof (intro impI conjI notI)
    assume v: "v = backward_reply" and "b = 11"
    then have "loop v 6 (res + BRP 5 1) = Some r"
      using eq v parse_backward base r by (simp add: Let_def)
    with ih v show False by blast
  next
    assume v: "v = backward_reply" and "b = 6"
    then have "loop v 11 (res + BRP (- 5) 1) = Some r"
      using eq v parse_backward base r by (simp add: Let_def)
    with ih v show False by blast
  qed
qed

text \<open>
  Property C40. A bulk reply that announces a negative length other than -1 can make the consumer
  run forever: on \<open>+OK\<close> followed by \<open>$-13\<close> its loop alternates between the two for ever, growing
  the request count.
\<close>

theorem redis_negative_length_diverges:
  "redis_kv_consume_response backward_reply = Inl Diverges"
proof -
  have "redis_kv_loop backward_reply 11 0 = None"
    using redis_kv_loop_backward [of backward_reply 11 0] by (cases "redis_kv_loop backward_reply 11 0") auto
  then show ?thesis
    by (simp add: redis_kv_consume_response_def backward_reply_def)
qed

subsection \<open>Requests on the wire\<close>

text \<open>
  The server's side of RESP: a request is an array of bulk strings, each announced by its length.
\<close>

definition resp_number :: "bytes \<Rightarrow> (nat \<times> bytes) option" where
  "resp_number xs =
     (let ds = takeWhile is_digit xs; rest = dropWhile is_digit xs in
      if ds \<noteq> [] \<and> take 2 rest = CRLF
      then Some (foldl (\<lambda>a c. 10 * a + digit_val c) 0 ds, drop 2 rest) else None)"

definition resp_bulk :: "bytes \<Rightarrow> (bytes \<times> bytes) option" where
  "resp_bulk xs =
     (if take 1 xs \<noteq> ''$'' then None
      else case resp_number (drop 1 xs) of
        None \<Rightarrow> None
      | Some (n, rest) \<Rightarrow>
          if n + 2 \<le> length rest \<and> take 2 (drop n rest) = CRLF
          then Some (take n rest, drop (n + 2) rest) else None)"

fun resp_bulks :: "nat \<Rightarrow> bytes \<Rightarrow> (bytes list \<times> bytes) option" where
  "resp_bulks 0 xs = Some ([], xs)"
| "resp_bulks (Suc n) xs =
     (case resp_bulk xs of
        None \<Rightarrow> None
      | Some (b, rest) \<Rightarrow> map_option (\<lambda>(bs, rest'). (b # bs, rest')) (resp_bulks n rest))"

definition resp_array :: "bytes \<Rightarrow> (bytes list \<times> bytes) option" where
  "resp_array xs =
     (if take 1 xs \<noteq> ''*'' then None
      else case resp_number (drop 1 xs) of None \<Rightarrow> None | Some (n, rest) \<Rightarrow> resp_bulks n rest)"

lemma resp_number_show: "resp_number (show_nat n @ CR # LF # rest) = Some (n, rest)"
proof -
  have d: "\<forall>c \<in> set (show_nat n). is_digit c" using show_nat_is_digit by blast
  then have t: "takeWhile is_digit (show_nat n @ CR # LF # rest) = show_nat n"
    and r: "dropWhile is_digit (show_nat n @ CR # LF # rest) = CR # LF # rest"
    by (simp_all add: takeWhile_append2 dropWhile_append2 not_digit_CR)
  show ?thesis
    unfolding resp_number_def Let_def t r by (simp add: foldl_show_nat)
qed

lemma resp_bulk_encoded:
  "resp_bulk (CHR ''$'' # show_nat (length s) @ CR # LF # s @ CR # LF # rest) = Some (s, rest)"
  by (simp add: resp_bulk_def resp_number_show)

lemma resp_prefixes:
  "resp_array (''*3'' @ CRLF @ xs) = resp_bulks 3 xs"
  "resp_array (''*2'' @ CRLF @ xs) = resp_bulks 2 xs"
  "resp_bulk (''$3'' @ CRLF @ ''SET'' @ CRLF @ xs) = Some (''SET'', xs)"
  "resp_bulk (''$3'' @ CRLF @ ''GET'' @ CRLF @ xs) = Some (''GET'', xs)"
  by (simp_all add: resp_array_def resp_bulk_def resp_number_def is_digit_def digit_val_def)

lemma show_int_nat [simp]: "show_int (int n) = show_nat n"
  by (simp add: show_int_def)

lemma redis_request_of_key:
  assumes "pick_key info e = Inr (k, e1)" and "iov_ok k" and "kv_sizes_ok info" and "pick_write info e1 = (w, e2)"
    and "redis_kv_create_request info e req = Inr (req', e')"
  shows "request_ok req' \<and>
    (if w then \<exists>n \<le> MAX_VAL_SIZE. pick_val_len info e2 = Inr (int n, e') \<and>
         resp_array (request_payload req') = Some ([''SET'', iov_data k, replicate n (CHR ''x'')], [])
     else e' = e2 \<and> resp_array (request_payload req') = Some ([''GET'', iov_data k], []))"
proof -
  have kl: "show_nat (iov_len k) = show_nat (length (iov_data k))" using assms(2) by simp
  let ?ln = "mk_iov (CRLF @ [NUL]) 2" and ?ks = "show_nat (iov_len k)"
  show ?thesis
  proof (cases w)
    case False
    then have r: "req' = req\<lparr>iovs := [mk_iov (get_prem @ [NUL]) 14, mk_iov (cstr ?ks) (length ?ks), ?ln, k, ?ln],
        iov_cnt := 5\<rparr>" "e' = e2"
      using assms by (simp_all add: redis_kv_create_request_def Let_def)
    then have "request_payload req' = ''*2'' @ CRLF @ ''$3'' @ CRLF @ ''GET'' @ CRLF @
        CHR ''$'' # show_nat (length (iov_data k)) @ CR # LF # iov_data k @ CR # LF # []"
      by (simp add: request_payload_def cstr_def kl)
    then have "resp_array (request_payload req') = Some ([''GET'', iov_data k], [])"
      by (simp only: resp_prefixes resp_bulks.simps resp_bulk_encoded numeral_2_eq_2
          option.case prod.case) simp
    with r False assms(2) show ?thesis by (auto simp: request_ok_def cstr_def)
  next
    case True
    obtain n e3 where n: "pick_val_len info e2 = Inr (n, e3)"
      using assms True by (auto simp: redis_kv_create_request_def bindE_eq_Inr Let_def)
    obtain m where m: "n = int m" "m \<le> MAX_VAL_SIZE" "size_of_int n = m"
      using pick_val_len_ok [OF assms(3) n] by blast
    let ?v = "replicate m (CHR ''x'')"
    have r: "req' = req\<lparr>iovs := [mk_iov (set_prem @ [NUL]) 14, mk_iov (cstr ?ks) (length ?ks), ?ln, k, ?ln,
        mk_iov (''$'' @ [NUL]) 1, mk_iov (cstr (show_nat m)) (length (show_nat m)), ?ln,
        mk_iov random_char m, ?ln], iov_cnt := 10\<rparr>" "e' = e3"
      using assms True n m by (simp_all add: redis_kv_create_request_def Let_def)
    then have "request_payload req' = ''*3'' @ CRLF @ ''$3'' @ CRLF @ ''SET'' @ CRLF @
        CHR ''$'' # show_nat (length (iov_data k)) @ CR # LF # iov_data k @ CR # LF #
        CHR ''$'' # show_nat (length ?v) @ CR # LF # ?v @ CR # LF # []"
      using m(2) by (simp add: request_payload_def cstr_def kl)
    then have "resp_array (request_payload req') = Some ([''SET'', iov_data k, ?v], [])"
      by (simp only: resp_prefixes resp_bulks.simps resp_bulk_encoded numeral_3_eq_3
          option.case prod.case) simp
    with r True n m assms(2) show ?thesis by (auto simp: request_ok_def cstr_def)
  qed
qed

text \<open>
  Property C22. Every request of the Redis workload is one well-formed RESP array that a server
  decodes to \<open>GET key\<close> or \<open>SET key value\<close> for one of the workload's keys, with nothing left over.
\<close>

theorem redis_requests_decode:
  assumes "kv_wf info" and "kv_sizes_ok info"
    and "redis_kv_create_request info e req = Inr (req', e')"
  shows "request_ok req' \<and> (\<exists>k \<in> set (keys (kv_key info)).
    resp_array (request_payload req') = Some ([''GET'', iov_data k], []) \<or>
    (\<exists>n \<le> MAX_VAL_SIZE. resp_array (request_payload req') =
       Some ([''SET'', iov_data k, replicate n (CHR ''x'')], [])))"
proof -
  obtain k e1 where k: "pick_key info e = Inr (k, e1)" "k \<in> set (keys (kv_key info))" "iov_ok k"
    using pick_key_wf [OF assms(1)] by blast
  obtain w e2 where w: "pick_write info e1 = (w, e2)" by fastforce
  from redis_request_of_key [OF k(1,3) assms(2) w assms(3)] k(2) show ?thesis
    by (cases w) auto
qed

theorem redis_requests_decode_witness:
  "\<exists>req' e'. redis_kv_create_request (one_key_info (- 1)) start_env empty_request = Inr (req', e') \<and>
     request_ok req' \<and>
     (resp_array (request_payload req') = Some ([''GET'', ''k''], []) \<or>
      (\<exists>n \<le> MAX_VAL_SIZE. resp_array (request_payload req') =
         Some ([''SET'', ''k'', replicate n (CHR ''x'')], [])))"
proof -
  obtain e1 where "pick_key (one_key_info (- 1)) start_env = Inr (mk_iov ''k'' 1, e1)"
    using one_key_pick by blast
  then obtain req' e' where
    c: "redis_kv_create_request (one_key_info (- 1)) start_env empty_request = Inr (req', e')"
    by (simp add: redis_kv_create_request_def one_key_write one_key_val_len Let_def)
  have "set (keys (kv_key (one_key_info (- 1)))) = {mk_iov ''k'' 1}"
    by (simp add: one_key_info_def)
  with redis_requests_decode [OF one_key_wf one_key_sizes_ok c] c show ?thesis
    by simp
qed

subsection \<open>YCSB-E requests\<close>

lemma length_fill_body: "length (fill_body i n) = i * (n + 1)"
  by (induction i) simp_all

lemma c_rand_mod_range:
  "0 < m \<Longrightarrow> \<exists>r e'. c_rand_mod m e = Inr (r, e') \<and> 0 \<le> r \<and> r < m"
  by (auto simp: c_rand_mod_def split: prod.split)

definition ycsbe_scan_text :: "int \<Rightarrow> int \<Rightarrow> bytes" where
  "ycsbe_scan_text key n = ''ycsbe.scan '' @ show_int key @ '' '' @ show_int n @ [LF]"

definition ycsbe_insert_text :: "int \<Rightarrow> bytes \<Rightarrow> bytes" where
  "ycsbe_insert_text key body = ''ycsbe.insert '' @ show_int key @ '' '' @ body"

text \<open>
  With the workload \<open>redis-ycsbe\<close> every request is a scan of 1 to 10 records from, or
  an insert of a 1010-byte body at, a key below 1000000, and the builder never fails.
\<close>

theorem redis_ycsbe_requests:
  assumes "\<not> has_prefix proto ''redis-ycsber''"
  shows "\<exists>req' e' key. redis_ycsbe_create_request (init_redis_ycsbe proto) e req = Inr (req', e') \<and>
    request_ok req' \<and> 0 \<le> key \<and> key < 1000000 \<and>
    ((\<exists>n. 1 \<le> n \<and> n \<le> 10 \<and> request_payload req' = ycsbe_scan_text key n) \<or>
     (\<exists>body. length body = 1010 \<and> last body = LF \<and> request_payload req' = ycsbe_insert_text key body))"
proof -
  let ?i = "init_redis_ycsbe proto"
  obtain key e1 where key: "c_rand_mod 1000000 e = Inr (key, e1)" "0 \<le> key" "key < 1000000"
    using c_rand_mod_range [of 1000000 e] by auto
  obtain y e2 where y: "env_drand48 e1 = (y, e2)" by fastforce
  have i: "ycsbe_key_count ?i = 1000000" "scan_len ?i = 10" "\<not> replicated ?i"
    "field_count ?i * (field_size ?i + 1) = 1010" "length (fixed_req_body ?i) = 1010"
    using assms by (simp_all add: init_redis_ycsbe_def Let_def length_fill_body)
  show ?thesis
  proof (cases "y \<le> scan_ratio ?i")
    case True
    obtain r e3 where r: "c_rand_mod 10 e2 = Inr (r, e3)" "0 \<le> r" "r < 10"
      using c_rand_mod_range [of 10 e2] by auto
    let ?req = "req\<lparr>iovs := [mk_iov (cstr ''ycsbe.scan '') 11,
        mk_iov (cstr (show_int key @ '' '')) (length (show_int key @ '' '')),
        mk_iov (cstr (show_int (r + 1) @ [LF])) (length (show_int (r + 1) @ [LF]))],
        iov_cnt := 3, meta := 0\<rparr>"
    have "redis_ycsbe_create_request ?i e req = Inr (?req, e3)"
      using True key r y i by (simp add: redis_ycsbe_create_request_def Let_def)
    moreover have "request_payload ?req = ycsbe_scan_text key (r + 1)" "request_ok ?req"
      by (simp_all add: request_payload_def request_ok_def cstr_def ycsbe_scan_text_def)
    moreover have "1 \<le> r + 1" "r + 1 \<le> 10" using r by simp_all
    ultimately show ?thesis using key(2,3) by blast
  next
    case False
    let ?b = "fixed_req_body ?i"
    let ?req = "req\<lparr>iovs := [mk_iov (cstr ''ycsbe.insert '') 13,
        mk_iov (cstr (show_int key @ '' '')) (length (show_int key @ '' '')), mk_iov ?b 1010],
        iov_cnt := 3, meta := 0\<rparr>"
    have "redis_ycsbe_create_request ?i e req = Inr (?req, e2)"
      using False key y i by (simp add: redis_ycsbe_create_request_def Let_def)
    moreover have "request_payload ?req = ycsbe_insert_text key ?b" "request_ok ?req"
      using i by (simp_all add: request_payload_def request_ok_def cstr_def ycsbe_insert_text_def)
    moreover have "last ?b = LF"
    proof -
      have "fill_body 10 100 \<noteq> []" using length_fill_body [of 10 100] by auto
      then show ?thesis
        by (simp add: init_redis_ycsbe_def Let_def last_conv_nth)
    qed
    ultimately show ?thesis using key(2,3) i(5) by blast
  qed
qed

theorem redis_ycsbe_requests_witness:
  "\<exists>req' e' key. redis_ycsbe_create_request (init_redis_ycsbe ''redis-ycsbe'') start_env empty_request =
      Inr (req', e') \<and>
    request_ok req' \<and> 0 \<le> key \<and> key < 1000000 \<and>
    ((\<exists>n. 1 \<le> n \<and> n \<le> 10 \<and> request_payload req' = ycsbe_scan_text key n) \<or>
     (\<exists>body. length body = 1010 \<and> last body = LF \<and> request_payload req' = ycsbe_insert_text key body))"
  by (rule redis_ycsbe_requests) (simp add: has_prefix_def)

end
