(* ===== verification/Agent.thy ===== *)
theory Agent
  imports Rand_Gen Response_Frames
begin

section \<open>The agent's configuration and its shared control block (\<open>agents/agent.c\<close>, \<open>inc/lancet/agent.h\<close>)\<close>

text \<open>
  The configuration an agent thread reads, the control block the manager writes, the accessors
  the transports call, and the application protocol as the table of functions a transport uses
  (\<open>struct application_protocol\<close> of \<open>inc/lancet/app_proto.h\<close>).
\<close>

subsection \<open>The application protocol's function table\<close>

datatype app_proto_type =
    PROTO_ECHO | PROTO_SYNTHETIC | PROTO_REDIS | PROTO_REDIS_YCSBE | PROTO_MEMCACHED_BIN
  | PROTO_MEMCACHED_ASCII | PROTO_HTTP | PROTO_STSS

text \<open>
  \<open>arg\<close> is closed over by the two functions; a null function pointer is \<open>None\<close>. What a builder
  draws comes from the thread's \<open>rand_env\<close>.
\<close>

record application_protocol =
  proto_type :: app_proto_type
  create_request_fn :: "rand_env \<Rightarrow> request \<Rightarrow> (request \<times> rand_env) result"
  consume_response_fn :: "(iovec \<Rightarrow> byte_req_pair result) option"

definition create_request ::
  "application_protocol \<Rightarrow> rand_env \<Rightarrow> request \<Rightarrow> (request \<times> rand_env) result" where
  "create_request proto e req = create_request_fn proto e req"

definition consume_response :: "application_protocol \<Rightarrow> iovec \<Rightarrow> byte_req_pair result" where
  "consume_response proto resp =
     (case consume_response_fn proto of None \<Rightarrow> Inl NullDeref | Some f \<Rightarrow> f resp)"

subsection \<open>Configuration and control block\<close>

datatype agent_type =
    THROUGHPUT_AGENT | LATENCY_AGENT | SYMMETRIC_NIC_TIMESTAMP_AGENT | SYMMETRIC_AGENT

datatype transport_protocol_type = TCP | R2P2 | UDP | TLS

record host_tuple =
  ip :: u32
  port :: u16

record agent_config =
  thread_count :: int
  conn_count :: int
  targets :: "host_tuple list"
  target_count :: int
  atype :: agent_type
  tp_type :: transport_protocol_type
  idist :: rand_gen
  app_proto :: application_protocol
  if_name :: string
  per_conn_reqs :: int

record agent_control_block =
  acb_idist :: rand_gen
  acb_should_load :: int
  acb_should_measure :: int
  acb_thread_count :: int
  acb_agent_type :: agent_type
  acb_per_thread_samples :: u32
  acb_sampling :: double
  acb_conn_open :: int

text \<open>
  \<open>configure_control_block\<close>: the block is zeroed, then filled from the configuration; from here
  on the configuration's distribution is the block's, so that the manager can change the load.
\<close>

definition configure_control_block :: "agent_config \<Rightarrow> agent_control_block" where
  "configure_control_block cfg =
     \<lparr>acb_idist = idist cfg, acb_should_load = 0, acb_should_measure = 0,
      acb_thread_count = thread_count cfg, acb_agent_type = atype cfg, acb_per_thread_samples = 0,
      acb_sampling = 0, acb_conn_open = 0\<rparr>"

definition should_load :: "agent_control_block \<Rightarrow> bool" where
  "should_load acb \<longleftrightarrow> acb_should_load acb \<noteq> 0"

definition should_measure :: "agent_control_block \<Rightarrow> bool" where
  "should_measure acb \<longleftrightarrow> acb_should_measure acb \<noteq> 0"

definition get_sampling_rate :: "agent_control_block \<Rightarrow> double" where
  "get_sampling_rate acb = acb_sampling acb"

definition set_conn_open :: "int \<Rightarrow> agent_control_block \<Rightarrow> agent_control_block" where
  "set_conn_open val acb = acb\<lparr>acb_conn_open := val\<rparr>"

definition get_max_pending_reqs :: "agent_config \<Rightarrow> int" where
  "get_max_pending_reqs cfg = per_conn_reqs cfg"

text \<open>The connections of one thread; the quotient of two \<open>int\<close>.\<close>

definition conn_per_thread :: "agent_config \<Rightarrow> int result" where
  "conn_per_thread cfg =
     (if thread_count cfg = 0 then Inl DivByZero
      else Inr (sgn (conn_count cfg) * sgn (thread_count cfg) *
        (\<bar>conn_count cfg\<bar> div \<bar>thread_count cfg\<bar>)))"

text \<open>The time to the next request in nanoseconds; the distribution is in microseconds.\<close>

definition get_ia :: "agent_control_block \<Rightarrow> rand_env \<Rightarrow> (int \<times> rand_env) result" where
  "get_ia acb e = bindE (generate (acb_idist acb) e) (\<lambda>(v, e'). Inr (lround (v * 1000), e'))"

subsection \<open>Requests and responses\<close>

definition prepare_request ::
  "agent_config \<Rightarrow> rand_env \<Rightarrow> request \<Rightarrow> (request \<times> rand_env) result" where
  "prepare_request cfg e to_send = create_request (app_proto cfg) e to_send"

text \<open>A negative \<open>size\<close> becomes a huge \<open>iov_len\<close>.\<close>

definition process_response :: "agent_config \<Rightarrow> bytes \<Rightarrow> int \<Rightarrow> byte_req_pair result" where
  "process_response cfg buf sz = consume_response (app_proto cfg) (mk_iov buf (size_of_int sz))"

lemma conn_per_thread_pos:
  "0 \<le> conn_count cfg \<Longrightarrow> 0 < thread_count cfg \<Longrightarrow>
   conn_per_thread cfg = Inr (conn_count cfg div thread_count cfg)"
  by (cases "conn_count cfg = 0") (simp_all add: conn_per_thread_def sgn_if)

end
