(* ===== verification/Simple_Protocols.thy ===== *)
theory Simple_Protocols
  imports KV_Workload Agent
begin

section \<open>Echo, synthetic and STSS protocols (\<open>agents/app_proto.c\<close>)\<close>

text \<open>
  The three protocols without a key-value store. Echo and synthetic cut the stream into messages
  of a fixed size and keep the laws of \<open>response_protocol\<close>; the consumer of STSS does not.
\<close>

subsection \<open>Echo\<close>

definition echo_create_request :: "iovec \<Rightarrow> rand_env \<Rightarrow> request \<Rightarrow> (request \<times> rand_env) result" where
  "echo_create_request fixed_req e req =
     Inr (req\<lparr>iovs := [fixed_req], iov_cnt := 1, meta := 0\<rparr>, e)"

text \<open>\<open>uint64_t\<close> and \<open>size_t\<close> arithmetic; \<open>res.reqs\<close> is the quotient.\<close>

definition echo_consume_response :: "iovec \<Rightarrow> iovec \<Rightarrow> byte_req_pair result" where
  "echo_consume_response msg response =
     (if iov_len msg = 0 then Inl DivByZero
      else let reqs = of_nat (iov_len response div iov_len msg)
        in Inr (BRP (reqs * of_nat (iov_len msg)) reqs))"

text \<open>
  \<open>echo:<n>\<close>. A negative \<open>n\<close> is a huge \<open>size_t\<close> that \<open>malloc\<close> cannot give.
\<close>

definition echo_init :: "string \<Rightarrow> application_protocol result" where
  "echo_init proto =
     (let (_, p) = strtok_r '':'' proto; (token, _) = strtok_r '':'' p in
      bindE (atoi_ptr token) (\<lambda>message_len.
      bindE (assertE (0 \<le> message_len)) (\<lambda>_.
        let arg = mk_iov (replicate (nat message_len) (CHR ''#'')) (nat message_len) in
        Inr \<lparr>proto_type = PROTO_ECHO, create_request_fn = echo_create_request arg,
             consume_response_fn = Some (echo_consume_response arg)\<rparr>)))"

subsection \<open>Synthetic\<close>

text \<open>The request is the thread's \<open>per_thread_arg\<close>, a \<open>long\<close> in memory order.\<close>

definition synthetic_create_request ::
  "rand_gen \<Rightarrow> rand_env \<Rightarrow> request \<Rightarrow> (request \<times> rand_env) result" where
  "synthetic_create_request generator e req =
     bindE (generate generator e) (\<lambda>(v, e).
       Inr (req\<lparr>iovs := [mk_iov (store64 (of_int (lround v))) 8], iov_cnt := 1, meta := 0\<rparr>, e))"

definition synthetic_consume_response :: "iovec \<Rightarrow> byte_req_pair result" where
  "synthetic_consume_response response =
     (let reqs = of_nat (iov_len response div 8) in Inr (BRP (reqs * 8) reqs))"

text \<open>\<open>strtok(NULL, "")\<close> takes the rest of the string.\<close>

definition synthetic_init :: "string \<Rightarrow> application_protocol result" where
  "synthetic_init proto =
     (let (_, p) = strtok_r '':'' proto; (token, _) = strtok_r '''' p in
      bindE (bindE (init_rand_ptr token) assert_ptr) (\<lambda>gen.
        Inr \<lparr>proto_type = PROTO_SYNTHETIC, create_request_fn = synthetic_create_request gen,
             consume_response_fn = Some synthetic_consume_response\<rparr>))"

subsection \<open>STSS\<close>

record stss_data =
  time_gen :: rand_gen
  req_size_gen :: rand_gen
  rep_size_gen :: rand_gen
  stss_replicated :: bool
  read_ratio :: double

definition stss_create_request :: "stss_data \<Rightarrow> rand_env \<Rightarrow> request \<Rightarrow> (request \<times> rand_env) result" where
  "stss_create_request data e req =
     bindE (generate (time_gen data) e) (\<lambda>(v0, e).
     bindE (generate (req_size_gen data) e) (\<lambda>(v1, e).
     bindE (generate (rep_size_gen data) e) (\<lambda>(v2, e).
       let payload = concat (map (\<lambda>v. store64 (of_int (lround v))) [v0, v1, v2]) in
       bindE (assertE (\<not> stss_replicated data)) (\<lambda>_.
         Inr (req\<lparr>iovs := [mk_iov payload 24, mk_iov random_char (size_of_int (lround v1))],
                  iov_cnt := 2, meta := 0\<rparr>, e)))))"

text \<open>
  The consumer's loop. Its \<open>int processed\<close> is never initialised: the value it happens to have is
  a parameter. The comparisons are of a \<open>long\<close> with a \<open>size_t\<close>, so they are unsigned; nothing
  bounds the reads by the bytes received.
\<close>

partial_function (option) stss_loop ::
  "bytes \<Rightarrow> nat \<Rightarrow> int \<Rightarrow> byte_req_pair \<Rightarrow> byte_req_pair result option" where
  "stss_loop tmp len processed res =
     (if processed < 0 \<or> int (length tmp) < processed + 8 then Some (Inl OutOfBounds)
      else
        let payload_size = load64 (drop (nat processed) tmp); processed = s32 (processed + 8) in
        if payload_size < of_nat len - of_int processed then Some (Inr res)
        else
          let processed = s32 (processed + sint payload_size); res = res + BRP (8 + payload_size) 1 in
          if 8 < (of_nat len - of_int processed :: u64) then Some (Inr res)
          else stss_loop tmp len processed res)"

definition stss_consume_response :: "int \<Rightarrow> iovec \<Rightarrow> byte_req_pair result" where
  "stss_consume_response garbage response =
     bindE (assertE (8 \<le> iov_len response)) (\<lambda>_.
       case stss_loop (iov_base response) (iov_len response) garbage 0 of
         None \<Rightarrow> Inl Diverges | Some r \<Rightarrow> r)"

text \<open>\<open>stss_<time>_<request size>_<reply size>\<close>, or \<open>stssr\<close> with the read ratio as a last part.\<close>

definition stss_init :: "int \<Rightarrow> string \<Rightarrow> application_protocol result" where
  "stss_init garbage proto =
     (let (token, p) = strtok_r ''_'' proto in
      case token of
        None \<Rightarrow> Inl NullDeref
      | Some tok \<Rightarrow>
          bindE (assertE (has_prefix tok ''stss'')) (\<lambda>_.
          let replicated = has_prefix tok ''stssr''; (token, p) = strtok_r ''_'' p in
          bindE (bindE (init_rand_ptr token) assert_ptr) (\<lambda>tg.
          let (token, p) = strtok_r ''_'' p in
          bindE (bindE (init_rand_ptr token) assert_ptr) (\<lambda>qg.
          let (token, p) = strtok_r ''_'' p in
          bindE (bindE (init_rand_ptr token) assert_ptr) (\<lambda>rg.
          bindE (if replicated then atof_ptr (fst (strtok_r ''_'' p)) else Inr 0) (\<lambda>ratio.
            let data = \<lparr>time_gen = tg, req_size_gen = qg, rep_size_gen = rg,
                        stss_replicated = replicated, read_ratio = ratio\<rparr> in
            Inr \<lparr>proto_type = PROTO_STSS, create_request_fn = stss_create_request data,
                 consume_response_fn = Some (stss_consume_response garbage)\<rparr>))))))"

subsection \<open>Messages of a fixed size\<close>

definition fixed_frame :: "nat \<Rightarrow> bytes \<Rightarrow> nat" where
  "fixed_frame n xs = (if n \<le> length xs then n else 0)"

lemma fixed_frames: "0 < n \<Longrightarrow> frames (fixed_frame n) xs = (n * (length xs div n), length xs div n)"
proof (induction "length xs" arbitrary: xs rule: less_induct)
  case less
  show ?case
  proof (cases "n \<le> length xs")
    case True
    then have "frames (fixed_frame n) (drop n xs) =
        (n * (length (drop n xs) div n), length (drop n xs) div n)"
      using less by simp
    moreover have "length xs div n = Suc ((length xs - n) div n)"
      using True less.prems by (simp add: le_div_geq)
    ultimately show ?thesis
      using True less.prems by (subst frames.simps) (simp add: fixed_frame_def)
  next
    case False
    then show ?thesis by (subst frames.simps) (simp add: fixed_frame_def)
  qed
qed

lemma echo_consume_eq:
  "0 < k \<Longrightarrow> iov_ok v \<Longrightarrow>
   echo_consume_response (mk_iov m k) v = Inr (to_brp (frames (fixed_frame k) (iov_data v)))"
  by (cases "k = 0") (simp_all only: echo_consume_response_def to_brp_def fixed_frames iov_sel
      length_iov_data Let_def of_nat_mult mult.commute fst_conv snd_conv if_False less_irrefl)

interpretation echo: response_protocol "fixed_frame (Suc n)" "echo_consume_response (mk_iov m (Suc n))" "\<lambda>_. True"
  for n m
proof
  fix xs ys :: bytes and v :: iovec
  show "fixed_frame (Suc n) xs \<le> length xs" by (simp add: fixed_frame_def)
  show "fixed_frame (Suc n) xs \<noteq> 0 \<Longrightarrow> fixed_frame (Suc n) (xs @ ys) = fixed_frame (Suc n) xs"
    by (simp add: fixed_frame_def split: if_splits)
  assume "iov_ok v"
  then show "echo_consume_response (mk_iov m (Suc n)) v = Inr (to_brp (frames (fixed_frame (Suc n)) (iov_data v)))"
    by (rule echo_consume_eq [OF zero_less_Suc])
qed (rule TrueI)+

interpretation synthetic: response_protocol "fixed_frame 8" synthetic_consume_response "\<lambda>_. True"
proof
  fix xs ys :: bytes and v :: iovec
  show "fixed_frame 8 xs \<le> length xs" by (simp add: fixed_frame_def)
  show "fixed_frame 8 xs \<noteq> 0 \<Longrightarrow> fixed_frame 8 (xs @ ys) = fixed_frame 8 xs"
    by (simp add: fixed_frame_def split: if_splits)
  assume "iov_ok v"
  then show "synthetic_consume_response v = Inr (to_brp (frames (fixed_frame 8) (iov_data v)))"
    unfolding synthetic_consume_response_def fixed_frames [of 8, simplified] to_brp_def
    by (simp add: Let_def)
qed (rule TrueI)+

subsection \<open>The consumer of STSS\<close>

lemma u64_diff_of_int:
  "int k \<le> int n \<Longrightarrow> n < 2 ^ 63 \<Longrightarrow> (of_nat n - of_int (int k) :: u64) = of_nat (n - k)"
  by (simp add: of_nat_diff)

lemma u64_of_nat_less: "a < 2 ^ 64 \<Longrightarrow> b < 2 ^ 64 \<Longrightarrow> (of_nat a :: u64) < of_nat b \<longleftrightarrow> a < b"
  by (simp add: word_less_nat_alt unat_of_nat_id)

lemma sint_u64_of_nat: "p < 2 ^ 31 \<Longrightarrow> sint (of_nat p :: u64) = int p"
  by (simp add: signed_of_nat signed_take_bit_int_eq_self)

text \<open>
  Even if \<open>processed\<close> happens to be 0, the STSS consumer counts no response whenever the
  buffer holds more than the first one, and counts an incomplete first response as complete, with
  more bytes than were received.
\<close>

theorem stss_miscounts:
  assumes "8 \<le> len" and "len < 2 ^ 31" and "len \<le> length mem" and "load64 mem = of_nat p" and "p < 2 ^ 30"
  shows "(8 + p < len \<longrightarrow> stss_consume_response 0 (mk_iov mem len) = Inr 0) \<and>
    (len < 8 + p \<longrightarrow> stss_consume_response 0 (mk_iov mem len) = Inr (to_brp (8 + p, 1)))"
proof -
  have s: "s32 8 = 8" "s32 (8 + int p) = 8 + int p" using assms(5) by (simp_all add: s32_id)
  have first: "(of_nat p :: u64) < of_nat len - 8 \<longleftrightarrow> 8 + p < len"
  proof -
    have e: "(of_nat len - 8 :: u64) = of_nat (len - 8)" using assms(1) by (simp add: of_nat_diff)
    have "len - 8 < 2 ^ 64" "p < 2 ^ 64" using assms(2,5) by simp_all
    then have "(of_nat p :: u64) < of_nat (len - 8) \<longleftrightarrow> p < len - 8" by (intro u64_of_nat_less)
    then show ?thesis unfolding e using assms(1) by linarith
  qed
  have last: "(8 :: u64) < of_nat len - of_int (8 + int p)" if "len < 8 + p"
  proof -
    have "of_nat len - of_int (8 + int p) = (- of_nat (8 + p - len) :: u64)"
      using that by (simp add: of_nat_diff)
    also have "\<dots> = of_nat (2 ^ 64 - (8 + p - len))"
      using assms(5) by (simp add: of_nat_diff)
    finally have e: "of_nat len - of_int (8 + int p) = (of_nat (2 ^ 64 - (8 + p - len)) :: u64)" .
    have "(of_nat 8 :: u64) < of_nat (2 ^ 64 - (8 + p - len)) \<longleftrightarrow> 8 < 2 ^ 64 - (8 + p - len)"
      using that by (intro u64_of_nat_less) simp_all
    then show ?thesis unfolding e using assms(5) by simp
  qed
  have run: "stss_loop mem len 0 0 =
      (if 8 + p < len then Some (Inr 0)
       else if (8 :: u64) < of_nat len - of_int (8 + int p) then Some (Inr (0 + BRP (8 + of_nat p) 1))
       else stss_loop mem len (8 + int p) (0 + BRP (8 + of_nat p) 1))"
    using assms s first
    by (subst stss_loop.simps) (simp add: sint_u64_of_nat Let_def)
  show ?thesis
    using assms(1) last
    by (simp add: stss_consume_response_def run to_brp_def del: of_nat_add) simp
qed

theorem stss_miscounts_witness:
  "stss_consume_response 0 (mk_iov (store64 1 @ ''a'' @ store64 1 @ ''b'') 18) = Inr 0 \<and>
   stss_consume_response 0 (mk_iov (store64 5 @ ''abc'') 11) = Inr (to_brp (13, 1))"
proof
  have l: "load64 (store64 1 @ xs) = of_nat 1" "load64 (store64 5 @ xs) = of_nat 5" for xs
    by (simp_all add: load64_def store64_def le_val_le_bytes)
  from stss_miscounts [OF _ _ _ l(1), of 18 "''a'' @ store64 1 @ ''b''"]
  show "stss_consume_response 0 (mk_iov (store64 1 @ ''a'' @ store64 1 @ ''b'') 18) = Inr 0" by simp
  from stss_miscounts [OF _ _ _ l(2), of 11 "''abc''"]
  show "stss_consume_response 0 (mk_iov (store64 5 @ ''abc'') 11) = Inr (to_brp (13, 1))" by simp
qed

end
