(* ===== verification/Pico_Http.thy ===== *)
theory Pico_Http
  imports C_Library
begin

section \<open>The HTTP response parser (\<open>agents/picohttpparser.c\<close>)\<close>

text \<open>
  The routines behind \<open>phr_parse_response\<close>, as compiled without SSE. A parser works on a memory
  \<open>mem\<close> with the end \<open>e\<close> of the input and the position \<open>i\<close> of \<open>buf\<close>; pointers into the input are
  positions. It stops with the value of \<open>*ret\<close> (-2: more input is needed, -1: malformed) or is
  done with a result and the new position. Reading past the memory's end is a fault, reading past
  \<open>e\<close> is not.
\<close>

datatype 'a parsed = Done 'a | Stop int

type_synonym 'a phr = "bytes \<Rightarrow> nat \<Rightarrow> nat \<Rightarrow> ('a \<times> nat) parsed result"

subsection \<open>Statements and macros\<close>

definition bindP :: "'a phr \<Rightarrow> ('a \<Rightarrow> 'b phr) \<Rightarrow> 'b phr" where
  "bindP p q mem e i =
     bindE (p mem e i) (\<lambda>r. case r of Stop n \<Rightarrow> Inr (Stop n) | Done (x, j) \<Rightarrow> q x mem e j)"

definition yieldP :: "'a \<Rightarrow> 'a phr" where
  "yieldP x mem e i = Inr (Done (x, i))"

definition stopP :: "int \<Rightarrow> 'a phr" where
  "stopP n mem e i = Inr (Stop n)"

text \<open>\<open>CHECK_EOF\<close>, \<open>*buf\<close>, \<open>++buf\<close>, the pointer \<open>buf\<close>, \<open>EXPECT_CHAR_NO_CHECK\<close> and \<open>EXPECT_CHAR\<close>.\<close>

definition check_eof :: "unit phr" where
  "check_eof mem e i = Inr (if i = e then Stop (- 2) else Done ((), i))"

definition peek :: "char phr" where
  "peek mem e i = (if i < length mem then Inr (Done (mem ! i, i)) else Inl OutOfBounds)"

definition advance :: "unit phr" where
  "advance mem e i = Inr (Done ((), i + 1))"

definition here :: "nat phr" where
  "here mem e i = Inr (Done (i, i))"

definition next_char :: "char phr" where
  "next_char = bindP check_eof (\<lambda>_. peek)"

definition expect_no_check :: "char \<Rightarrow> unit phr" where
  "expect_no_check ch = bindP peek (\<lambda>c. bindP advance (\<lambda>_. if c = ch then yieldP () else stopP (- 1)))"

definition expect :: "char \<Rightarrow> unit phr" where
  "expect ch = bindP check_eof (\<lambda>_. expect_no_check ch)"

definition IS_PRINTABLE_ASCII :: "char \<Rightarrow> bool" where
  "IS_PRINTABLE_ASCII c \<longleftrightarrow> 32 \<le> (of_char c :: nat) \<and> (of_char c :: nat) < 127"

text \<open>The inner test of \<open>get_token_to_eol\<close>: a control character other than HT, or DEL.\<close>

definition is_ctl :: "char \<Rightarrow> bool" where
  "is_ctl c \<longleftrightarrow> (of_char c :: nat) < 32 \<and> (of_char c :: nat) \<noteq> 9 \<or> (of_char c :: nat) = 127"

definition token_char_map :: "nat list" where
  "token_char_map =
     replicate 32 0 @
     [0,1,0,1,1,1,1,1,0,0,1,1,0,1,1,0,1,1,1,1,1,1,1,1,1,1,0,0,0,0,0,0] @
     [0,1,1,1,1,1,1,1,1,1,1,1,1,1,1,1,1,1,1,1,1,1,1,1,1,1,1,0,0,0,1,1] @
     [1,1,1,1,1,1,1,1,1,1,1,1,1,1,1,1,1,1,1,1,1,1,1,1,1,1,1,0,1,0,1,0] @
     replicate 128 0"

definition token_char :: "char \<Rightarrow> bool" where
  "token_char c \<longleftrightarrow> token_char_map ! of_char c \<noteq> 0"

text \<open>
  The parser's loops of the form \<open>for (;; ++buf) { CHECK_EOF(); ... }\<close>: what the body does with
  the character says whether the loop is left, the parser fails, or the loop goes on.
\<close>

datatype loop_act = Leave | Reject | Go

function scan :: "(char \<Rightarrow> loop_act) \<Rightarrow> unit phr" where
  "scan act mem e i =
     (if i = e then Inr (Stop (- 2))
      else if length mem \<le> i then Inl OutOfBounds
      else case act (mem ! i) of
        Leave \<Rightarrow> Inr (Done ((), i))
      | Reject \<Rightarrow> Inr (Stop (- 1))
      | Go \<Rightarrow> scan act mem e (i + 1))"
  by pat_completeness auto
termination by (relation "measure (\<lambda>(act, mem, e, i). length mem - i)") auto

declare scan.simps [simp del]

subsection \<open>\<open>get_token_to_eol\<close>\<close>

text \<open>
  The unrolled loop: \<open>doit n\<close> is \<open>n\<close> copies of \<open>DOIT\<close>, and says whether the position is that of a
  character that is not printable.
\<close>

fun doit :: "nat \<Rightarrow> bytes \<Rightarrow> nat \<Rightarrow> (bool \<times> nat) result" where
  "doit 0 mem i = Inr (False, i)"
| "doit (Suc n) mem i =
     (if length mem \<le> i then Inl OutOfBounds
      else if \<not> IS_PRINTABLE_ASCII (mem ! i) then Inr (True, i)
      else doit n mem (i + 1))"

lemma doit_pos:
  "doit n mem i = Inr (np, j) \<Longrightarrow> i \<le> j \<and> (np \<longrightarrow> j < length mem \<and> j < i + n) \<and> (\<not> np \<longrightarrow> j = i + n)"
  by (induction n mem i rule: doit.induct) (auto split: if_splits)

text \<open>The loop, left at a control character (\<open>True\<close>) or with fewer than eight bytes.\<close>

function scan8 :: "bytes \<Rightarrow> nat \<Rightarrow> nat \<Rightarrow> (bool \<times> nat) result" where
  "scan8 mem e i =
     (if e < i + 8 then Inr (False, i)
      else bindE (doit 8 mem i) (\<lambda>(np, j).
        if \<not> np then scan8 mem e j
        else if is_ctl (mem ! j) then Inr (True, j)
        else scan8 mem e (j + 1)))"
  by pat_completeness auto
termination by (relation "measure (\<lambda>(mem, e, i). e + 8 - i)") (auto dest!: doit_pos)

declare scan8.simps [simp del]

definition ctl_act :: "char \<Rightarrow> loop_act" where
  "ctl_act c = (if \<not> IS_PRINTABLE_ASCII c \<and> is_ctl c then Leave else Go)"

definition find_ctl :: "unit phr" where
  "find_ctl mem e i =
     bindE (scan8 mem e i) (\<lambda>(found, j). if found then Inr (Done ((), j)) else scan ctl_act mem e j)"

text \<open>The result is the token's position and length.\<close>

definition get_token_to_eol :: "(nat \<times> nat) phr" where
  "get_token_to_eol =
     bindP here (\<lambda>start.
     bindP find_ctl (\<lambda>_.
     bindP peek (\<lambda>c.
       if c = CR then
         bindP advance (\<lambda>_. bindP (expect LF) (\<lambda>_. bindP here (\<lambda>i. yieldP (start, i - 2 - start))))
       else if c = LF then bindP here (\<lambda>i. bindP advance (\<lambda>_. yieldP (start, i - start)))
       else stopP (- 1))))"

subsection \<open>The status line\<close>

text \<open>\<open>PARSE_INT\<close>: a digit; the position has moved even if it was none.\<close>

definition parse_int :: "nat \<Rightarrow> nat phr" where
  "parse_int mul = bindP peek (\<lambda>c. bindP advance (\<lambda>_.
     if is_digit c then yieldP (mul * digit_val c) else stopP (- 1)))"

definition parse_int_3 :: "nat phr" where
  "parse_int_3 = bindP (parse_int 100) (\<lambda>a. bindP (parse_int 10) (\<lambda>b. bindP (parse_int 1) (\<lambda>c. yieldP (a + b + c))))"

fun expect_string :: "string \<Rightarrow> unit phr" where
  "expect_string [] = yieldP ()"
| "expect_string (c # cs) = bindP (expect_no_check c) (\<lambda>_. expect_string cs)"

definition parse_http_version :: "nat phr" where
  "parse_http_version mem e i =
     (if e < i + 9 then Inr (Stop (- 2))
      else bindP (expect_string ''HTTP/1.'') (\<lambda>_. parse_int 1) mem e i)"

text \<open>\<open>while (*buf == ' ') ++buf\<close>, which does not look at the end of the input.\<close>

function skip_sp :: "bytes \<Rightarrow> nat \<Rightarrow> nat result" where
  "skip_sp mem i =
     (if length mem \<le> i then Inl OutOfBounds
      else if mem ! i = CHR '' '' then skip_sp mem (i + 1)
      else Inr i)"
  by pat_completeness auto
termination by (relation "measure (\<lambda>(mem, i). length mem - i)") auto

declare skip_sp.simps [simp del]

definition skip_to_status :: "unit phr" where
  "skip_to_status mem e i =
     (if length mem \<le> i then Inl OutOfBounds
      else if mem ! i \<noteq> CHR '' '' then Inr (Stop (- 1))
      else bindE (skip_sp mem (i + 1)) (\<lambda>k. if e < k + 4 then Inr (Stop (- 2)) else Inr (Done ((), k))))"

text \<open>The message without the spaces in front of it.\<close>

definition status_message :: "(nat \<times> nat) phr" where
  "status_message mem e i =
     bindE (get_token_to_eol mem e i) (\<lambda>r.
       case r of
         Stop n \<Rightarrow> Inr (Stop n)
       | Done ((msg, len), j) \<Rightarrow>
           if len = 0 then Inr (Done ((msg, len), j))
           else if length mem \<le> msg then Inl OutOfBounds
           else if mem ! msg = CHR '' '' then
             bindE (skip_sp mem msg) (\<lambda>k. Inr (Done ((k, len - (k - msg)), j)))
           else Inr (Stop (- 1)))"

subsection \<open>Headers\<close>

text \<open>\<open>hdr_name\<close> is \<open>None\<close> (the null pointer) for a continuation line.\<close>

record phr_header =
  hdr_name :: "nat option"
  hdr_name_len :: nat
  hdr_value :: nat
  hdr_value_len :: nat

definition name_act :: "char \<Rightarrow> loop_act" where
  "name_act c = (if c = CHR '':'' then Leave else if \<not> token_char c then Reject else Go)"

definition ows_act :: "char \<Rightarrow> loop_act" where
  "ows_act c = (if c = CHR '' '' \<or> c = CHR 0x09 then Go else Leave)"

text \<open>\<open>findchar_fast\<close> finds nothing without SSE and is left out; the \<open>CHECK_EOF\<close> after it is the loop's first.\<close>

definition header_name :: "(nat \<times> nat) phr" where
  "header_name =
     bindP here (\<lambda>start. bindP (scan name_act) (\<lambda>_. bindP here (\<lambda>i.
       if i - start = 0 then stopP (- 1)
       else bindP advance (\<lambda>_. bindP (scan ows_act) (\<lambda>_. yieldP (start, i - start))))))"

text \<open>The length of a value without trailing spaces and tabs.\<close>

fun trim_value :: "bytes \<Rightarrow> nat \<Rightarrow> nat \<Rightarrow> nat result" where
  "trim_value mem v 0 = Inr 0"
| "trim_value mem v (Suc n) =
     (if length mem \<le> v + n then Inl OutOfBounds
      else if mem ! (v + n) = CHR '' '' \<or> mem ! (v + n) = CHR 0x09 then trim_value mem v n
      else Inr (Suc n))"

definition header_value :: "(nat \<times> nat) phr" where
  "header_value mem e i =
     bindE (get_token_to_eol mem e i) (\<lambda>r.
       case r of
         Stop n \<Rightarrow> Inr (Stop n)
       | Done ((v, len), j) \<Rightarrow> bindE (trim_value mem v len) (\<lambda>len. Inr (Done ((v, len), j))))"

text \<open>\<open>n\<close> is \<open>*num_headers\<close> and the second argument the room left, \<open>max_headers - *num_headers\<close>.\<close>

fun parse_headers :: "nat \<Rightarrow> nat \<Rightarrow> phr_header list phr" where
  "parse_headers n room =
     bindP next_char (\<lambda>c.
       if c = CR then bindP advance (\<lambda>_. bindP (expect LF) (\<lambda>_. yieldP []))
       else if c = LF then bindP advance (\<lambda>_. yieldP [])
       else case room of
         0 \<Rightarrow> stopP (- 1)
       | Suc room \<Rightarrow>
           bindP (if n \<noteq> 0 \<and> (c = CHR '' '' \<or> c = CHR 0x09) then yieldP (None, 0)
                  else bindP header_name (\<lambda>(name, len). yieldP (Some name, len))) (\<lambda>(name, name_len).
           bindP header_value (\<lambda>(v, len).
           bindP (parse_headers (n + 1) room) (\<lambda>hs.
             yieldP (\<lparr>hdr_name = name, hdr_name_len = name_len, hdr_value = v, hdr_value_len = len\<rparr> # hs)))))"

declare parse_headers.simps [simp del]

subsection \<open>\<open>phr_parse_response\<close>\<close>

record phr_response =
  minor_version :: nat
  status :: nat
  message :: "nat \<times> nat"
  headers :: "phr_header list"

definition parse_response :: "nat \<Rightarrow> phr_response phr" where
  "parse_response max_headers =
     bindP parse_http_version (\<lambda>minor.
     bindP skip_to_status (\<lambda>_.
     bindP parse_int_3 (\<lambda>code.
     bindP status_message (\<lambda>msg.
     bindP (parse_headers 0 max_headers) (\<lambda>hs.
       yieldP \<lparr>minor_version = minor, status = code, message = msg, headers = hs\<rparr>)))))"

text \<open>With \<open>last_len = 0\<close>; done with the number of bytes parsed.\<close>

definition phr_parse_response :: "bytes \<Rightarrow> nat \<Rightarrow> nat \<Rightarrow> (phr_response \<times> nat) parsed result" where
  "phr_parse_response buf_start len max_headers = parse_response max_headers buf_start len 0"

subsection \<open>Parsers read their input incrementally\<close>

text \<open>
  \<open>reads r a P\<close>: a successful run of \<open>P\<close> depends only on the bytes up to its last position and \<open>a\<close>
  further ones; on any other memory that has these bytes it has the same result, and on an
  input that ends before them it asks for more. \<open>r\<close> bytes are known to be there. (The bytes after the
  end of the input matter in one place only, where the parser skips spaces: they must not all
  be spaces.)
\<close>

definition not_blank :: "bytes \<Rightarrow> nat \<Rightarrow> bool" where
  "not_blank mem e \<longleftrightarrow> (\<exists>k \<ge> e. k < length mem \<and> mem ! k \<noteq> CHR '' '')"

definition reads :: "nat \<Rightarrow> nat \<Rightarrow> 'a phr \<Rightarrow> bool" where
  "reads r a P \<longleftrightarrow> (\<forall>mem e i x j. i + r \<le> e \<longrightarrow> e \<le> length mem \<longrightarrow> P mem e i = Inr (Done (x, j)) \<longrightarrow>
     i \<le> j \<and> j + a \<le> e \<and>
     (\<forall>mem' e'. i + r \<le> e' \<longrightarrow> e' \<le> length mem' \<longrightarrow> (e' < j + a \<longrightarrow> not_blank mem' e') \<longrightarrow>
        (\<forall>q < min e' (j + a). mem' ! q = mem ! q) \<longrightarrow>
        P mem' e' i = Inr (if j + a \<le> e' then Done (x, j) else Stop (- 2))))"

lemma readsI:
  assumes "\<And>mem e i x j. i + r \<le> e \<Longrightarrow> e \<le> length mem \<Longrightarrow> P mem e i = Inr (Done (x, j)) \<Longrightarrow> i \<le> j \<and> j + a \<le> e"
    and "\<And>mem e i x j mem' e'. i + r \<le> e \<Longrightarrow> e \<le> length mem \<Longrightarrow> P mem e i = Inr (Done (x, j)) \<Longrightarrow>
      i \<le> j \<Longrightarrow> j + a \<le> e \<Longrightarrow> i + r \<le> e' \<Longrightarrow> e' \<le> length mem' \<Longrightarrow> (e' < j + a \<longrightarrow> not_blank mem' e') \<Longrightarrow>
      (\<forall>q < min e' (j + a). mem' ! q = mem ! q) \<Longrightarrow>
      P mem' e' i = Inr (if j + a \<le> e' then Done (x, j) else Stop (- 2))"
  shows "reads r a P"
  using assms unfolding reads_def by blast

lemma reads_bounds:
  "reads r a P \<Longrightarrow> P mem e i = Inr (Done (x, j)) \<Longrightarrow> i + r \<le> e \<Longrightarrow> e \<le> length mem \<Longrightarrow> i \<le> j \<and> j + a \<le> e"
  unfolding reads_def by blast

lemma reads_other:
  "reads r a P \<Longrightarrow> P mem e i = Inr (Done (x, j)) \<Longrightarrow> i + r \<le> e \<Longrightarrow> e \<le> length mem \<Longrightarrow> i + r \<le> e' \<Longrightarrow>
   e' \<le> length mem' \<Longrightarrow> (e' < j + a \<Longrightarrow> not_blank mem' e') \<Longrightarrow> (\<And>q. q < min e' (j + a) \<Longrightarrow> mem' ! q = mem ! q) \<Longrightarrow>
   P mem' e' i = Inr (if j + a \<le> e' then Done (x, j) else Stop (- 2))"
  unfolding reads_def by blast

lemma bindP_Done:
  "bindP p q mem e i = Inr (Done (y, k)) \<longleftrightarrow> (\<exists>x j. p mem e i = Inr (Done (x, j)) \<and> q x mem e j = Inr (Done (y, k)))"
  by (cases "p mem e i") (auto simp: bindP_def split: parsed.splits)

lemma bindP_stop: "p mem e i = Inr (Stop n) \<Longrightarrow> bindP p q mem e i = Inr (Stop n)"
  by (simp add: bindP_def)

lemma bindP_done: "p mem e i = Inr (Done (x, j)) \<Longrightarrow> bindP p q mem e i = q x mem e j"
  by (simp add: bindP_def)

text \<open>A parser followed by one that looks no less far.\<close>

lemma reads_bind:
  assumes "reads r a p" and "\<And>x. reads a b (q x)"
    and "\<And>x mem e j y k. q x mem e j = Inr (Done (y, k)) \<Longrightarrow> j + a \<le> k + b"
  shows "reads r b (bindP p q)"
proof (rule readsI)
  fix mem e i y k assume a: "i + r \<le> e" "e \<le> length mem" "bindP p q mem e i = Inr (Done (y, k))"
  then obtain x j where p: "p mem e i = Inr (Done (x, j))" and q: "q x mem e j = Inr (Done (y, k))"
    by (auto simp: bindP_Done)
  from reads_bounds [OF assms(1) p a(1,2)] have j: "i \<le> j" "j + a \<le> e" by simp_all
  from reads_bounds [OF assms(2) q j(2) a(2)] j show "i \<le> k \<and> k + b \<le> e" by simp
  fix mem' e' assume e': "i + r \<le> e'" "e' \<le> length mem'" "e' < k + b \<longrightarrow> not_blank mem' e'"
    "\<forall>z < min e' (k + b). mem' ! z = mem ! z"
  have le: "j + a \<le> k + b" using assms(3) [OF q] .
  with reads_other [OF assms(1) p a(1,2) e'(1,2)] e'(3,4)
  have p': "p mem' e' i = Inr (if j + a \<le> e' then Done (x, j) else Stop (- 2))" by simp
  show "bindP p q mem' e' i = Inr (if k + b \<le> e' then Done (y, k) else Stop (- 2))"
  proof (cases "j + a \<le> e'")
    case True
    with reads_other [OF assms(2) q j(2) a(2) True e'(2)] e'(3,4) p' show ?thesis by (simp add: bindP_done)
  next
    case False
    with p' le show ?thesis by (simp add: bindP_stop)
  qed
qed

lemma reads_more: "reads r a P \<Longrightarrow> r \<le> r' \<Longrightarrow> reads r' a P"
  unfolding reads_def by (meson add_left_mono le_trans)

named_theorems reads_intros

lemma reads_basic [reads_intros]:
  "reads 0 1 check_eof" "reads 1 1 peek" "reads 1 0 advance" "reads r r here" "reads r r (yieldP x)" "reads r a (stopP n)"
proof -
  show "reads 0 1 check_eof" by (rule readsI) (auto simp: check_eof_def split: if_splits)
  show "reads 1 1 peek" by (rule readsI) (auto simp: peek_def split: if_splits)
  show "reads 1 0 advance" by (rule readsI) (auto simp: advance_def)
  show "reads r r here" by (rule readsI) (auto simp: here_def)
  show "reads r r (yieldP x)" by (rule readsI) (auto simp: yieldP_def)
  show "reads r a (stopP n)" by (rule readsI) (auto simp: stopP_def)
qed

text \<open>How far a parser moves at least.\<close>

definition eats :: "nat \<Rightarrow> 'a phr \<Rightarrow> bool" where
  "eats n P \<longleftrightarrow> (\<forall>mem e i x j. P mem e i = Inr (Done (x, j)) \<longrightarrow> i + n \<le> j)"

lemma eatsD: "eats n P \<Longrightarrow> P mem e i = Inr (Done (x, j)) \<Longrightarrow> i + n \<le> j"
  by (simp add: eats_def)

lemma eats_0: "eats n P \<Longrightarrow> eats 0 P"
  unfolding eats_def by (metis add_leE add_0_right)

lemma eats_bind:
  assumes "eats m p" and "\<And>x. eats n (q x)"
  shows "eats (m + n) (bindP p q)"
  unfolding eats_def
proof (intro allI impI)
  fix mem e i y k assume "bindP p q mem e i = Inr (Done (y, k))"
  then obtain x j where p: "p mem e i = Inr (Done (x, j))" and q: "q x mem e j = Inr (Done (y, k))"
    by (auto simp: bindP_Done)
  from eatsD [OF assms(1) p] eatsD [OF assms(2) q] show "i + (m + n) \<le> k" by simp
qed

lemmas eats_left = eats_bind [where n = 0, simplified]
lemmas eats_right = eats_bind [where m = 0, simplified]

named_theorems eats_intros

lemma eats_basic [eats_intros]:
  "eats 0 check_eof" "eats 0 peek" "eats 1 advance" "eats 0 here" "eats 0 (yieldP x)" "eats n (stopP k)"
  by (auto simp: eats_def check_eof_def peek_def advance_def here_def yieldP_def stopP_def split: if_splits)

lemma reads_seq:
  "reads r a p \<Longrightarrow> (\<And>x. reads a b (q x)) \<Longrightarrow> a \<le> b \<Longrightarrow> (\<And>x. eats 0 (q x)) \<Longrightarrow> reads r b (bindP p q)"
  by (rule reads_bind) (force dest: eatsD)+

lemma reads_step:
  "reads r 1 p \<Longrightarrow> (\<And>x. reads 1 0 (q x)) \<Longrightarrow> (\<And>x. eats 1 (q x)) \<Longrightarrow> reads r 0 (bindP p q)"
  by (rule reads_bind) (force dest: eatsD)+

lemma eats_if [eats_intros]: "(b \<Longrightarrow> eats n p) \<Longrightarrow> (\<not> b \<Longrightarrow> eats n q) \<Longrightarrow> eats n (if b then p else q)"
  by simp

lemma reads_if [reads_intros]: "(b \<Longrightarrow> reads r a p) \<Longrightarrow> (\<not> b \<Longrightarrow> reads r a q) \<Longrightarrow> reads r a (if b then p else q)"
  by simp
lemma reads_cong:
  assumes "\<And>mem e i. i + r \<le> e \<Longrightarrow> e \<le> length mem \<Longrightarrow> P mem e i = Q mem e i" and "reads r a Q"
  shows "reads r a P"
proof (rule readsI)
  fix mem e i x j assume a: "i + r \<le> e" "e \<le> length mem" "P mem e i = Inr (Done (x, j))"
  with assms(1) [OF a(1,2)] reads_bounds [OF assms(2) _ a(1,2)] show "i \<le> j \<and> j + a \<le> e" by metis
next
  fix mem e i x j mem' e' assume a: "i + r \<le> e" "e \<le> length mem" "P mem e i = Inr (Done (x, j))"
    "i + r \<le> e'" "e' \<le> length mem'" "e' < j + a \<longrightarrow> not_blank mem' e'" "\<forall>q < min e' (j + a). mem' ! q = mem ! q"
  from a(3) have "Q mem e i = Inr (Done (x, j))" using assms(1) [OF a(1,2)] by simp
  from reads_other [OF assms(2) this a(1,2,4,5)] a(6,7)
  show "P mem' e' i = Inr (if j + a \<le> e' then Done (x, j) else Stop (- 2))"
    using assms(1) [OF a(4,5)] by simp
qed

text \<open>A parser of fixed length leaves the bytes after it to the next one.\<close>

definition moves :: "nat \<Rightarrow> 'a phr \<Rightarrow> bool" where
  "moves n P \<longleftrightarrow> (\<forall>mem e i x j. P mem e i = Inr (Done (x, j)) \<longrightarrow> j = i + n)"

lemma movesD: "moves n P \<Longrightarrow> P mem e i = Inr (Done (x, j)) \<Longrightarrow> j = i + n"
  by (simp add: moves_def)

lemma moves_bind:
  assumes "moves m p" and "\<And>x. moves n (q x)"
  shows "moves (m + n) (bindP p q)"
  unfolding moves_def
proof (intro allI impI)
  fix mem e i y k assume "bindP p q mem e i = Inr (Done (y, k))"
  then obtain x j where p: "p mem e i = Inr (Done (x, j))" and q: "q x mem e j = Inr (Done (y, k))"
    by (auto simp: bindP_Done)
  from movesD [OF assms(1) p] movesD [OF assms(2) q] show "k = i + (m + n)" by simp
qed

lemma moves_eats: "moves n P \<Longrightarrow> eats n P"
  by (simp add: moves_def eats_def)

lemma reads_shift:
  assumes "reads n 0 P" and "moves n P"
  shows "reads (n + m) m P"
proof -
  have j: "j = i + n" if "P mem e i = Inr (Done (x, j))" for mem e i x j
    using movesD [OF assms(2) that] .
  show ?thesis
  proof (rule readsI)
    fix mem e i x j assume "i + (n + m) \<le> e" "P mem e i = Inr (Done (x, j))"
    with j [of mem e i x j] show "i \<le> j \<and> j + m \<le> e" by simp
  next
    fix mem e i x j mem' e' assume a: "i + (n + m) \<le> e" "e \<le> length mem"
      "P mem e i = Inr (Done (x, j))" "i + (n + m) \<le> e'" "e' \<le> length mem'" "\<forall>q < min e' (j + m). mem' ! q = mem ! q"
    show "P mem' e' i = Inr (if j + m \<le> e' then Done (x, j) else Stop (- 2))"
      using reads_other [OF assms(1) a(3) _ a(2) _ a(5)] a j [OF a(3)] by simp
  qed
qed

lemma next_char_laws: "reads 0 1 next_char" "eats 0 next_char"
proof -
  show "reads 0 1 next_char"
    by (rule readsI) (auto simp: next_char_def bindP_def check_eof_def peek_def split: if_splits)
  show "eats 0 next_char"
    by (auto simp: eats_def next_char_def bindP_Done check_eof_def peek_def split: if_splits)
qed

lemma expect_no_check_laws: "reads 1 0 (expect_no_check c)" "moves 1 (expect_no_check c)"
proof -
  note defs = expect_no_check_def bindP_def peek_def advance_def yieldP_def stopP_def
  show "reads 1 0 (expect_no_check c)"
    by (rule readsI) (auto simp: defs split: if_splits)
  show "moves 1 (expect_no_check c)"
    by (auto simp: moves_def defs split: if_splits)
qed

lemma expect_laws: "reads 0 0 (expect c)" "eats 1 (expect c)"
proof -
  show e: "eats 1 (expect c)"
    using eats_bind [OF eats_basic(1) moves_eats [OF expect_no_check_laws(2)]] by (simp add: expect_def)
  show "reads 0 0 (expect c)"
    unfolding expect_def using expect_no_check_laws(1) moves_eats [OF expect_no_check_laws(2)]
    by (intro reads_step reads_basic)
qed

lemma parse_int_laws: "reads 1 0 (parse_int m)" "moves 1 (parse_int m)"
proof -
  note defs = parse_int_def bindP_def peek_def advance_def yieldP_def stopP_def
  show "reads 1 0 (parse_int m)"
    by (rule readsI) (auto simp: defs split: if_splits)
  show "moves 1 (parse_int m)"
    by (auto simp: moves_def defs split: if_splits)
qed

text \<open>What \<open>scan\<close> finds: the first character at which it does not go on.\<close>

lemma scan_run:
  "i \<le> j \<Longrightarrow> j < e \<Longrightarrow> e \<le> length mem \<Longrightarrow> \<forall>q. i \<le> q \<and> q < j \<longrightarrow> act (mem ! q) = Go \<Longrightarrow> act (mem ! j) = Leave \<Longrightarrow>
   scan act mem e i = Inr (Done ((), j))"
proof (induction "j - i" arbitrary: i)
  case 0
  then show ?case by (simp add: scan.simps [of act mem e i])
next
  case (Suc n)
  then have "scan act mem e (i + 1) = Inr (Done ((), j))" by (intro Suc.hyps(1)) auto
  with Suc show ?case by (simp add: scan.simps [of act mem e i])
qed

lemma scan_more:
  "i \<le> e \<Longrightarrow> e \<le> length mem \<Longrightarrow> \<forall>q. i \<le> q \<and> q < e \<longrightarrow> act (mem ! q) = Go \<Longrightarrow> scan act mem e i = Inr (Stop (- 2))"
proof (induction "e - i" arbitrary: i)
  case 0
  then show ?case by (simp add: scan.simps [of act mem i i])
next
  case (Suc n)
  then have "scan act mem e (i + 1) = Inr (Stop (- 2))" by (intro Suc.hyps(1)) auto
  with Suc show ?case by (simp add: scan.simps [of act mem e i])
qed

lemma scan_Done:
  "scan act mem e i = Inr (Done (x, j)) \<Longrightarrow> i \<le> e \<Longrightarrow>
   i \<le> j \<and> j < e \<and> (\<forall>q. i \<le> q \<and> q < j \<longrightarrow> act (mem ! q) = Go) \<and> act (mem ! j) = Leave"
proof (induction act mem e i rule: scan.induct)
  case (1 act mem e i)
  have nz: "i \<noteq> e" "\<not> length mem \<le> i"
    using 1(2) by (auto simp: scan.simps [of act mem e i] split: if_splits)
  show ?case
  proof (cases "act (mem ! i)")
    case Go
    with 1(2) nz have s: "scan act mem e (i + 1) = Inr (Done (x, j))"
      by (simp add: scan.simps [of act mem e i])
    from 1(1) [OF nz Go s] 1(3) nz have ih: "i + 1 \<le> j" "j < e"
      "\<forall>q. i + 1 \<le> q \<and> q < j \<longrightarrow> act (mem ! q) = Go" "act (mem ! j) = Leave" by auto
    have "act (mem ! q) = Go" if "i \<le> q" "q < j" for q
      using ih(3) Go that by (cases "q = i") auto
    with ih show ?thesis by auto
  next
    case Leave
    with 1(2,3) nz show ?thesis by (auto simp: scan.simps [of act mem e i])
  next
    case Reject
    with 1(2) nz show ?thesis by (simp add: scan.simps [of act mem e i])
  qed
qed

lemma scan_laws: "reads 0 1 (scan act)"
proof (rule readsI)
  fix mem e i x j assume "i + 0 \<le> e" "e \<le> length mem" "scan act mem e i = Inr (Done (x, j))"
  then show "i \<le> j \<and> j + 1 \<le> e" using scan_Done [of act mem e i x j] by simp
next
  fix mem e i x j mem' e'
  assume a: "i + 0 \<le> e" "scan act mem e i = Inr (Done (x, j))" "i + 0 \<le> e'" "e' \<le> length mem'"
    "\<forall>q < min e' (j + 1). mem' ! q = mem ! q"
  then have d: "i \<le> j" "\<forall>q. i \<le> q \<and> q < j \<longrightarrow> act (mem ! q) = Go" "act (mem ! j) = Leave"
    using scan_Done [of act mem e i x j] by simp_all
  show "scan act mem' e' i = Inr (if j + 1 \<le> e' then Done (x, j) else Stop (- 2))"
  proof (cases "j + 1 \<le> e'")
    case True
    with d a scan_run [of i j e' mem' act] show ?thesis by simp
  next
    case False
    with d a scan_more [of i e' mem' act] show ?thesis by simp
  qed
qed

subsection \<open>The unrolled loop is the plain one\<close>

text \<open>\<open>DOIT\<close> passes over printable characters only.\<close>

lemma doit_printable:
  "doit n mem i = Inr (np, j) \<Longrightarrow> (\<forall>q. i \<le> q \<and> q < j \<longrightarrow> IS_PRINTABLE_ASCII (mem ! q)) \<and> (np \<longrightarrow> \<not> IS_PRINTABLE_ASCII (mem ! j))"
proof (induction n mem i rule: doit.induct)
  case (2 n mem i)
  then have i: "IS_PRINTABLE_ASCII (mem ! i) \<or> np \<and> j = i \<and> \<not> IS_PRINTABLE_ASCII (mem ! i)"
    by (auto split: if_splits)
  show ?case
  proof (cases "IS_PRINTABLE_ASCII (mem ! i)")
    case True
    with 2 have "\<forall>q. i + 1 \<le> q \<and> q < j \<longrightarrow> IS_PRINTABLE_ASCII (mem ! q)" "np \<longrightarrow> \<not> IS_PRINTABLE_ASCII (mem ! j)"
      by (auto split: if_splits)
    moreover have "i + 1 \<le> q" if "i \<le> q" "q \<noteq> i" for q using that by simp
    ultimately show ?thesis using True by metis
  qed (use i in auto)
qed auto

lemma doit_ok: "i + n \<le> length mem \<Longrightarrow> \<exists>r. doit n mem i = Inr r"
  by (induction n mem i rule: doit.induct) auto

lemma scan_ctl_skip:
  "i \<le> j \<Longrightarrow> j \<le> e \<Longrightarrow> e \<le> length mem \<Longrightarrow> \<forall>q. i \<le> q \<and> q < j \<longrightarrow> act (mem ! q) = Go \<Longrightarrow>
   scan act mem e i = scan act mem e j"
proof (induction "j - i" arbitrary: i)
  case (Suc n)
  then have "scan act mem e (i + 1) = scan act mem e j" by (intro Suc.hyps(1)) auto
  moreover have "scan act mem e i = scan act mem e (i + 1)"
    using Suc.hyps(2) Suc.prems by (subst scan.simps) auto
  ultimately show ?case by simp
qed simp

lemma find_ctl_scan:
  assumes "i \<le> e" and "e \<le> length mem"
  shows "find_ctl mem e i = scan ctl_act mem e i"
  using assms
proof (induction mem e i rule: scan8.induct)
  case (1 mem e i)
  show ?case
  proof (cases "e < i + 8")
    case True
    then show ?thesis by (simp add: find_ctl_def scan8.simps [of mem e i])
  next
    case False
    then have "i + 8 \<le> length mem" using 1(4) by simp
    from doit_ok [OF this] obtain np j where d: "doit 8 mem i = Inr (np, j)" by (metis surj_pair)
    note pos = doit_pos [OF d] and pr = doit_printable [OF d]
    have go: "\<forall>q. i \<le> q \<and> q < j \<longrightarrow> ctl_act (mem ! q) = Go" using pr by (simp add: ctl_act_def)
    have step: "find_ctl mem e i = (if \<not> np then find_ctl mem e j
        else if is_ctl (mem ! j) then Inr (Done ((), j)) else find_ctl mem e (j + 1))"
      using False d by (simp add: find_ctl_def scan8.simps [of mem e i])
    show ?thesis
    proof (cases np)
      case np: False
      have j: "j \<le> e" using pos np False by simp
      have "find_ctl mem e j = scan ctl_act mem e j"
        using 1(1) [OF False d refl] np j 1(4) by simp
      with step np scan_ctl_skip [of i j e mem ctl_act] pos j 1(4) go show ?thesis by simp
    next
      case np: True
      have j: "j < e" "\<not> IS_PRINTABLE_ASCII (mem ! j)" using pos np False pr by simp_all
      have skip: "scan ctl_act mem e i = scan ctl_act mem e j"
        using scan_ctl_skip [of i j e mem ctl_act] pos j 1(4) go by simp
      show ?thesis
      proof (cases "is_ctl (mem ! j)")
        case True
        then show ?thesis
          unfolding step skip using np j 1(4) by (simp add: scan.simps [of ctl_act mem e j] ctl_act_def)
      next
        case nc: False
        have "find_ctl mem e (j + 1) = scan ctl_act mem e (j + 1)"
          using 1(2) [OF False d refl] np nc j 1(4) by simp
        then show ?thesis
          unfolding step skip using np nc j 1(4) by (simp add: scan.simps [of ctl_act mem e j] ctl_act_def)
      qed
    qed
  qed
qed

text \<open>
  The unrolled search for the end of a line, eight characters at a time with its
  \<open>goto\<close>s, finds what the definition of a line says: the first control character of the input, or
  that there is none yet.
\<close>

theorem find_ctl_first:
  assumes "i \<le> e" and "e \<le> length mem"
  shows "find_ctl mem e i =
    (let n = length (takeWhile (\<lambda>c. ctl_act c = Go) (drop i (take e mem))) in
     Inr (if i + n = e then Stop (- 2) else Done ((), i + n)))"
proof -
  let ?in = "drop i (take e mem)"
  let ?n = "length (takeWhile (\<lambda>c. ctl_act c = Go) ?in)"
  have len: "length ?in = e - i" and nth: "q < e - i \<Longrightarrow> ?in ! q = mem ! (i + q)" for q
    using assms by simp_all
  have n: "?n \<le> e - i" using length_takeWhile_le [of _ ?in] len by metis
  have go: "ctl_act (mem ! q) = Go" if "i \<le> q" "q < i + ?n" for q
  proof -
    have "ctl_act (?in ! (q - i)) = Go"
      using that takeWhile_nth [of "q - i" "\<lambda>c. ctl_act c = Go" ?in]
        set_takeWhileD [OF nth_mem, of "q - i" "\<lambda>c. ctl_act c = Go" ?in] by fastforce
    with nth [of "q - i"] that n show ?thesis by simp
  qed
  show ?thesis
  proof (cases "i + ?n = e")
    case True
    with scan_more [OF assms, of ctl_act] go find_ctl_scan [OF assms] show ?thesis by (simp add: Let_def)
  next
    case False
    then have "?n < length ?in" using n len assms(1) by simp
    then have "ctl_act (?in ! ?n) \<noteq> Go" by (rule nth_length_takeWhile)
    then have "ctl_act (mem ! (i + ?n)) = Leave"
      using nth [of ?n] \<open>?n < length ?in\<close> len by (simp add: ctl_act_def split: if_splits)
    with scan_run [of i "i + ?n" e mem ctl_act] go assms n False find_ctl_scan [OF assms] show ?thesis
      by (simp add: Let_def)
  qed
qed

theorem find_ctl_first_witness: "find_ctl (''OK'' @ CRLF) 4 0 = Inr (Done ((), 2))"
proof -
  have "takeWhile (\<lambda>c. ctl_act c = Go) (''OK'' @ CRLF) = ''OK''"
    by (simp add: ctl_act_def IS_PRINTABLE_ASCII_def is_ctl_def)
  then show ?thesis
    using find_ctl_first [of 0 4 "''OK'' @ CRLF"] by simp
qed

subsection \<open>All parts of the parser are incremental\<close>

lemma find_ctl_laws: "reads 0 1 find_ctl" "eats 0 (scan act)"
proof -
  show "reads 0 1 find_ctl"
    by (rule reads_cong [OF _ scan_laws [of ctl_act]]) (simp add: find_ctl_scan)
  have "i \<le> j" if "scan act mem e i = Inr (Done (x, j))" for mem e i x j
    using that
  proof (induction act mem e i rule: scan.induct)
    case (1 act mem e i)
    then show ?case
      by (auto simp: scan.simps [of act mem e i] split: if_splits loop_act.splits)
  qed
  then show "eats 0 (scan act)" by (simp add: eats_def)
qed

definition eol :: "nat \<Rightarrow> char \<Rightarrow> (nat \<times> nat) phr" where
  "eol start c =
     (if c = CR then bindP advance (\<lambda>_. bindP (expect LF) (\<lambda>_. bindP here (\<lambda>i. yieldP (start, i - 2 - start))))
      else if c = LF then bindP here (\<lambda>i. bindP advance (\<lambda>_. yieldP (start, i - start)))
      else stopP (- 1))"

lemma get_token_to_eol_eq:
  "get_token_to_eol = bindP here (\<lambda>start. bindP find_ctl (\<lambda>_. bindP peek (eol start)))"
  by (simp add: get_token_to_eol_def eol_def [abs_def])

lemma eol_laws: "reads 1 0 (eol start c)" "eats 1 (eol start c)"
proof -
  have t: "reads 0 0 (bindP here (\<lambda>i. yieldP (f i)))" "eats 0 (bindP here (\<lambda>i. yieldP (f i)))" for f :: "nat \<Rightarrow> nat \<times> nat"
    by (rule reads_seq [OF reads_basic(4)]) (simp_all add: reads_basic eats_basic eats_left)
  have x: "reads 0 0 (bindP (expect LF) (\<lambda>_. bindP here (\<lambda>i. yieldP (f i))))"
    "eats 1 (bindP (expect LF) (\<lambda>_. bindP here (\<lambda>i. yieldP (f i))))" for f :: "nat \<Rightarrow> nat \<times> nat"
    by (rule reads_seq [OF expect_laws(1)]; simp add: t) (rule eats_left [OF expect_laws(2) t(2)])
  have cr: "reads 1 0 (bindP advance (\<lambda>_. bindP (expect LF) (\<lambda>_. bindP here (\<lambda>i. yieldP (f i)))))"
    "eats 1 (bindP advance (\<lambda>_. bindP (expect LF) (\<lambda>_. bindP here (\<lambda>i. yieldP (f i)))))" for f :: "nat \<Rightarrow> nat \<times> nat"
    by (rule reads_seq [OF reads_basic(3) x(1)]; simp add: eats_0 [OF x(2)])
      (rule eats_left [OF eats_basic(3) eats_0 [OF x(2)]])
  have l: "reads 1 0 (bindP advance (\<lambda>_. yieldP y))" "eats 1 (bindP advance (\<lambda>_. yieldP y))" for y :: "nat \<times> nat"
    by (rule reads_seq [OF reads_basic(3) reads_basic(5)]; simp add: eats_basic) (rule eats_left [OF eats_basic(3,5)])
  have lf: "reads 1 0 (bindP here (\<lambda>i. bindP advance (\<lambda>_. yieldP (f i))))"
    "eats 1 (bindP here (\<lambda>i. bindP advance (\<lambda>_. yieldP (f i))))" for f :: "nat \<Rightarrow> nat \<times> nat"
    by (rule reads_step [OF reads_basic(4) l(1) l(2)]) (rule eats_right [OF eats_basic(4) l(2)])
  show "reads 1 0 (eol start c)"
    unfolding eol_def by (rule reads_if [OF cr(1) reads_if [OF lf(1) reads_basic(6)]])
  show "eats 1 (eol start c)"
    unfolding eol_def by (rule eats_if [OF cr(2) eats_if [OF lf(2) eats_basic(6)]])
qed

lemma find_ctl_eats: "eats 0 find_ctl"
proof -
  have "i \<le> j" if "scan8 mem e i = Inr (found, j)" for mem e i found j
    using that
  proof (induction mem e i rule: scan8.induct)
    case (1 mem e i)
    then show ?case
      by (auto simp: scan8.simps [of mem e i] bindE_eq_Inr split: if_splits dest: doit_pos) (force dest: doit_pos)+
  qed
  then show ?thesis
    using eatsD [OF find_ctl_laws(2)] unfolding eats_def
    by (auto simp: find_ctl_def bindE_eq_Inr split: if_splits) (metis add_0_right le_trans)
qed

lemma get_token_laws: "reads 0 0 get_token_to_eol" "eats 1 get_token_to_eol"
proof -
  have p: "reads 1 0 (bindP peek (eol start))" "eats 1 (bindP peek (eol start))" for start
    by (rule reads_step [OF reads_basic(2) eol_laws(1) eol_laws(2)]) (rule eats_right [OF eats_basic(2) eol_laws(2)])
  have f: "reads 0 0 (bindP find_ctl (\<lambda>_. bindP peek (eol start)))" "eats 1 (bindP find_ctl (\<lambda>_. bindP peek (eol start)))" for start
    by (rule reads_step [OF find_ctl_laws(1) p(1) p(2)]) (rule eats_right [OF find_ctl_eats p(2)])
  show "reads 0 0 get_token_to_eol"
    unfolding get_token_to_eol_eq by (rule reads_seq [OF reads_basic(4) f(1)]) (simp_all add: eats_0 [OF f(2)])
  show "eats 1 get_token_to_eol"
    unfolding get_token_to_eol_eq by (rule eats_right [OF eats_basic(4) f(2)])
qed

lemma get_token_bounds:
  "get_token_to_eol mem e i = Inr (Done ((v, n), j)) \<Longrightarrow> v = i \<and> v + n \<le> j"
  by (auto simp: get_token_to_eol_def bindP_Done here_def yieldP_def stopP_def advance_def peek_def
      split: if_splits dest!: eatsD [OF expect_laws(2)] eatsD [OF find_ctl_eats])

text \<open>The status line.\<close>

lemma expect_string_laws: "reads (length cs) 0 (expect_string cs)" "moves (length cs) (expect_string cs)"
proof (induction cs)
  case Nil
  show "reads (length []) 0 (expect_string [])" "moves (length []) (expect_string [])"
    by (simp_all add: reads_basic moves_def yieldP_def)
next
  case (Cons c cs)
  have "reads (1 + length cs) (length cs) (expect_no_check c)"
    by (rule reads_shift [OF expect_no_check_laws])
  from reads_bind [OF this Cons.IH(1)] show "reads (length (c # cs)) 0 (expect_string (c # cs))"
    using moves_eats [OF Cons.IH(2), THEN eatsD] by simp
  from moves_bind [OF expect_no_check_laws(2) Cons.IH(2)] show "moves (length (c # cs)) (expect_string (c # cs))"
    by simp
qed

lemma parse_http_version_laws: "reads 0 1 parse_http_version"
proof -
  let ?p = "bindP (expect_string ''HTTP/1.'') (\<lambda>_. parse_int 1)"
  have es: "reads 7 0 (expect_string ''HTTP/1.'')" "moves 7 (expect_string ''HTTP/1.'')"
    using expect_string_laws [of "''HTTP/1.''"] by (simp_all add: numeral_eq_Suc del: expect_string.simps)
  have "moves (7 + 1) ?p" by (rule moves_bind [OF es(2) parse_int_laws(2)])
  then have m: "moves 8 ?p" by (simp del: expect_string.simps)
  have "reads (7 + 1) 0 ?p"
    by (rule reads_step [OF reads_shift [OF es] parse_int_laws(1) moves_eats [OF parse_int_laws(2)]])
  then have "reads 8 0 ?p" by (simp del: expect_string.simps)
  from reads_shift [OF this m, of 1] have r: "reads 9 1 ?p" by (simp del: expect_string.simps)
  show ?thesis
  proof (rule readsI)
    fix mem e i x j assume a: "e \<le> length mem" "parse_http_version mem e i = Inr (Done (x, j))"
    then have "i + 9 \<le> e" "?p mem e i = Inr (Done (x, j))" by (auto simp: parse_http_version_def simp del: expect_string.simps split: if_splits)
    with reads_bounds [OF r this(2,1) a(1)] show "i \<le> j \<and> j + 1 \<le> e" by simp
  next
    fix mem e i x j mem' e' assume a: "e \<le> length mem" "parse_http_version mem e i = Inr (Done (x, j))"
      "e' \<le> length mem'" "\<forall>q < min e' (j + 1). mem' ! q = mem ! q"
    then have p: "i + 9 \<le> e" "?p mem e i = Inr (Done (x, j))" by (auto simp: parse_http_version_def simp del: expect_string.simps split: if_splits)
    have j: "j = i + 8" using movesD [OF m p(2)] .
    show "parse_http_version mem' e' i = Inr (if j + 1 \<le> e' then Done (x, j) else Stop (- 2))"
      using reads_other [OF r p(2,1) a(1) _ a(3)] a(4) j by (simp add: parse_http_version_def del: expect_string.simps)
  qed
qed

lemma skip_sp_stop: "k < length mem \<Longrightarrow> mem ! k \<noteq> CHR '' '' \<Longrightarrow> i \<le> k \<Longrightarrow> \<forall>q. i \<le> q \<and> q < k \<longrightarrow> mem ! q = CHR '' '' \<Longrightarrow>
   skip_sp mem i = Inr k"
proof (induction "k - i" arbitrary: i)
  case 0
  then show ?case by (subst skip_sp.simps) simp
next
  case (Suc n)
  then have "skip_sp mem (i + 1) = Inr k" by (intro Suc.hyps(1)) auto
  with Suc show ?case by (subst skip_sp.simps) simp
qed

lemma skip_sp_result:
  "skip_sp mem i = Inr k \<Longrightarrow> i \<le> k \<and> k < length mem \<and> mem ! k \<noteq> CHR '' '' \<and> (\<forall>q. i \<le> q \<and> q < k \<longrightarrow> mem ! q = CHR '' '')"
proof (induction mem i rule: skip_sp.induct)
  case (1 mem i)
  have n: "\<not> length mem \<le> i" using 1(2) by (subst (asm) skip_sp.simps) (simp split: if_splits)
  show ?case
  proof (cases "mem ! i = CHR '' ''")
    case True
    then have "skip_sp mem (i + 1) = Inr k" using 1(2) n by (subst (asm) skip_sp.simps) simp
    from 1(1) [OF n True this] have ih: "i + 1 \<le> k" "k < length mem" "mem ! k \<noteq> CHR '' ''"
      "\<forall>q. i + 1 \<le> q \<and> q < k \<longrightarrow> mem ! q = CHR '' ''" by auto
    have "mem ! q = CHR '' ''" if "i \<le> q" "q < k" for q
      using ih(4) True that by (cases "q = i") auto
    with ih show ?thesis by auto
  next
    case False
    then have "k = i" using 1(2) n by (subst (asm) skip_sp.simps) simp
    with False n show ?thesis by auto
  qed
qed

text \<open>From a space on, the search stops at the first other character, here not before \<open>e\<close>.\<close>

lemma skip_sp_beyond:
  assumes "not_blank mem e" and "i \<le> e" and "\<forall>q. i \<le> q \<and> q < e \<longrightarrow> mem ! q = CHR '' ''"
  shows "\<exists>k \<ge> e. skip_sp mem i = Inr k"
proof -
  let ?P = "\<lambda>k. e \<le> k \<and> k < length mem \<and> mem ! k \<noteq> CHR '' ''"
  define k where "k = (LEAST k. ?P k)"
  from assms(1) have ex: "\<exists>k. ?P k" by (auto simp: not_blank_def)
  have k: "?P k" unfolding k_def by (rule LeastI_ex [OF ex])
  have "mem ! q = CHR '' ''" if "i \<le> q" "q < k" for q
  proof (cases "q < e")
    case False
    with that k not_less_Least [of q ?P] show ?thesis unfolding k_def by auto
  qed (use assms(3) that in blast)
  with k assms(2) have "skip_sp mem i = Inr k" by (intro skip_sp_stop) auto
  with k show ?thesis by blast
qed

lemma skip_to_status_laws: "reads 1 4 skip_to_status" "eats 1 skip_to_status"
proof -
  have d: "i < length mem \<and> mem ! i = CHR '' '' \<and> skip_sp mem (i + 1) = Inr j \<and> j + 4 \<le> e"
    if "skip_to_status mem e i = Inr (Done (x, j))" for mem e i x j
    using that by (auto simp: skip_to_status_def bindE_eq_Inr split: if_splits)
  show "eats 1 skip_to_status"
    unfolding eats_def using d skip_sp_result by (metis add_leD1 add.commute)
  show "reads 1 4 skip_to_status"
  proof (rule readsI)
    fix mem e i x j assume "skip_to_status mem e i = Inr (Done (x, j))"
    with d skip_sp_result show "i \<le> j \<and> j + 4 \<le> e" by fastforce
  next
    fix mem e i x j mem' e' assume a: "skip_to_status mem e i = Inr (Done (x, j))" "i + 1 \<le> e'" "e' \<le> length mem'"
      "e' < j + 4 \<longrightarrow> not_blank mem' e'" "\<forall>q < min e' (j + 4). mem' ! q = mem ! q"
    from d [OF a(1)] have i: "mem ! i = CHR '' ''" "skip_sp mem (i + 1) = Inr j" by simp_all
    note s = skip_sp_result [OF i(2)]
    have i': "\<not> length mem' \<le> i" "mem' ! i = CHR '' ''" using a(2,3,5) i(1) s by auto
    show "skip_to_status mem' e' i = Inr (if j + 4 \<le> e' then Done (x, j) else Stop (- 2))"
    proof (cases "j < e'")
      case True
      then have "skip_sp mem' (i + 1) = Inr j" using s a(3,5) by (intro skip_sp_stop) auto
      with i' show ?thesis by (auto simp: skip_to_status_def)
    next
      case False
      then have "\<forall>q. i + 1 \<le> q \<and> q < e' \<longrightarrow> mem' ! q = CHR '' ''" using s a(5) by auto
      with skip_sp_beyond [of mem' e' "i + 1"] a(2,4) False obtain k where "e' \<le> k" "skip_sp mem' (i + 1) = Inr k" by auto
      with i' False show ?thesis by (simp add: skip_to_status_def)
    qed
  qed
qed

lemma expect_Done: "expect ch mem e i = Inr (Done (x, j)) \<Longrightarrow> j = i + 1"
  by (auto simp: expect_def bindP_Done check_eof_def split: if_splits dest: movesD [OF expect_no_check_laws(2)])

text \<open>A token is followed by the end of its line.\<close>

lemma get_token_end:
  assumes "get_token_to_eol mem e i = Inr (Done ((v, n), j))"
  shows "v = i" and "v + n < j" and "mem ! (v + n) \<in> {CR, LF}"
proof -
  from assms obtain p c k where f: "find_ctl mem e i = Inr (Done ((), p))" and c: "peek mem e p = Inr (Done (c, k))"
    and r: "eol i c mem e k = Inr (Done ((v, n), j))"
    by (auto simp: get_token_to_eol_eq bindP_Done here_def)
  have p: "i \<le> p" "k = p" "mem ! p = c"
    using eatsD [OF find_ctl_eats f] c by (auto simp: peek_def split: if_splits)
  from r p show "v = i" "v + n < j" "mem ! (v + n) \<in> {CR, LF}"
    by (auto simp: eol_def bindP_Done here_def yieldP_def advance_def stopP_def split: if_splits dest!: expect_Done)
qed

lemma parse_int_3_laws: "reads 3 0 parse_int_3" "moves 3 parse_int_3"
proof -
  let ?y = "\<lambda>a b c :: nat. yieldP (a + b + c)"
  have y: "reads 0 0 (?y a b c)" "moves 0 (?y a b c)" "eats 0 (?y a b c)" for a b c
    by (simp_all add: reads_basic moves_def yieldP_def eats_basic)
  have r1: "reads 1 0 (bindP (parse_int m) (?y a b))" for m a b
    by (rule reads_seq [OF parse_int_laws(1) y(1) _ y(3)]) simp
  have m1: "moves (1 + 0) (bindP (parse_int m) (?y a b))" for m a b
    by (rule moves_bind [OF parse_int_laws(2) y(2)])
  have r2: "reads (1 + 1) 0 (bindP (parse_int k) (\<lambda>b. bindP (parse_int m) (?y a b)))" for k m a
    by (rule reads_step [OF reads_shift [OF parse_int_laws] r1 moves_eats]) (rule m1 [unfolded add_0_right])
  have m2: "moves (1 + (1 + 0)) (bindP (parse_int k) (\<lambda>b. bindP (parse_int m) (?y a b)))" for k m a
    by (rule moves_bind [OF parse_int_laws(2) m1])
  have "reads (1 + (1 + 1)) 0 parse_int_3"
    unfolding parse_int_3_def
    by (rule reads_bind [OF reads_shift [OF parse_int_laws] r2]) (drule movesD [OF m2], simp)
  then show "reads 3 0 parse_int_3" by (simp add: numeral_eq_Suc)
  have "moves (1 + (1 + (1 + 0))) parse_int_3"
    unfolding parse_int_3_def by (rule moves_bind [OF parse_int_laws(2) m2])
  then show "moves 3 parse_int_3" by (simp add: numeral_eq_Suc)
qed

text \<open>
  What is done with a token after it was read (\<open>post\<close>) leaves the position, and may depend on memory up to there only.
\<close>

definition with_token :: "(bytes \<Rightarrow> nat \<Rightarrow> nat \<Rightarrow> 'a parsed result) \<Rightarrow> 'a phr" where
  "with_token post mem e i =
     bindE (get_token_to_eol mem e i) (\<lambda>r.
       case r of
         Stop n \<Rightarrow> Inr (Stop n)
       | Done ((v, n), j) \<Rightarrow> bindE (post mem v n) (\<lambda>r. case r of Stop m \<Rightarrow> Inr (Stop m) | Done x \<Rightarrow> Inr (Done (x, j))))"

definition reads_token :: "(bytes \<Rightarrow> nat \<Rightarrow> nat \<Rightarrow> 'a parsed result) \<Rightarrow> bool" where
  "reads_token post \<longleftrightarrow> (\<forall>mem mem' v n j x. post mem v n = Inr (Done x) \<longrightarrow> v + n < j \<longrightarrow> mem ! (v + n) \<in> {CR, LF} \<longrightarrow>
     j \<le> length mem \<longrightarrow> j \<le> length mem' \<longrightarrow> (\<forall>q < j. mem' ! q = mem ! q) \<longrightarrow> post mem' v n = Inr (Done x))"

lemma parsed_Done: "(case r of Stop n \<Rightarrow> Inr (Stop n) | Done z \<Rightarrow> f z) = (Inr (Done y) :: _ result) \<longleftrightarrow> (\<exists>z. r = Done z \<and> f z = Inr (Done y))"
  by (cases r) auto

lemma with_token_Done:
  assumes "with_token post mem e i = Inr (Done (x, j))"
  obtains n where "get_token_to_eol mem e i = Inr (Done ((i, n), j))" and "i + n < j" and "mem ! (i + n) \<in> {CR, LF}"
    and "post mem i n = Inr (Done x)"
proof -
  from assms obtain v n where t: "get_token_to_eol mem e i = Inr (Done ((v, n), j))" and p: "post mem v n = Inr (Done x)"
    by (auto simp: with_token_def bindE_eq_Inr parsed_Done)
  from get_token_end [OF t] t p that show ?thesis by auto
qed

lemma with_token_laws:
  assumes "reads_token post"
  shows "reads 0 0 (with_token post)" and "eats 1 (with_token post)"
proof -
  show "eats 1 (with_token post)"
    unfolding eats_def by (metis with_token_Done eatsD [OF get_token_laws(2)])
  show "reads 0 0 (with_token post)"
  proof (rule readsI)
    fix mem e i x j assume a: "i + 0 \<le> e" "e \<le> length mem" "with_token post mem e i = Inr (Done (x, j))"
    then show "i \<le> j \<and> j + 0 \<le> e" using with_token_Done [OF a(3)] reads_bounds [OF get_token_laws(1)] by metis
  next
    fix mem e i x j mem' e' assume a: "i + 0 \<le> e" "e \<le> length mem" "with_token post mem e i = Inr (Done (x, j))"
      "i \<le> j" "j + 0 \<le> e" "i + 0 \<le> e'" "e' \<le> length mem'" "e' < j + 0 \<longrightarrow> not_blank mem' e'" "\<forall>q < min e' (j + 0). mem' ! q = mem ! q"
    from with_token_Done [OF a(3)] obtain n where t: "get_token_to_eol mem e i = Inr (Done ((i, n), j))" "i + n < j"
      "mem ! (i + n) \<in> {CR, LF}" "post mem i n = Inr (Done x)" .
    have t': "get_token_to_eol mem' e' i = Inr (if j + 0 \<le> e' then Done ((i, n), j) else Stop (- 2))"
      by (rule reads_other [OF get_token_laws(1) t(1) a(1,2,6,7)]) (use a(8,9) in auto)
    show "with_token post mem' e' i = Inr (if j + 0 \<le> e' then Done (x, j) else Stop (- 2))"
    proof (cases "j \<le> e'")
      case False
      with t' show ?thesis by (simp add: with_token_def)
    next
      case True
      then have "post mem' i n = Inr (Done x)"
        using a(2,5,7,9) by (intro assms [unfolded reads_token_def, rule_format, OF t(4,2,3)]) auto
      with t' True show ?thesis by (simp add: with_token_def)
    qed
  qed
qed

definition status_text :: "bytes \<Rightarrow> nat \<Rightarrow> nat \<Rightarrow> (nat \<times> nat) parsed result" where
  "status_text mem msg len =
     (if len = 0 then Inr (Done (msg, len))
      else if length mem \<le> msg then Inl OutOfBounds
      else if mem ! msg = CHR '' '' then bindE (skip_sp mem msg) (\<lambda>k. Inr (Done (k, len - (k - msg))))
      else Inr (Stop (- 1)))"

lemma status_message_with: "status_message = with_token status_text"
  by (intro ext) (auto simp: status_message_def with_token_def status_text_def bindE_def split: sum.splits parsed.splits)

lemma status_message_laws: "reads 0 0 status_message" "eats 1 status_message"
proof -
  have "status_text mem' v n = Inr (Done x)"
    if a: "status_text mem v n = Inr (Done x)" "v + n < j" "mem ! (v + n) \<in> {CR, LF}" "j \<le> length mem" "j \<le> length mem'"
      "\<forall>q < j. mem' ! q = mem ! q" for mem mem' v n j x
  proof (cases "n = 0")
    case True
    with a(1) show ?thesis by (simp add: status_text_def)
  next
    case False
    with a(1) obtain k where k: "skip_sp mem v = Inr k" "mem ! v = CHR '' ''" "x = (k, n - (k - v))"
      by (auto simp: status_text_def bindE_eq_Inr split: if_splits)
    note r = skip_sp_result [OF k(1)]
    have "k \<le> v + n"
    proof (rule ccontr)
      assume "\<not> k \<le> v + n"
      then have "mem ! (v + n) = CHR '' ''" using r by simp
      with a(3) show False by simp
    qed
    then have "skip_sp mem' v = Inr k" using r a(2,5,6) by (intro skip_sp_stop) auto
    then show ?thesis using False k(2,3) a(2,5,6) by (simp add: status_text_def)
  qed
  then have "reads_token status_text" unfolding reads_token_def by blast
  from with_token_laws [OF this] show "reads 0 0 status_message" "eats 1 status_message"
    unfolding status_message_with by blast+
qed

text \<open>Headers.\<close>

lemma header_name_laws: "reads 0 1 header_name" "eats 0 header_name"
proof -
  let ?t = "\<lambda>start i. bindP advance (\<lambda>_. bindP (scan ows_act) (\<lambda>_. yieldP (start :: nat, i - start :: nat)))"
  let ?u = "\<lambda>start i. if i - start = 0 then stopP (- 1) else ?t start i"
  have a: "reads 0 1 (bindP (scan ows_act) (\<lambda>_. yieldP y))" "eats 0 (bindP (scan ows_act) (\<lambda>_. yieldP y))" for y :: "nat \<times> nat"
    by (rule reads_seq [OF scan_laws reads_basic(5)]; simp add: eats_basic) (rule eats_left [OF find_ctl_laws(2) eats_basic(5)])
  have t: "reads 1 1 (?t start i)" "eats 1 (?t start i)" for start i
    by (rule reads_seq [OF reads_basic(3) a(1)]; simp add: a(2)) (rule eats_left [OF eats_basic(3) a(2)])
  have u: "reads 1 1 (?u start i)" "eats 0 (?u start i)" for start i
    by (rule reads_if [OF reads_basic(6) t(1)]) (rule eats_if [OF eats_basic(6) eats_0 [OF t(2)]])
  have h: "reads 1 1 (bindP here (?u start))" "eats 0 (bindP here (?u start))" for start
    by (rule reads_seq [OF reads_basic(4) u(1) order_refl u(2)]) (rule eats_right [OF eats_basic(4) u(2)])
  have s: "reads 0 1 (bindP (scan name_act) (\<lambda>_. bindP here (?u start)))" "eats 0 (bindP (scan name_act) (\<lambda>_. bindP here (?u start)))" for start
    by (rule reads_seq [OF scan_laws h(1) order_refl h(2)]) (rule eats_right [OF find_ctl_laws(2) h(2)])
  show "reads 0 1 header_name"
    unfolding header_name_def by (rule reads_seq [OF reads_basic(4) s(1) le0 s(2)])
  show "eats 0 header_name"
    unfolding header_name_def by (rule eats_right [OF eats_basic(4) s(2)])
qed

lemma trim_value_ok: "v + n \<le> length mem \<Longrightarrow> \<exists>m. trim_value mem v n = Inr m"
  by (induction mem v n rule: trim_value.induct) auto

lemma trim_value_cong:
  "v + n \<le> length mem \<Longrightarrow> v + n \<le> length mem' \<Longrightarrow> \<forall>q < v + n. mem' ! q = mem ! q \<Longrightarrow> trim_value mem' v n = trim_value mem v n"
  by (induction mem v n rule: trim_value.induct) auto

lemma header_value_with: "header_value = with_token (\<lambda>mem v n. bindE (trim_value mem v n) (\<lambda>m. Inr (Done (v, m))))"
  by (intro ext) (auto simp: header_value_def with_token_def bindE_def split: sum.splits parsed.splits)

lemma header_value_laws: "reads 0 0 header_value" "eats 1 header_value"
proof -
  have "trim_value mem' v n = trim_value mem v n"
    if "v + n < j" "j \<le> length mem" "j \<le> length mem'" "\<forall>q < j. mem' ! q = mem ! q" for mem mem' v n j
    using that by (intro trim_value_cong) auto
  then have "reads_token (\<lambda>mem v n. bindE (trim_value mem v n) (\<lambda>m. Inr (Done (v, m))))"
    unfolding reads_token_def bindE_eq_Inr by metis
  from with_token_laws [OF this] show "reads 0 0 header_value" "eats 1 header_value"
    unfolding header_value_with by blast+
qed

definition header_key :: "nat \<Rightarrow> char \<Rightarrow> (nat option \<times> nat) phr" where
  "header_key n c =
     (if n \<noteq> 0 \<and> (c = CHR '' '' \<or> c = CHR 0x09) then yieldP (None, 0)
      else bindP header_name (\<lambda>(name, len). yieldP (Some name, len)))"

definition header_cont :: "nat \<Rightarrow> nat \<Rightarrow> nat option \<times> nat \<Rightarrow> phr_header list phr" where
  "header_cont n room = (\<lambda>(name, name_len).
     bindP header_value (\<lambda>(v, len).
     bindP (parse_headers (n + 1) room) (\<lambda>hs.
       yieldP (\<lparr>hdr_name = name, hdr_name_len = name_len, hdr_value = v, hdr_value_len = len\<rparr> # hs))))"

definition header_line_of :: "nat \<Rightarrow> nat \<Rightarrow> char \<Rightarrow> phr_header list phr" where
  "header_line_of n room c =
     (if c = CR then bindP advance (\<lambda>_. bindP (expect LF) (\<lambda>_. yieldP []))
      else if c = LF then bindP advance (\<lambda>_. yieldP [])
      else case room of 0 \<Rightarrow> stopP (- 1) | Suc room \<Rightarrow> bindP (header_key n c) (header_cont n room))"

lemma parse_headers_eq: "parse_headers n room = bindP next_char (header_line_of n room)"
  unfolding parse_headers.simps [of n room] header_line_of_def [abs_def] header_key_def header_cont_def ..

lemma parse_headers_laws: "reads 0 0 (parse_headers n room) \<and> eats 1 (parse_headers n room)"
proof (induction room arbitrary: n)
  have e: "reads 1 0 (bindP advance (\<lambda>_. bindP (expect LF) (\<lambda>_. yieldP y)))" "eats 1 (bindP advance (\<lambda>_. bindP (expect LF) (\<lambda>_. yieldP y)))"
    "reads 1 0 (bindP advance (\<lambda>_. yieldP y))" "eats 1 (bindP advance (\<lambda>_. yieldP y))" for y :: "phr_header list"
  proof -
    have x: "reads 0 0 (bindP (expect LF) (\<lambda>_. yieldP y))" "eats 1 (bindP (expect LF) (\<lambda>_. yieldP y))"
      by (rule reads_seq [OF expect_laws(1) reads_basic(5)]; simp add: eats_basic) (rule eats_left [OF expect_laws(2) eats_basic(5)])
    show "reads 1 0 (bindP advance (\<lambda>_. bindP (expect LF) (\<lambda>_. yieldP y)))"
      by (rule reads_seq [OF reads_basic(3) x(1)]) (simp_all add: eats_0 [OF x(2)])
    show "eats 1 (bindP advance (\<lambda>_. bindP (expect LF) (\<lambda>_. yieldP y)))"
      by (rule eats_left [OF eats_basic(3) eats_0 [OF x(2)]])
    show "reads 1 0 (bindP advance (\<lambda>_. yieldP y))"
      by (rule reads_seq [OF reads_basic(3) reads_basic(5)]) (simp_all add: eats_basic)
    show "eats 1 (bindP advance (\<lambda>_. yieldP y))"
      by (rule eats_left [OF eats_basic(3) eats_basic(5)])
  qed
  have all: "reads 0 0 (parse_headers n room) \<and> eats 1 (parse_headers n room)"
    if l: "\<And>c. reads 1 0 (header_line_of n room c)" "\<And>c. eats 1 (header_line_of n room c)" for n room
    unfolding parse_headers_eq
    by (rule conjI [OF reads_step [OF next_char_laws(1) l(1) l(2)] eats_right [OF next_char_laws(2) l(2)]])
  { case 0
    have "reads 1 0 (header_line_of n 0 c)" "eats 1 (header_line_of n 0 c)" for c
      unfolding header_line_of_def using e by (simp_all add: reads_basic eats_basic)
    then show ?case by (rule all) }
  { case (Suc room)
    have y: "reads 0 0 (bindP (parse_headers (n + 1) room) (\<lambda>hs. yieldP (f hs)))"
      "eats 0 (bindP (parse_headers (n + 1) room) (\<lambda>hs. yieldP (f hs)))" for f :: "phr_header list \<Rightarrow> phr_header list"
      using Suc.IH [of "n + 1"]
      by (auto intro!: reads_seq [where a = 0] eats_0 [OF eats_left] reads_basic eats_basic)
    have c: "reads 0 0 (header_cont n room k)" "eats 1 (header_cont n room k)" for k
      unfolding header_cont_def split_def
      by (rule reads_seq [OF header_value_laws(1) y(1) order_refl y(2)]) (rule eats_left [OF header_value_laws(2) y(2)])
    have k: "reads 1 1 (header_key n c)" "eats 0 (header_key n c)" for c
    proof -
      have "reads 1 1 (bindP header_name (\<lambda>(name, len). yieldP (Some name, len)))"
        unfolding split_def
        by (rule reads_more [OF reads_seq [OF header_name_laws(1) reads_basic(5)]]) (simp_all add: eats_basic)
      moreover have "eats 0 (bindP header_name (\<lambda>(name, len). yieldP (Some name, len)))"
        unfolding split_def by (rule eats_left [OF header_name_laws(2) eats_basic(5)])
      ultimately show "reads 1 1 (header_key n c)" "eats 0 (header_key n c)"
        unfolding header_key_def by (simp_all only: reads_if [OF reads_basic(5)] eats_if [OF eats_basic(5)])
    qed
    have "reads 1 0 (bindP (header_key n c) (header_cont n room))" "eats 1 (bindP (header_key n c) (header_cont n room))" for c
      by (rule reads_step [OF k(1) reads_more [OF c(1)] c(2)]; simp) (rule eats_right [OF k(2) c(2)])
    then have "reads 1 0 (header_line_of n (Suc room) c)" "eats 1 (header_line_of n (Suc room) c)" for c
      unfolding header_line_of_def using e by simp_all
    then show ?case by (rule all) }
qed

lemma parse_response_reads: "reads 0 0 (parse_response m)"
proof -
  have h: "reads 0 0 (bindP (parse_headers 0 m) (\<lambda>hs. yieldP (f hs)))" "eats 0 (bindP (parse_headers 0 m) (\<lambda>hs. yieldP (f hs)))"
    for f :: "phr_header list \<Rightarrow> phr_response"
    using parse_headers_laws [of 0 m] by (auto intro!: reads_seq [where a = 0] eats_0 [OF eats_left] reads_basic eats_basic)
  have s: "reads 0 0 (bindP status_message (\<lambda>msg. bindP (parse_headers 0 m) (\<lambda>hs. yieldP (f msg hs))))"
    "eats 1 (bindP status_message (\<lambda>msg. bindP (parse_headers 0 m) (\<lambda>hs. yieldP (f msg hs))))" for f :: "nat \<times> nat \<Rightarrow> phr_header list \<Rightarrow> phr_response"
    by (rule reads_seq [OF status_message_laws(1) h(1) order_refl h(2)]) (rule eats_left [OF status_message_laws(2) h(2)])
  have c: "reads 4 0 (bindP parse_int_3 (\<lambda>code. bindP status_message (\<lambda>msg. bindP (parse_headers 0 m) (\<lambda>hs. yieldP (f code msg hs)))))"
    "eats (3 + 1) (bindP parse_int_3 (\<lambda>code. bindP status_message (\<lambda>msg. bindP (parse_headers 0 m) (\<lambda>hs. yieldP (f code msg hs)))))"
    for f :: "nat \<Rightarrow> nat \<times> nat \<Rightarrow> phr_header list \<Rightarrow> phr_response"
    by (rule reads_seq [OF reads_more [OF parse_int_3_laws(1)] s(1) order_refl eats_0 [OF s(2)]]; simp?)
      (rule eats_bind [OF moves_eats [OF parse_int_3_laws(2)] s(2)])
  have k: "reads 1 0 (bindP skip_to_status (\<lambda>_. bindP parse_int_3 (\<lambda>code. bindP status_message (\<lambda>msg.
       bindP (parse_headers 0 m) (\<lambda>hs. yieldP (f code msg hs))))))" (is "reads 1 0 ?k")
    "eats 1 (bindP skip_to_status (\<lambda>_. bindP parse_int_3 (\<lambda>code. bindP status_message (\<lambda>msg.
       bindP (parse_headers 0 m) (\<lambda>hs. yieldP (f code msg hs))))))"
    for f :: "nat \<Rightarrow> nat \<times> nat \<Rightarrow> phr_header list \<Rightarrow> phr_response"
    by (rule reads_bind [OF skip_to_status_laws(1) c(1)], drule eatsD [OF c(2)], simp)
      (rule eats_left [OF skip_to_status_laws(2) eats_0 [OF c(2)]])
  show ?thesis
    unfolding parse_response_def by (rule reads_step [OF parse_http_version_laws k(1) k(2)])
qed

end
