(* ===== verification/Http.thy ===== *)
theory Http
  imports Pico_Http Agent
begin

section \<open>HTTP (\<open>agents/http_app.cc\<close>)\<close>

text \<open>
  The builder, the consumer and the initialisation of the HTTP protocol. The consumer is shown to
  count a well-formed response exactly once it is complete, wherever the stream is cut and
  whatever the buffer holds behind the bytes received.
\<close>

subsection \<open>The protocol's functions\<close>

text \<open>\<open>strncpy\<close>: up to the NUL, then filled up with NULs.\<close>

definition strncpy :: "bytes \<Rightarrow> nat \<Rightarrow> bytes" where
  "strncpy s n = take n (takeWhile (\<lambda>c. c \<noteq> NUL) s @ replicate n NUL)"

definition http_create_request :: "string \<Rightarrow> rand_env \<Rightarrow> request \<Rightarrow> (request \<times> rand_env) result" where
  "http_create_request http_params e req =
     Inr (req\<lparr>iovs := [mk_iov (strncpy http_params (length http_params)) (length http_params)], iov_cnt := 1, meta := 0\<rparr>, e)"

abbreviation max_headers :: nat where "max_headers \<equiv> 32"

text \<open>
  A header counts as \<open>Content-Length\<close> when its name agrees with it as far as the shorter of the two
  goes. \<open>strncmp\<close> of a null pointer (a continuation line) is undefined.
\<close>

fun find_content_length :: "bytes \<Rightarrow> phr_header list \<Rightarrow> int option result" where
  "find_content_length mem [] = Inr None"
| "find_content_length mem (h # hs) =
     (case hdr_name h of
        None \<Rightarrow> Inl NullDeref
      | Some name \<Rightarrow>
          bindE (strncmp_eq (drop name mem) (cstr ''Content-Length'') (min 14 (hdr_name_len h))) (\<lambda>eq.
            if eq then bindE (atoll (drop (hdr_value h) mem)) (\<lambda>n. Inr (Some n))
            else find_content_length mem hs))"

text \<open>The sum of the parsed bytes and the announced length is a \<open>size_t\<close>.\<close>

definition http_consume_response :: "iovec \<Rightarrow> byte_req_pair result" where
  "http_consume_response response =
     bindE (phr_parse_response (iov_base response) (iov_len response) max_headers) (\<lambda>r.
     case r of
       Stop n \<Rightarrow> bindE (assertE (n = - 2)) (\<lambda>_. Inr (BRP 0 0))
     | Done (resp, ret) \<Rightarrow>
         bindE (assertE (0 < ret)) (\<lambda>_.
         bindE (find_content_length (iov_base response) (headers resp)) (\<lambda>cl.
         case cl of
           None \<Rightarrow> Inl AssertFail
         | Some n \<Rightarrow>
             let reported_total_len = of_nat ret + of_int n :: u64 in
             if of_nat (iov_len response) < reported_total_len then Inr (BRP 0 0)
             else Inr (BRP reported_total_len 1))))"

subsection \<open>\<open>http_proto_init\<close>\<close>

text \<open>
  The regular expression \<open>^http:([\w\.]*)((?:/[\w\.]+)+)\s*$\<close>: a host of word characters and dots, and
  one or more path segments of them, each after a slash.
\<close>

definition word_char :: "char \<Rightarrow> bool" where
  "word_char c \<longleftrightarrow> is_digit c \<or> (65 \<le> (of_char c :: nat) \<and> (of_char c :: nat) \<le> 90) \<or>
     (97 \<le> (of_char c :: nat) \<and> (of_char c :: nat) \<le> 122) \<or> c = CHR ''_'' \<or> c = CHR ''.''"

lemma length_dropWhile_less [termination_simp]: "length (dropWhile P s) < Suc (length s)"
  by (simp add: length_dropWhile_le less_Suc_eq_le)

fun match_path :: "string \<Rightarrow> string option" where
  "match_path [] = None"
| "match_path (c # s) =
     (let seg = takeWhile word_char s; rest = dropWhile word_char s in
      if c \<noteq> CHR ''/'' \<or> seg = [] then None
      else if list_all is_space rest then Some (c # seg)
      else map_option (\<lambda>p. c # seg @ p) (match_path rest))"

definition http_resource :: "string \<Rightarrow> (string \<times> string) option" where
  "http_resource proto =
     (if take 5 proto = ''http:'' then
        let s = drop 5 proto in map_option (\<lambda>path. (takeWhile word_char s, path)) (match_path (dropWhile word_char s))
      else None)"

definition http_params :: "string \<Rightarrow> string \<Rightarrow> string" where
  "http_params request_host asset_path =
     ''GET '' @ asset_path @ '' HTTP/1.1'' @ CRLF @ ''Host: '' @ request_host @ CRLF @ CRLF"

text \<open>\<open>match.ready()\<close> also holds after a match that failed; then the assertion on its size does not.\<close>

definition http_proto_init :: "string \<Rightarrow> application_protocol result" where
  "http_proto_init proto =
     (case http_resource proto of
        None \<Rightarrow> Inl AssertFail
      | Some (host, path) \<Rightarrow>
          Inr \<lparr>proto_type = PROTO_HTTP, create_request_fn = http_create_request (http_params host path),
               consume_response_fn = Some http_consume_response\<rparr>)"

subsection \<open>Well-formed responses\<close>

definition header_line :: "string \<times> string \<Rightarrow> bytes" where
  "header_line f = fst f @ '': '' @ snd f @ CRLF"

definition line_ok :: "string \<Rightarrow> bool" where
  "line_ok s \<longleftrightarrow> (\<forall>c \<in> set s. ctl_act c = Go)"

definition field_ok :: "string \<times> string \<Rightarrow> bool" where
  "field_ok f \<longleftrightarrow> fst f \<noteq> [] \<and> (\<forall>c \<in> set (fst f). token_char c) \<and> line_ok (snd f) \<and>
     (snd f \<noteq> [] \<longrightarrow> hd (snd f) \<noteq> CHR '' '' \<and> hd (snd f) \<noteq> CHR 0x09)"

definition response_head :: "char \<Rightarrow> string \<Rightarrow> string \<Rightarrow> (string \<times> string) list \<Rightarrow> bytes" where
  "response_head d code reason fs =
     ''HTTP/1.'' @ [d] @ '' '' @ code @ reason @ CRLF @ concat (map header_line fs) @ CRLF"

definition status_ok :: "char \<Rightarrow> string \<Rightarrow> string \<Rightarrow> bool" where
  "status_ok d code reason \<longleftrightarrow> is_digit d \<and> length code = 3 \<and> (\<forall>c \<in> set code. is_digit c) \<and>
     line_ok reason \<and> (reason \<noteq> [] \<longrightarrow> hd reason = CHR '' '')"

subsection \<open>The parser on a well-formed head\<close>

lemma scan_at:
  assumes "mem = pre @ s @ x # post" and "\<forall>c \<in> set s. act c = Go" and "act x = Leave"
  shows "scan act mem (length mem) (length pre) = Inr (Done ((), length pre + length s))"
proof (rule scan_run)
  show "\<forall>q. length pre \<le> q \<and> q < length pre + length s \<longrightarrow> act (mem ! q) = Go"
  proof (intro allI impI)
    fix q assume "length pre \<le> q \<and> q < length pre + length s"
    then have "mem ! q = s ! (q - length pre)" "q - length pre < length s"
      using assms(1) by (auto simp: nth_append)
    with assms(2) show "act (mem ! q) = Go" by simp
  qed
  show "act (mem ! (length pre + length s)) = Leave" using assms(1,3) by (simp add: nth_append)
qed (use assms(1) in simp_all)

lemma ctl_CR: "ctl_act CR = Leave" and name_colon: "name_act (CHR '':'') = Leave"
  by (simp_all add: ctl_act_def IS_PRINTABLE_ASCII_def is_ctl_def name_act_def)

lemma get_token_at:
  assumes "mem = pre @ tok @ CRLF @ post" and "line_ok tok"
  shows "get_token_to_eol mem (length mem) (length pre) =
    Inr (Done ((length pre, length tok), length pre + length tok + 2))"
proof -
  let ?i = "length pre + length tok"
  have f: "find_ctl mem (length mem) (length pre) = Inr (Done ((), ?i))"
    using scan_at [of mem pre tok CR "LF # post" ctl_act] assms find_ctl_scan [of "length pre" "length mem" mem]
    by (simp add: line_ok_def ctl_CR)
  have c: "mem ! ?i = CR" "mem ! Suc ?i = LF" "Suc ?i < length mem"
    using assms(1) by (simp_all add: nth_append)
  have e: "expect LF mem (length mem) (Suc ?i) = Inr (Done ((), Suc (Suc ?i)))"
    using c by (simp add: expect_def expect_no_check_def bindP_def check_eof_def peek_def advance_def yieldP_def)
  show ?thesis
    using f c e by (simp add: get_token_to_eol_def bindP_def here_def peek_def advance_def yieldP_def)
qed

lemma token_char_separators:
  "\<not> token_char CR" "\<not> token_char LF" "\<not> token_char (CHR '' '')" "\<not> token_char (CHR 0x09)" "\<not> token_char (CHR '':'')"
  by code_simp+

lemma header_name_at:
  assumes "mem = pre @ n @ '': '' @ v @ CRLF @ post" and "field_ok (n, v)"
  shows "header_name mem (length mem) (length pre) =
    Inr (Done ((length pre, length n), length pre + length n + 2))"
proof -
  have n: "n \<noteq> []" "\<forall>c \<in> set n. name_act c = Go"
    using assms(2) token_char_separators by (auto simp: field_ok_def name_act_def)
  have s1: "scan name_act mem (length mem) (length pre) = Inr (Done ((), length pre + length n))"
    by (rule scan_at [of _ _ _ "CHR '':''"]) (use assms(1) n(2) name_colon in auto)
  obtain x rest where x: "v @ CRLF @ post = x # rest" "ows_act x = Leave"
    using assms(2) by (cases v) (auto simp: field_ok_def ows_act_def)
  have "mem = (pre @ n @ '':'') @ '' '' @ x # rest" using assms(1) x(1) by simp
  from scan_at [OF this, of ows_act] x(2)
  have s2: "scan ows_act mem (length mem) (Suc (length pre + length n)) = Inr (Done ((), Suc (Suc (length pre + length n))))"
    by (simp add: ows_act_def)
  from s1 s2 n(1) show ?thesis
    by (simp add: header_name_def bindP_def here_def advance_def yieldP_def)
qed

lemma header_value_at:
  assumes "mem = pre @ v @ CRLF @ post" and "line_ok v"
  shows "\<exists>len. header_value mem (length mem) (length pre) = Inr (Done ((length pre, len), length pre + length v + 2))"
  using get_token_at [OF assms] trim_value_ok [of "length pre" "length v" mem] assms(1)
  by (auto simp: header_value_def)

text \<open>The entry for a header line that starts after \<open>pre\<close>.\<close>

definition hdr_at :: "bytes \<Rightarrow> phr_header \<Rightarrow> string \<times> string \<Rightarrow> bool" where
  "hdr_at mem h f \<longleftrightarrow> (\<exists>pre post. mem = pre @ header_line f @ post \<and> hdr_name h = Some (length pre) \<and>
     hdr_name_len h = length (fst f) \<and> hdr_value h = length pre + length (fst f) + 2)"

lemma next_char_at: "i < length mem \<Longrightarrow> next_char mem (length mem) i = Inr (Done (mem ! i, i))"
  by (simp add: next_char_def bindP_def check_eof_def peek_def)

lemma end_of_headers_at:
  assumes "mem = pre @ CRLF"
  shows "parse_headers k room mem (length mem) (length pre) = Inr (Done ([], length mem))"
  using assms next_char_at [of "length pre" mem]
  by (simp add: parse_headers_eq bindP_def header_line_of_def advance_def yieldP_def expect_def expect_no_check_def
      check_eof_def peek_def nth_append)

lemma parse_headers_at:
  "mem = pre @ concat (map header_line fs) @ CRLF \<Longrightarrow> \<forall>f \<in> set fs. field_ok f \<Longrightarrow> length fs \<le> room \<Longrightarrow>
   \<exists>hs. parse_headers k room mem (length mem) (length pre) = Inr (Done (hs, length mem)) \<and> list_all2 (hdr_at mem) hs fs"
proof (induction fs arbitrary: pre k room)
  case Nil
  then show ?case using end_of_headers_at [of mem pre k room] by simp
next
  case (Cons f fs)
  obtain n v where f: "f = (n, v)" by (cases f)
  obtain room' where room: "room = Suc room'" using Cons.prems(3) by (cases room) auto
  let ?rest = "concat (map header_line fs) @ CRLF"
  have hl: "header_line f = n @ '': '' @ v @ CRLF" by (simp add: f header_line_def)
  have mem: "mem = pre @ n @ '': '' @ v @ CRLF @ ?rest" using Cons.prems(1) by (simp add: hl)
  have ok: "field_ok (n, v)" using Cons.prems(2) f by simp
  then obtain c n' where n: "n = c # n'" "token_char c" by (cases n) (auto simp: field_ok_def)
  have c: "c \<noteq> CR" "c \<noteq> LF" "c \<noteq> CHR '' ''" "c \<noteq> CHR 0x09" using n(2) token_char_separators by auto
  have nx: "next_char mem (length mem) (length pre) = Inr (Done (c, length pre))"
    using next_char_at [of "length pre" mem] mem n by (simp add: nth_append)
  let ?pre1 = "pre @ n @ '': ''" and ?pre2 = "pre @ header_line f"
  have name: "header_name mem (length mem) (length pre) = Inr (Done ((length pre, length n), length ?pre1))"
    using header_name_at [OF mem ok] by simp
  have "mem = ?pre1 @ v @ CRLF @ ?rest" using mem by simp
  from header_value_at [OF this] ok obtain len where
    val: "header_value mem (length mem) (length ?pre1) = Inr (Done ((length ?pre1, len), length ?pre1 + length v + 2))"
    by (auto simp: field_ok_def)
  have l2: "length ?pre2 = length ?pre1 + length v + 2" by (simp add: hl)
  have "mem = ?pre2 @ ?rest" using mem by (simp add: hl)
  from Cons.IH [OF this, of room' "k + 1"] Cons.prems(2,3) room obtain hs where
    hs: "parse_headers (k + 1) room' mem (length mem) (length ?pre2) = Inr (Done (hs, length mem))" "list_all2 (hdr_at mem) hs fs"
    by auto
  let ?h = "\<lparr>hdr_name = Some (length pre), hdr_name_len = length n, hdr_value = length ?pre1, hdr_value_len = len\<rparr>"
  have "parse_headers k room mem (length mem) (length pre) = Inr (Done (?h # hs, length mem))"
    unfolding parse_headers_eq bindP_done [where p = next_char, OF nx]
    using c name val hs(1) [unfolded l2]
    by (simp add: room header_line_of_def header_key_def header_cont_def bindP_def yieldP_def)
  moreover have "hdr_at mem ?h f"
    unfolding hdr_at_def using mem by (intro exI [of _ pre] exI [of _ ?rest]) (simp add: f hl [unfolded f])
  ultimately show ?case using hs(2) by auto
qed

text \<open>The status line.\<close>

lemma expect_string_at:
  "mem = pre @ s @ post \<Longrightarrow> expect_string s mem e (length pre) = Inr (Done ((), length pre + length s))"
proof (induction s arbitrary: pre)
  case Nil
  then show ?case by (simp add: yieldP_def)
next
  case (Cons c s)
  have "expect_no_check c mem e (length pre) = Inr (Done ((), length (pre @ [c])))"
    using Cons.prems by (simp add: expect_no_check_def bindP_def peek_def advance_def yieldP_def nth_append)
  moreover have "expect_string s mem e (length (pre @ [c])) = Inr (Done ((), length (pre @ [c]) + length s))"
    by (rule Cons.IH) (use Cons.prems in simp)
  ultimately show ?case by (simp add: bindP_def)
qed

lemma parse_int_at:
  "i < length mem \<Longrightarrow> is_digit (mem ! i) \<Longrightarrow> parse_int m mem e i = Inr (Done (m * digit_val (mem ! i), i + 1))"
  by (simp add: parse_int_def bindP_def peek_def advance_def yieldP_def)

lemma parse_status_at:
  assumes "mem = ''HTTP/1.'' @ [d] @ '' '' @ code @ post" and "is_digit d" and "length code = 3" and "\<forall>c \<in> set code. is_digit c"
    and "14 \<le> length mem"
  shows "parse_http_version mem (length mem) 0 = Inr (Done (digit_val d, 8))"
    and "skip_to_status mem (length mem) 8 = Inr (Done ((), 9))"
    and "\<exists>c. parse_int_3 mem (length mem) 9 = Inr (Done (c, 12))"
proof -
  let ?e = "length mem"
  obtain x y z where code: "code = [x, y, z]" "is_digit x" "is_digit y" "is_digit z"
    using assms(3,4) by (auto simp: length_Suc_conv numeral_eq_Suc)
  have at: "mem ! 7 = d" "mem ! 8 = CHR '' ''" "mem ! 9 = x" "mem ! 10 = y" "mem ! 11 = z"
    using assms(1) code by simp_all
  have "expect_string ''HTTP/1.'' mem ?e (length ([] :: string)) = Inr (Done ((), length ([] :: string) + length ''HTTP/1.''))"
    by (rule expect_string_at) (simp add: assms(1))
  then have "expect_string ''HTTP/1.'' mem ?e 0 = Inr (Done ((), 7))"
    by (simp add: eval_nat_numeral del: expect_string.simps)
  then show "parse_http_version mem ?e 0 = Inr (Done (digit_val d, 8))"
    using at parse_int_at [of 7 mem 1 ?e] assms(2,5)
    by (simp add: parse_http_version_def bindP_def del: expect_string.simps)
  have "x \<noteq> CHR '' ''" using code(2) by (auto simp: is_digit_def)
  then have "skip_sp mem 9 = Inr 9" by (intro skip_sp_stop) (use at assms(5) in auto)
  then show "skip_to_status mem ?e 8 = Inr (Done ((), 9))" using at assms(5) by (simp add: skip_to_status_def)
  show "\<exists>c. parse_int_3 mem ?e 9 = Inr (Done (c, 12))"
    using at code assms(5) parse_int_at [of 9 mem 100 ?e] parse_int_at [of 10 mem 10 ?e] parse_int_at [of 11 mem 1 ?e]
    by (simp add: parse_int_3_def bindP_def yieldP_def)
qed

text \<open>The message is empty or starts with a space.\<close>

lemma status_message_at:
  assumes "mem = pre @ reason @ CRLF @ post" and "line_ok reason" and "reason = [] \<or> hd reason = CHR '' ''"
  shows "\<exists>y. status_message mem (length mem) (length pre) = Inr (Done (y, length pre + length reason + 2))"
proof -
  note t = get_token_at [OF assms(1,2)]
  show ?thesis
  proof (cases reason)
    case Nil
    with t show ?thesis by (simp add: status_message_def)
  next
    case (Cons r rs)
    have "mem ! length pre = CHR '' ''" "length pre < length mem" using Cons assms(1,3) by simp_all
    moreover have "mem ! (length pre + length reason) = CR" using assms(1) by (simp add: nth_append)
    then have "not_blank mem (length pre)"
      unfolding not_blank_def by (intro exI [of _ "length pre + length reason"]) (simp add: assms(1))
    from skip_sp_beyond [OF this order_refl] obtain k where "skip_sp mem (length pre) = Inr k" by fastforce
    ultimately show ?thesis using t Cons by (simp add: status_message_def)
  qed
qed

lemma phr_parse_response_head:
  assumes "status_ok d code reason" and "\<forall>f \<in> set fs. field_ok f" and "length fs \<le> m"
    and "mem = response_head d code reason fs"
  shows "\<exists>resp. phr_parse_response mem (length mem) m = Inr (Done (resp, length mem)) \<and>
    list_all2 (hdr_at mem) (headers resp) fs"
proof -
  let ?rest = "concat (map header_line fs) @ CRLF" and ?e = "length mem" and ?pre = "''HTTP/1.'' @ [d] @ '' '' @ code"
  have mem: "mem = ?pre @ reason @ CRLF @ ?rest" using assms(4) by (simp add: response_head_def)
  have s: "is_digit d" "length code = 3" "\<forall>c \<in> set code. is_digit c" "line_ok reason" "reason = [] \<or> hd reason = CHR '' ''"
    using assms(1) by (auto simp: status_ok_def)
  have l: "length ?pre = 12" "14 \<le> ?e" using s(2) mem by simp_all
  have "mem = ''HTTP/1.'' @ [d] @ '' '' @ code @ reason @ CRLF @ ?rest" using mem by simp
  note v = parse_status_at [OF this s(1-3) l(2)]
  from v(3) obtain c where c: "parse_int_3 mem ?e 9 = Inr (Done (c, 12))" by blast
  from status_message_at [OF mem s(4,5)] obtain y where
    y: "status_message mem ?e 12 = Inr (Done (y, length (?pre @ reason @ CRLF)))"
    unfolding l(1) using s(2) by (auto simp: add.commute)
  have "mem = (?pre @ reason @ CRLF) @ concat (map header_line fs) @ CRLF" using mem by simp
  from parse_headers_at [OF this assms(2,3), of 0] obtain hs where
    hs: "parse_headers 0 m mem ?e (length (?pre @ reason @ CRLF)) = Inr (Done (hs, ?e))" "list_all2 (hdr_at mem) hs fs" by blast
  have "parse_response m mem ?e 0 = Inr (Done (\<lparr>minor_version = digit_val d, status = c, message = y, headers = hs\<rparr>, ?e))"
    unfolding parse_response_def bindP_done [where p = parse_http_version, OF v(1)] bindP_done [where p = skip_to_status, OF v(2)]
      bindP_done [where p = parse_int_3, OF c] bindP_done [where p = status_message, OF y]
      bindP_done [where p = "parse_headers 0 m", OF hs(1)]
    by (simp add: yieldP_def)
  with hs(2) show ?thesis by (simp add: phr_parse_response_def)
qed

subsection \<open>The consumer\<close>

text \<open>Headers that the search for \<open>Content-Length\<close> passes over.\<close>

definition no_length :: "string \<times> string \<Rightarrow> bool" where
  "no_length f \<longleftrightarrow> take 14 (fst f) \<noteq> take (length (fst f)) ''Content-Length''"

definition http_reply :: "bytes \<Rightarrow> bytes \<Rightarrow> bool" where
  "http_reply head body \<longleftrightarrow> (\<exists>d code reason fs1 fs2.
     head = response_head d code reason (fs1 @ (''Content-Length'', show_nat (length body)) # fs2) \<and>
     status_ok d code reason \<and> (\<forall>f \<in> set (fs1 @ fs2). field_ok f) \<and> (\<forall>f \<in> set fs1. no_length f) \<and>
     length fs1 + length fs2 < max_headers \<and> length (head @ body) < 2 ^ 63)"

lemma is_digit_go: "is_digit c \<Longrightarrow> ctl_act c = Go"
  by (simp add: is_digit_def ctl_act_def IS_PRINTABLE_ASCII_def)

lemma length_field_ok: "field_ok (''Content-Length'', show_nat n)"
proof -
  have "\<forall>c \<in> set ''Content-Length''. token_char c" by code_simp
  moreover have "line_ok (show_nat n)" by (auto simp: line_ok_def dest: show_nat_is_digit intro: is_digit_go)
  moreover have "hd (show_nat n) \<noteq> CHR '' ''" "hd (show_nat n) \<noteq> CHR 0x09"
    using hd_show_nat(3) [of n] by (auto simp: is_space_def)
  ultimately show ?thesis by (simp add: field_ok_def)
qed

lemma hdr_at_append: "hdr_at mem h f \<Longrightarrow> hdr_at (mem @ junk) h f"
  by (auto simp: hdr_at_def) (metis append.assoc)

lemma content_length_test:
  assumes "hdr_at mem h f"
  shows "\<exists>name. hdr_name h = Some name \<and>
    strncmp_eq (drop name mem) (cstr ''Content-Length'') (min 14 (hdr_name_len h)) = Inr (\<not> no_length f)"
proof -
  from assms obtain pre post where h: "mem = pre @ header_line f @ post" "hdr_name h = Some (length pre)"
    "hdr_name_len h = length (fst f)" by (auto simp: hdr_at_def)
  let ?n = "min 14 (length (fst f))"
  have d: "drop (length pre) mem = fst f @ '': '' @ snd f @ CRLF @ post" using h(1) by (simp add: header_line_def)
  have t: "take ?n (cstr ''Content-Length'') = take ?n ''Content-Length''"
    by (simp only: cstr_def take_append) (simp add: eval_nat_numeral)
  have "NUL \<notin> set ''Content-Length''" by simp
  then have "NUL \<notin> set (take ?n (cstr ''Content-Length''))"
    unfolding t by (meson in_set_takeD)
  then have "strncmp_eq (drop (length pre) mem) (cstr ''Content-Length'') ?n =
      Inr (take ?n (drop (length pre) mem) = take ?n (cstr ''Content-Length''))"
    by (intro strncmp_eq_prefix) (simp_all add: d cstr_def)
  moreover have "take ?n (drop (length pre) mem) = take 14 (fst f)" unfolding d by (simp add: min_def)
  moreover have "take ?n ''Content-Length'' = take (length (fst f)) ''Content-Length''" by (simp add: min_def)
  ultimately show ?thesis using h(2,3) t by (simp add: no_length_def)
qed

lemma find_content_length_at:
  assumes "list_all2 (hdr_at mem) hs (fs1 @ (''Content-Length'', show_nat n) # fs2)" and "\<forall>f \<in> set fs1. no_length f"
    and "n < 2 ^ 63"
  shows "find_content_length mem hs = Inr (Some (int n))"
  using assms(1,2)
proof (induction fs1 arbitrary: hs)
  case Nil
  then obtain h hs' where hs: "hs = h # hs'" "hdr_at mem h (''Content-Length'', show_nat n)" by (cases hs) auto
  from hs(2) obtain pre post where h: "mem = pre @ header_line (''Content-Length'', show_nat n) @ post"
    "hdr_value h = length pre + 16" by (auto simp: hdr_at_def)
  have "mem = (pre @ ''Content-Length: '') @ show_nat n @ CR # LF # post" using h(1) by (simp add: header_line_def)
  then have "drop (hdr_value h) mem = show_nat n @ CR # LF # post"
    using h(2) by (simp only: drop_append) simp
  moreover have "\<not> is_digit CR" by (simp add: is_digit_def)
  ultimately have "atoll (drop (hdr_value h) mem) = Inr (int n)"
    using assms(3) by (simp add: atoll_show_nat)
  with content_length_test [OF hs(2)] hs(1) show ?case by (auto simp: no_length_def)
next
  case (Cons f fs)
  then obtain h hs' where hs: "hs = h # hs'" "hdr_at mem h f"
    "list_all2 (hdr_at mem) hs' (fs @ (''Content-Length'', show_nat n) # fs2)" by (cases hs) auto
  with Cons.IH [OF hs(3)] Cons.prems(2) content_length_test [OF hs(2)] show ?case by auto
qed

lemma http_consume_cut:
  assumes "http_reply head body" and "k \<le> length mem" and "k < 2 ^ 63"
    and "\<forall>q < min k (length (head @ body)). mem ! q = (head @ body) ! q"
    and "k < length head \<longrightarrow> not_blank mem k"
  shows "http_consume_response (mk_iov mem k) =
    Inr (if length (head @ body) \<le> k then to_brp (length (head @ body), 1) else to_brp (0, 0))"
proof -
  from assms(1) obtain d code reason fs1 fs2 where
    head: "head = response_head d code reason (fs1 @ (''Content-Length'', show_nat (length body)) # fs2)"
    and ok: "status_ok d code reason" "\<forall>f \<in> set (fs1 @ fs2). field_ok f" "\<forall>f \<in> set fs1. no_length f"
      "length fs1 + length fs2 < max_headers" "length (head @ body) < 2 ^ 63" by (auto simp: http_reply_def)
  let ?fs = "fs1 @ (''Content-Length'', show_nat (length body)) # fs2"
  have "\<forall>f \<in> set ?fs. field_ok f" "length ?fs \<le> max_headers" using ok(2,4) length_field_ok by auto
  from phr_parse_response_head [OF ok(1) this head] obtain resp where
    resp: "parse_response max_headers head (length head) 0 = Inr (Done (resp, length head))" "list_all2 (hdr_at head) (headers resp) ?fs"
    by (auto simp: phr_parse_response_def)
  have cut: "phr_parse_response mem k max_headers = Inr (if length head \<le> k then Done (resp, length head) else Stop (- 2))"
    using reads_other [OF parse_response_reads resp(1), of k mem] assms(2,4,5)
    by (simp add: phr_parse_response_def nth_append)
  show ?thesis
  proof (cases "length head \<le> k")
    case False
    with cut show ?thesis by (simp add: http_consume_response_def to_brp_def)
  next
    case True
    have "take (length head) mem = head"
      by (rule nth_equalityI) (use True assms(2,4) in \<open>auto simp: nth_append\<close>)
    then obtain junk where mem: "mem = head @ junk" by (metis append_take_drop_id)
    have "list_all2 (hdr_at mem) (headers resp) ?fs"
      using resp(2) unfolding mem by (rule list_all2_mono) (rule hdr_at_append)
    from find_content_length_at [OF this ok(3)] ok(5)
    have cl: "find_content_length mem (headers resp) = Inr (Some (int (length body)))" by simp
    have pos: "0 < length head" by (simp add: head response_head_def)
    have sum: "of_nat (length head) + of_int (int (length body)) = (of_nat (length (head @ body)) :: u64)" by simp
    have lt: "(of_nat k :: u64) < of_nat (length (head @ body)) \<longleftrightarrow> k < length (head @ body)"
      using assms(3) ok(5) by (simp add: word_less_nat_alt unat_of_nat_id del: length_append)
    show ?thesis
      using True cut cl pos lt
      by (simp add: http_consume_response_def sum to_brp_def Let_def not_less del: length_append of_int_of_nat_eq)
  qed
qed

text \<open>
  Property C14. The HTTP consumer and a server that answers a request with a well-formed response: a
  status line, at most 32 fields, among them \<open>Content-Length\<close> with the body's length and before it
  none whose name agrees with that one, and a body. Wherever the stream is cut, and whatever follows
  the response in the stream and the bytes received in the buffer, the consumer reports nothing until
  the response is complete and then the response's bytes as one response. The buffer must hold
  something other than spaces behind the bytes received: the parser skips spaces without a bound.
\<close>

theorem http_counts_response:
  assumes "http_reply head body" and "k \<le> length (head @ body @ rest)" and "k < 2 ^ 63"
    and "\<exists>c \<in> set stale. c \<noteq> CHR '' ''"
  shows "http_consume_response (mk_iov (take k (head @ body @ rest) @ stale) k) =
    Inr (if length (head @ body) \<le> k then to_brp (length (head @ body), 1) else to_brp (0, 0))"
proof (rule http_consume_cut [OF assms(1) _ assms(3)])
  let ?m = "take k (head @ body @ rest) @ stale"
  have l: "length (take k (head @ body @ rest)) = k" using assms(2) by simp
  show "k \<le> length ?m" using l by simp
  show "\<forall>q < min k (length (head @ body)). ?m ! q = (head @ body) ! q"
    using l by (auto simp: nth_append)
  from assms(4) obtain q where q: "q < length stale" "stale ! q \<noteq> CHR '' ''" by (metis in_set_conv_nth)
  then have "k + q < length ?m" "?m ! (k + q) = stale ! q" using l by (simp_all only: length_append nth_append) simp_all
  with q show "k < length head \<longrightarrow> not_blank ?m k" unfolding not_blank_def by (intro impI exI [of _ "k + q"]) simp
qed

definition ok_head :: bytes where
  "ok_head = response_head CHR ''1'' ''200'' '' OK'' [(''Server'', ''nginx''), (''Content-Length'', ''2'')]"

lemma ok_head_length: "length (ok_head @ ''hi'') = 55" by code_simp

lemma ok_reply: "http_reply ok_head ''hi''"
proof -
  have n: "show_nat (length ''hi'') = ''2''" by code_simp
  have "field_ok (''Server'', ''nginx'')" "status_ok CHR ''1'' ''200'' '' OK''" "no_length (''Server'', ''nginx'')"
    by code_simp+
  moreover have "ok_head = response_head CHR ''1'' ''200'' '' OK''
      ([(''Server'', ''nginx'')] @ (''Content-Length'', show_nat (length ''hi'')) # [])"
    unfolding n ok_head_def by simp
  moreover have "length (ok_head @ ''hi'') < 2 ^ 63" using ok_head_length by simp
  ultimately show ?thesis
    unfolding http_reply_def
    by (intro exI [of _ "CHR ''1''"] exI [of _ "''200''"] exI [of _ "'' OK''"] exI [of _ "[(''Server'', ''nginx'')]"] exI [of _ "[]"])
      (simp del: of_nat_unat length_append)
qed

theorem http_counts_response_witness:
  "http_consume_response (mk_iov (take 53 (ok_head @ ''hi'' @ ''HTTP'') @ [NUL]) 53) = Inr (BRP 0 0) \<and>
   http_consume_response (mk_iov (take 57 (ok_head @ ''hi'' @ ''HTTP'') @ [NUL]) 57) = Inr (BRP 55 1)"
  using http_counts_response [OF ok_reply, of 53 "''HTTP''" "[NUL]"] http_counts_response [OF ok_reply, of 57 "''HTTP''" "[NUL]"]
    ok_head_length
  by (simp add: to_brp_def)

subsection \<open>Replies without a length\<close>

lemma find_content_length_none:
  "list_all2 (hdr_at mem) hs fs \<Longrightarrow> \<forall>f \<in> set fs. no_length f \<Longrightarrow> find_content_length mem hs = Inr None"
proof (induction hs fs rule: list_all2_induct)
  case (Cons h hs f fs)
  then show ?case using content_length_test [of mem h f] by auto
qed simp

text \<open>
  A response that carries no \<open>Content-Length\<close>, such as one with chunked transfer
  encoding, or that writes the name in another case, ends the agent: its head is parsed, no field is
  found, and the assertion fails.
\<close>

theorem http_without_length_aborts:
  assumes "status_ok d code reason" and "\<forall>f \<in> set fs. field_ok f \<and> no_length f" and "length fs \<le> max_headers"
  shows "http_consume_response (mk_iov (response_head d code reason fs @ rest) (length (response_head d code reason fs @ rest))) =
    Inl AssertFail"
proof -
  let ?head = "response_head d code reason fs"
  let ?mem = "?head @ rest"
  from phr_parse_response_head [OF assms(1) _ assms(3) refl] assms(2) obtain resp where
    resp: "parse_response max_headers ?head (length ?head) 0 = Inr (Done (resp, length ?head))" "list_all2 (hdr_at ?head) (headers resp) fs"
    by (auto simp: phr_parse_response_def)
  have "parse_response max_headers ?mem (length ?mem) 0 = Inr (Done (resp, length ?head))"
    using reads_other [OF parse_response_reads resp(1), of "length ?mem" ?mem] by (simp add: nth_append)
  moreover have "list_all2 (hdr_at ?mem) (headers resp) fs"
    using resp(2) by (rule list_all2_mono) (rule hdr_at_append)
  moreover have "0 < length ?head" by (simp add: response_head_def)
  ultimately show ?thesis
    using find_content_length_none [of ?mem "headers resp" fs] assms(2)
    by (simp add: http_consume_response_def phr_parse_response_def)
qed

theorem http_without_length_aborts_witness:
  "http_consume_response (mk_iov (response_head CHR ''1'' ''200'' '' OK'' [(''content-length'', ''2'')] @ ''hi'')
     (length (response_head CHR ''1'' ''200'' '' OK'' [(''content-length'', ''2'')] @ ''hi''))) = Inl AssertFail"
proof (rule http_without_length_aborts)
  show "status_ok CHR ''1'' ''200'' '' OK''" by code_simp
  have "field_ok (''content-length'', ''2'')" "no_length (''content-length'', ''2'')" by code_simp+
  then show "\<forall>f \<in> set [(''content-length'', ''2'')]. field_ok f \<and> no_length f" by simp
qed simp

subsection \<open>The request\<close>

definition path_of :: "string list \<Rightarrow> string" where
  "path_of segs = concat (map (\<lambda>s. CHR ''/'' # s) segs)"

lemma word_char_separators: "\<not> word_char (CHR ''/'')" "is_space c \<Longrightarrow> \<not> word_char c"
  by (auto simp: word_char_def is_digit_def is_space_def)

lemma match_path_of:
  assumes "segs \<noteq> []" and "\<forall>s \<in> set segs. s \<noteq> [] \<and> (\<forall>c \<in> set s. word_char c)" and "\<forall>c \<in> set sp. is_space c"
  shows "match_path (path_of segs @ sp) = Some (path_of segs)"
  using assms(1,2)
proof (induction segs)
  case (Cons s segs)
  let ?rest = "path_of segs @ sp"
  have r: "?rest = [] \<or> \<not> word_char (hd ?rest)"
    using assms(3) word_char_separators by (cases segs; cases sp) (auto simp: path_of_def)
  then have tw: "takeWhile word_char (s @ ?rest) = s" "dropWhile word_char (s @ ?rest) = ?rest"
    using Cons.prems(2) by (cases ?rest; simp)+
  have p: "path_of (s # segs) = CHR ''/'' # s @ path_of segs" by (simp add: path_of_def)
  show ?case
  proof (cases "segs = []")
    case True
    then show ?thesis using tw Cons.prems(2) assms(3) by (simp add: p path_of_def list_all_iff)
  next
    case False
    then have "\<not> list_all is_space (path_of segs)"
      by (cases segs) (auto simp: path_of_def is_space_def)
    with False tw Cons show ?thesis by (simp add: p)
  qed
qed simp

lemma word_char_not_NUL: "word_char c \<Longrightarrow> c \<noteq> NUL"
  by (auto simp: word_char_def is_digit_def)

lemma strncpy_whole: "NUL \<notin> set s \<Longrightarrow> strncpy s (length s) = s"
  by (subst strncpy_def, subst takeWhile_eq_all_conv [THEN iffD2]) auto

text \<open>
  \<open>http_proto_init\<close> on \<open>http:\<close>, a host and a path, with white space behind them at most,
  reads the two back: the protocol's builder sends exactly the \<open>GET\<close> of that path with that host, one
  vector long, for every request. Anything that lacks the prefix or has no path ends the agent in
  an assertion; the return of -1 is never reached.
\<close>

theorem http_init_reads_target:
  assumes "\<forall>c \<in> set host. word_char c" and "segs \<noteq> []"
    and "\<forall>s \<in> set segs. s \<noteq> [] \<and> (\<forall>c \<in> set s. word_char c)" and "\<forall>c \<in> set sp. is_space c"
  shows "http_proto_init host = Inl AssertFail \<and> http_proto_init (''http:'' @ host) = Inl AssertFail \<and>
    (\<exists>proto. http_proto_init (''http:'' @ host @ path_of segs @ sp) = Inr proto \<and>
      proto_type proto = PROTO_HTTP \<and> consume_response_fn proto = Some http_consume_response \<and>
      (\<forall>e req. create_request proto e req = Inr (req\<lparr>iovs := [mk_iov (http_params host (path_of segs))
        (length (http_params host (path_of segs)))], iov_cnt := 1, meta := 0\<rparr>, e)))"
proof -
  let ?path = "path_of segs @ sp"
  obtain r where r: "?path = CHR ''/'' # r" using assms(2) by (cases segs) (auto simp: path_of_def)
  have hp: "takeWhile word_char (host @ ?path) = host" "dropWhile word_char (host @ ?path) = ?path"
    using assms(1) word_char_separators(1) unfolding r by simp_all
  have m: "match_path ?path = Some (path_of segs)" by (rule match_path_of [OF assms(2-4)])
  have "take 5 host \<noteq> ''http:''"
  proof
    assume "take 5 host = ''http:''"
    then have "CHR '':'' \<in> set (take 5 host)" by simp
    then have "word_char (CHR '':'')" using assms(1) by (meson in_set_takeD)
    then show False by (simp add: word_char_def is_digit_def)
  qed
  then have "http_resource host = None" by (simp add: http_resource_def)
  moreover have "http_resource (''http:'' @ host) = None"
    by (subst http_resource_def) (simp add: dropWhile_eq_Nil_conv [THEN iffD2, OF assms(1)] del: dropWhile_eq_Nil_conv)
  moreover have "http_resource (''http:'' @ host @ ?path) = Some (host, path_of segs)"
    using hp m by (simp add: http_resource_def del: append_assoc)
  moreover have "NUL \<notin> set (http_params host (path_of segs))"
    using word_char_not_NUL assms(1,3) by (auto simp: http_params_def path_of_def)
  ultimately show ?thesis by (simp add: http_proto_init_def create_request_def http_create_request_def strncpy_whole)
qed

theorem http_init_reads_target_witness:
  "\<exists>proto. http_proto_init ''http:example.org/a/index.html '' = Inr proto \<and> (\<exists>req e. create_request proto start_env empty_request = Inr (req, e) \<and>
     map iov_data (iovs req) = [''GET /a/index.html HTTP/1.1'' @ CRLF @ ''Host: example.org'' @ CRLF @ CRLF])"
proof -
  have w: "\<forall>c \<in> set ''example.org''. word_char c" "\<forall>s \<in> set [''a'', ''index.html'']. s \<noteq> [] \<and> (\<forall>c \<in> set s. word_char c)"
    "\<forall>c \<in> set '' ''. is_space c" by code_simp+
  have p: "''http:example.org/a/index.html '' = ''http:'' @ ''example.org'' @ path_of [''a'', ''index.html''] @ '' ''"
    by (simp add: path_of_def)
  show ?thesis
    unfolding p using http_init_reads_target [OF w(1) _ w(2,3)] by (auto simp: http_params_def path_of_def)
qed

end
