(* ===== verification/App_Proto.thy ===== *)
theory App_Proto
  imports Memcache Redis Simple_Protocols Http
begin

section \<open>Choosing the application protocol (\<open>init_app_proto\<close> of \<open>agents/app_proto.c\<close>)\<close>

text \<open>
  The dispatch on the protocol's description, and the function tables the initialisation of each
  protocol fills in. The proofs show which descriptions lead to a table a transport can use.
\<close>

subsection \<open>The function tables\<close>

definition memcache_table :: "memcache_variant \<times> kv_info \<Rightarrow> application_protocol" where
  "memcache_table = (\<lambda>(v, data).
     case v of
       MEMCACHED_BIN \<Rightarrow>
         \<lparr>proto_type = PROTO_MEMCACHED_BIN, create_request_fn = memcache_bin_create_request data,
          consume_response_fn = Some memcache_bin_consume_response\<rparr>
     | MEMCACHED_ASCII \<Rightarrow>
         \<lparr>proto_type = PROTO_MEMCACHED_ASCII, create_request_fn = memcache_ascii_create_request data,
          consume_response_fn = Some memcache_ascii_consume_response\<rparr>)"

fun redis_table :: "redis_variant \<Rightarrow> application_protocol" where
  "redis_table (REDIS_KV data) =
     \<lparr>proto_type = PROTO_REDIS, create_request_fn = redis_kv_create_request data,
      consume_response_fn = Some redis_kv_consume_response\<rparr>"
| "redis_table (REDIS_YCSBE info) =
     \<lparr>proto_type = PROTO_REDIS_YCSBE, create_request_fn = redis_ycsbe_create_request info,
      consume_response_fn = None\<rparr>"

text \<open>
  \<open>init_app_proto\<close>. \<open>raw\<close> is what the table holds after \<open>malloc\<close>: it is returned as it is when
  \<open>memcache_init\<close> fails, because the results of the initialisations are not looked at. \<open>garbage\<close> is the
  unwritten variable of \<open>stss_consume_response\<close>. The null pointer is \<open>None\<close>.
\<close>

definition init_app_proto :: "int \<Rightarrow> application_protocol \<Rightarrow> string \<Rightarrow> application_protocol option result" where
  "init_app_proto garbage raw proto =
     (if has_prefix proto ''echo'' then bindE (echo_init proto) (\<lambda>p. Inr (Some p))
      else if has_prefix proto ''synthetic'' then bindE (synthetic_init proto) (\<lambda>p. Inr (Some p))
      else if has_prefix proto ''redis'' then bindE (redis_init proto) (\<lambda>v. Inr (Some (redis_table v)))
      else if has_prefix proto ''memcache'' then
        bindE (memcache_init proto) (\<lambda>r. Inr (Some (case r of None \<Rightarrow> raw | Some d \<Rightarrow> memcache_table d)))
      else if has_prefix proto ''http'' then bindE (http_proto_init proto) (\<lambda>p. Inr (Some p))
      else if has_prefix proto ''stss'' then bindE (stss_init garbage proto) (\<lambda>p. Inr (Some p))
      else Inr None)"

subsection \<open>What a description selects\<close>

text \<open>The protocol a description names, by its longest known prefix.\<close>

definition described_type :: "string \<Rightarrow> app_proto_type option" where
  "described_type proto =
     (if has_prefix proto ''echo'' then Some PROTO_ECHO
      else if has_prefix proto ''synthetic'' then Some PROTO_SYNTHETIC
      else if has_prefix proto ''redis-ycsbe'' then Some PROTO_REDIS_YCSBE
      else if has_prefix proto ''redis'' then Some PROTO_REDIS
      else if has_prefix proto ''memcache-bin'' then Some PROTO_MEMCACHED_BIN
      else if has_prefix proto ''memcache-ascii'' then Some PROTO_MEMCACHED_ASCII
      else if has_prefix proto ''http'' then Some PROTO_HTTP
      else if has_prefix proto ''stss'' then Some PROTO_STSS
      else None)"

lemma has_prefix_append: "has_prefix s (p @ q) \<Longrightarrow> has_prefix s p"
  unfolding has_prefix_def by (metis append_eq_conv_conj append_take_drop_id append.assoc)

lemma has_prefix_hd: "has_prefix s (c # p) \<longleftrightarrow> s \<noteq> [] \<and> hd s = c \<and> has_prefix (tl s) p"
  by (cases s) (auto simp: has_prefix_def)

lemma has_prefix_takeWhile: "\<forall>c \<in> set p. P c \<Longrightarrow> has_prefix (takeWhile P s) p = has_prefix s p"
proof (induction p arbitrary: s)
  case Nil
  then show ?case by (simp add: has_prefix_def)
next
  case (Cons c p)
  then show ?case by (cases s) (auto simp: has_prefix_hd)
qed

lemma memcache_init_type:
  assumes "memcache_init proto = Inr r"
  shows "r = None \<and> \<not> has_prefix proto ''memcache-bin'' \<and> \<not> has_prefix proto ''memcache-ascii'' \<or>
    (\<exists>d. r = Some d \<and> consume_response_fn (memcache_table d) \<noteq> None \<and>
      (if has_prefix proto ''memcache-bin'' then proto_type (memcache_table d) = PROTO_MEMCACHED_BIN
       else has_prefix proto ''memcache-ascii'' \<and> proto_type (memcache_table d) = PROTO_MEMCACHED_ASCII))"
proof -
  have p: "has_prefix (takeWhile (\<lambda>c. c \<noteq> CHR ''_'') proto) ''memcache-bin'' = has_prefix proto ''memcache-bin''"
    "has_prefix (takeWhile (\<lambda>c. c \<noteq> CHR ''_'') proto) ''memcache-ascii'' = has_prefix proto ''memcache-ascii''"
    by (rule has_prefix_takeWhile; simp)+
  show ?thesis
    using assms unfolding memcache_init_def Let_def p
    by (auto simp: bindE_eq_Inr memcache_table_def split: if_splits)
qed

lemma redis_init_type:
  "redis_init proto = Inr v \<Longrightarrow>
   if has_prefix proto ''redis-ycsbe'' then proto_type (redis_table v) = PROTO_REDIS_YCSBE \<and> consume_response_fn (redis_table v) = None
   else proto_type (redis_table v) = PROTO_REDIS \<and> consume_response_fn (redis_table v) \<noteq> None"
  by (auto simp: redis_init_def bindE_eq_Inr split: if_splits)

lemma simple_init_type:
  "echo_init proto = Inr p \<Longrightarrow> proto_type p = PROTO_ECHO \<and> consume_response_fn p \<noteq> None"
  "synthetic_init proto = Inr p \<Longrightarrow> proto_type p = PROTO_SYNTHETIC \<and> consume_response_fn p \<noteq> None"
  "http_proto_init proto = Inr p \<Longrightarrow> proto_type p = PROTO_HTTP \<and> consume_response_fn p \<noteq> None"
  "stss_init garbage proto = Inr p \<Longrightarrow> proto_type p = PROTO_STSS \<and> consume_response_fn p \<noteq> None"
  by (auto simp: echo_init_def synthetic_init_def http_proto_init_def stss_init_def bindE_eq_Inr Let_def split_def
      split: option.splits)

text \<open>
  The table \<open>init_app_proto\<close> returns is that of the described protocol, and it has a consumer
  unless the description is that of YCSB-E: there the pointer is null, and the first response ends
  the agent. Two descriptions are not handled as meant: a memcached variant that is neither binary
  nor ASCII is accepted and yields the unwritten table, and one that names no protocol yields the null
  pointer.
\<close>

theorem init_app_proto_tables:
  assumes "init_app_proto garbage raw proto = Inr r"
  shows "(r = None \<longleftrightarrow> described_type proto = None \<and> \<not> has_prefix proto ''memcache'') \<and>
    (\<forall>p. r = Some p \<longrightarrow>
      (case described_type proto of
         None \<Rightarrow> p = raw
       | Some ty \<Rightarrow> proto_type p = ty \<and> (consume_response_fn p = None \<longleftrightarrow> ty = PROTO_REDIS_YCSBE)))"
proof -
  have sub: "has_prefix proto ''redis-ycsbe'' \<Longrightarrow> has_prefix proto ''redis''"
    "has_prefix proto ''memcache-bin'' \<Longrightarrow> has_prefix proto ''memcache''"
    "has_prefix proto ''memcache-ascii'' \<Longrightarrow> has_prefix proto ''memcache''"
    using has_prefix_append [of proto "''redis''" "''-ycsbe''"] has_prefix_append [of proto "''memcache''" "''-bin''"]
      has_prefix_append [of proto "''memcache''" "''-ascii''"] by simp_all
  have dist: "has_prefix proto ''memcache'' \<Longrightarrow> \<not> has_prefix proto ''http'' \<and> \<not> has_prefix proto ''stss''"
    by (auto simp: has_prefix_hd)
  consider (echo) "has_prefix proto ''echo''" | (syn) "\<not> has_prefix proto ''echo''" "has_prefix proto ''synthetic''"
    | (redis) "\<not> has_prefix proto ''echo''" "\<not> has_prefix proto ''synthetic''" "has_prefix proto ''redis''"
    | (mem) "\<not> has_prefix proto ''echo''" "\<not> has_prefix proto ''synthetic''" "\<not> has_prefix proto ''redis''" "has_prefix proto ''memcache''"
    | (rest) "\<not> has_prefix proto ''echo''" "\<not> has_prefix proto ''synthetic''" "\<not> has_prefix proto ''redis''" "\<not> has_prefix proto ''memcache''"
    by blast
  then show ?thesis
  proof cases
    case echo
    then show ?thesis
      using assms by (auto simp: init_app_proto_def described_type_def bindE_eq_Inr dest!: simple_init_type(1))
  next
    case syn
    then show ?thesis
      using assms by (auto simp: init_app_proto_def described_type_def bindE_eq_Inr dest!: simple_init_type(2))
  next
    case redis
    with assms obtain v where v: "redis_init proto = Inr v" "r = Some (redis_table v)"
      by (auto simp: init_app_proto_def bindE_eq_Inr)
    from redis_init_type [OF v(1)] redis v(2) sub(1) show ?thesis
      by (simp add: described_type_def split: if_splits)
  next
    case mem
    with assms obtain d where d: "memcache_init proto = Inr d"
      "r = Some (case d of None \<Rightarrow> raw | Some d \<Rightarrow> memcache_table d)"
      by (auto simp: init_app_proto_def bindE_eq_Inr)
    from memcache_init_type [OF d(1)] mem d(2) sub(1) dist show ?thesis
      by (auto simp: described_type_def split: if_splits)
  next
    case rest
    with assms sub show ?thesis
      by (auto simp: init_app_proto_def described_type_def bindE_eq_Inr split: if_splits dest!: simple_init_type(3,4))
  qed
qed

theorem init_app_proto_tables_witness:
  "\<exists>p. init_app_proto 0 \<lparr>proto_type = PROTO_ECHO, create_request_fn = \<lambda>_ _. Inl Uninit, consume_response_fn = None\<rparr> ''redis-ycsbe'' =
      Inr (Some p) \<and> proto_type p = PROTO_REDIS_YCSBE \<and> consume_response_fn p = None"
proof -
  let ?raw = "\<lparr>proto_type = PROTO_ECHO, create_request_fn = \<lambda>_ _. Inl Uninit, consume_response_fn = None\<rparr>"
  let ?p = "redis_table (REDIS_YCSBE (init_redis_ycsbe ''redis-ycsbe''))"
  have i: "init_app_proto 0 ?raw ''redis-ycsbe'' = Inr (Some ?p)"
    by (simp add: init_app_proto_def redis_init_def has_prefix_def del: redis_table.simps)
  have "described_type ''redis-ycsbe'' = Some PROTO_REDIS_YCSBE" by (simp add: described_type_def has_prefix_def)
  with init_app_proto_tables [OF i] i show ?thesis by (simp del: redis_table.simps)
qed

end
