(* ===== verification/Loader.thy ===== *)
theory Loader
  imports Args
begin

section \<open>The loader (\<open>agents/loader.c\<close>)\<close>

text \<open>
  A program of its own that fills a key-value server before a measurement: as many requests as the
  workload has keys, each answered before the next. With a round-robin key selector it visits every
  key once, on the server its command line names.
\<close>

subsection \<open>The connection\<close>

text \<open>
  \<open>inet_aton\<close> of the C library: up to four numbers, octal behind a 0 and hexadecimal behind 0x, with dots between; each but
  the last is a byte, and the last fills the bytes that are left. A blank may follow.
\<close>

definition digit_in :: "nat \<Rightarrow> char \<Rightarrow> nat option" where
  "digit_in b c =
     (let k = of_char c; d = if is_digit c then digit_val c else if 97 \<le> k \<and> k \<le> 102 then k - 87
        else if 65 \<le> k \<and> k \<le> 70 then k - 55 else 16
      in if d < b then Some d else None)"

fun digits_in :: "nat \<Rightarrow> nat \<Rightarrow> string \<Rightarrow> nat \<times> string" where
  "digits_in b acc [] = (acc, [])"
| "digits_in b acc (c # cs) =
     (case digit_in b c of None \<Rightarrow> (acc, c # cs) | Some d \<Rightarrow> digits_in b (b * acc + d) cs)"

definition strtoul0 :: "string \<Rightarrow> nat \<times> string" where
  "strtoul0 s =
     (if take 1 s = ''0'' then
        if take 1 (drop 1 s) \<in> {''x'', ''X''} \<and> (\<exists>h \<in> set (take 1 (drop 2 s)). digit_in 16 h \<noteq> None)
        then digits_in 16 0 (drop 2 s) else digits_in 8 0 s
      else digits_in 10 0 s)"

fun aton_parts :: "nat \<Rightarrow> string \<Rightarrow> nat list option" where
  "aton_parts dots s =
     (if s = [] \<or> \<not> is_digit (hd s) then None
      else let (v, rest) = strtoul0 s in
        if 2 ^ 32 \<le> v then None
        else if rest = [] \<or> is_space (hd rest) then Some [v]
        else if hd rest \<noteq> CHR ''.'' \<or> 255 < v then None
        else case dots of 0 \<Rightarrow> None | Suc n \<Rightarrow> map_option ((#) v) (aton_parts n (tl rest)))"

declare aton_parts.simps [simp del]

definition inet_aton :: "string \<Rightarrow> u32 option" where
  "inet_aton s =
     (case aton_parts 3 s of
        None \<Rightarrow> None
      | Some vs \<Rightarrow>
          let n = 5 - length vs; v = last vs in
          if v < 256 ^ n
          then Some (load32 (map char_of (butlast vs @ map (\<lambda>i. v div 256 ^ (n - 1 - i) mod 256) [0..<n])))
          else None)"

text \<open>
  \<open>open_connection\<close>: the host it has connected to or tried to, and the descriptor or -1. \<open>fd\<close> is what \<open>socket\<close> returns and
  \<open>connects\<close> whether \<open>connect\<close> succeeds. The port is cut to 16 bits, so the 32 bits of \<open>atoi\<close> do for \<open>strtol\<close>.
\<close>

definition loader_open_connection :: "int \<Rightarrow> bool \<Rightarrow> string \<Rightarrow> string \<Rightarrow> (host_tuple option \<times> int) result" where
  "loader_open_connection fd connects host port_arg =
     bindE (atoi (cstr port_arg)) (\<lambda>n.
       if fd < 0 then Inr (None, - 1)
       else case inet_aton host of
         None \<Rightarrow> Inr (None, - 1)
       | Some a \<Rightarrow> Inr (Some \<lparr>ip = a, port = of_int n\<rparr>, if connects then fd else - 1))"

subsection \<open>The loop\<close>

text \<open>
  What \<open>writev\<close> and \<open>read\<close> answer in one turn: the bytes of the request the kernel took (all of them,
  the first ones, or -1), and the bytes read into the 1024 bytes of \<open>buf\<close>, or -1 (\<open>None\<close>).
\<close>

datatype write_answer = Takes_all | Takes nat | Write_fails

type_synonym turn = "write_answer \<times> bytes option"

fun written :: "write_answer \<Rightarrow> bytes \<Rightarrow> int" where
  "written Takes_all payload = int (length payload)"
| "written (Takes n) payload = int (min n (length payload))"
| "written Write_fails payload = - 1"

record loader_state =
  buf :: bytes
  req :: request
  lenv :: rand_env

text \<open>A turn returns the bytes sent. \<open>len\<close> is an \<open>int\<close>, stored in \<open>iov_len\<close>.\<close>

definition load_key :: "application_protocol \<Rightarrow> turn \<Rightarrow> loader_state \<Rightarrow> (bytes \<times> loader_state) result" where
  "load_key proto tn st =
     bindE (create_request proto (lenv st) (req st)) (\<lambda>(rq, e).
     let len = written (fst tn) (request_payload rq) in
     bindE (assertE (0 < len)) (\<lambda>_.
     let (data, len') = (case snd tn of None \<Rightarrow> ([], - 1) | Some d \<Rightarrow> (take 1024 d, int (min 1024 (length d))));
         bf = data @ drop (length data) (buf st) in
     bindE (consume_response proto (mk_iov bf (size_of_int len'))) (\<lambda>pair.
     bindE (assertE (1 \<le> brp_reqs pair)) (\<lambda>_.
       Inr (take (nat len) (request_payload rq), \<lparr>buf = bf, req = rq, lenv = e\<rparr>)))))"

text \<open>The loop over \<open>key_count\<close> keys; the answers of turn \<open>i\<close> are \<open>os i\<close>.\<close>

fun load_keys :: "application_protocol \<Rightarrow> (nat \<Rightarrow> turn) \<Rightarrow> nat \<Rightarrow> nat \<Rightarrow> loader_state \<Rightarrow> (bytes list \<times> loader_state) result" where
  "load_keys proto os i 0 st = Inr ([], st)"
| "load_keys proto os i (Suc n) st =
     bindE (load_key proto (os i) st) (\<lambda>(sent, st).
     bindE (load_keys proto os (i + 1) n st) (\<lambda>(rest, st). Inr (sent # rest, st)))"

text \<open>
  \<open>main\<close> after its check of \<open>argc\<close>. \<open>kv_get_key_count\<close> reads the protocol's argument as a \<open>kv_info\<close>,
  whatever the protocol; for the others that is memory of another type.
\<close>

definition arg_key_count :: "string \<Rightarrow> int result" where
  "arg_key_count proto =
     (if described_type proto \<in> {Some PROTO_REDIS, Some PROTO_MEMCACHED_BIN, Some PROTO_MEMCACHED_ASCII}
      then bindE (parse_kv_info proto) (\<lambda>info. Inr (kv_get_key_count info))
      else Inl OutOfBounds)"

text \<open>The host connected to, the requests sent and the state at the end.\<close>

definition loader_main ::
  "int \<Rightarrow> application_protocol \<Rightarrow> int \<Rightarrow> bool \<Rightarrow> (nat \<Rightarrow> turn) \<Rightarrow> string list \<Rightarrow> loader_state \<Rightarrow>
   (host_tuple option \<times> bytes list \<times> loader_state) result" where
  "loader_main garbage raw fd connects os argv st =
     (case argv of
        [_, desc, host, port_arg] \<Rightarrow>
          bindE (init_app_proto garbage raw desc) (\<lambda>p.
          case p of
            None \<Rightarrow> Inl AssertFail
          | Some proto \<Rightarrow>
              bindE (loader_open_connection fd connects host port_arg) (\<lambda>(server, sock).
              bindE (assertE (0 < sock)) (\<lambda>_.
              bindE (arg_key_count desc) (\<lambda>n.
              bindE (load_keys proto os 0 (nat n) st) (\<lambda>(sent, st). Inr (server, sent, st))))))
      | _ \<Rightarrow> Inl ExitFail)"

subsection \<open>Every key is visited\<close>

text \<open>A payload that a Redis server decodes as a \<open>SET\<close> of key \<open>k\<close>.\<close>

definition sets_key :: "bytes \<Rightarrow> bytes \<Rightarrow> bool" where
  "sets_key k payload \<longleftrightarrow> (\<exists>n \<le> MAX_VAL_SIZE. resp_array payload = Some ([''SET'', k, replicate n (CHR ''x'')], []))"

text \<open>A workload of writes only, whose values have a length that is drawn without the round-robin counter.\<close>

definition loadable :: "kv_info \<Rightarrow> bool" where
  "loadable info \<longleftrightarrow> kv_wf info \<and> kv_sizes_ok info \<and> generate_ptr (kv_key_sel info) = Some Rr_generate \<and>
     kv_get_ratio info < 0 \<and> (\<forall>e. \<exists>n e'. pick_val_len info e = Inr (n, e') \<and> prev_rr e' = prev_rr e)"

text \<open>A server that takes every request whole and answers it with one reply in one read.\<close>

definition answers_each :: "(nat \<Rightarrow> turn) \<Rightarrow> bool" where
  "answers_each os \<longleftrightarrow> (\<forall>i. \<exists>r. os i = (Takes_all, Some r) \<and> redis_reply r \<and> length r \<le> 1024)"

lemma pick_key_rr:
  assumes "kv_wf info" and "generate_ptr (kv_key_sel info) = Some Rr_generate"
  shows "pick_key info e = Inr (keys (kv_key info) ! (unat (prev_rr e) mod length (keys (kv_key info))),
    e\<lparr>prev_rr := prev_rr e + 1\<rparr>)"
proof -
  let ?n = "length (keys (kv_key info))"
  have n: "0 < ?n" "?n < 2 ^ 31" "par_a (kv_key_sel info) = of_nat ?n" using assms(1) by (simp_all add: kv_wf_def)
  have l: "unat (prev_rr e) mod ?n < ?n" using n(1) by simp
  have "?n < 2 ^ 64" using n(2) by (rule less_trans) simp
  from rr_generate_eq [OF n(3,1) this] have
    "generate (kv_key_sel info) e = Inr (of_nat (unat (prev_rr e) mod ?n), e\<lparr>prev_rr := prev_rr e + 1\<rparr>)"
    using assms(2) by (simp add: generate_def)
  moreover have "to_int (of_nat (unat (prev_rr e) mod ?n)) = Inr (int (unat (prev_rr e) mod ?n))"
    by (rule to_int_of_nat) (rule less_trans [OF l n(2)])
  ultimately show ?thesis using l by (simp add: pick_key_def del: of_nat_mod zmod_int of_nat_unat)
qed

lemma pick_write_always: "kv_get_ratio info < 0 \<Longrightarrow> \<exists>e'. pick_write info e = (True, e') \<and> prev_rr e' = prev_rr e"
  using drand48_range [of "drand_x e"]
  by (auto simp: pick_write_def env_drand48_def Let_def split: prod.splits)

lemma redis_one_reply:
  assumes "redis_reply r" and "length r \<le> 1024"
  shows "redis_kv_consume_response (mk_iov (r @ bs) (length r)) = Inr (to_brp (length r, 1))"
proof -
  have "r \<noteq> [] \<and> redis_frame r = length r" using redis_frame_reply [OF assms(1)] by simp
  then have "frames redis_frame r = (length r, 1)" using redis_f.frames_messages [of "[r]"] by simp
  moreover have "redis_valid r" using redis_valid_concat [of "[r]"] assms(1) by simp
  ultimately show ?thesis using redis.consume_frames [of "mk_iov (r @ bs) (length r)"] assms(2) by simp
qed

lemma load_key_sets:
  assumes "loadable info" and "redis_reply r" and "length r \<le> 1024"
  shows "\<exists>sent st'. load_key (redis_table (REDIS_KV info)) (Takes_all, Some r) st = Inr (sent, st') \<and>
    prev_rr (lenv st') = prev_rr (lenv st) + 1 \<and>
    sets_key (iov_data (keys (kv_key info) ! (unat (prev_rr (lenv st)) mod length (keys (kv_key info))))) sent"
proof -
  let ?n = "length (keys (kv_key info))"
  let ?k = "keys (kv_key info) ! (unat (prev_rr (lenv st)) mod ?n)"
  note l = assms(1) [unfolded loadable_def]
  have "unat (prev_rr (lenv st)) mod ?n < ?n" using l by (simp add: kv_wf_def)
  then have k: "iov_ok ?k" using l by (simp add: kv_wf_def list_all_length)
  let ?e1 = "(lenv st)\<lparr>prev_rr := prev_rr (lenv st) + 1\<rparr>"
  have p: "pick_key info (lenv st) = Inr (?k, ?e1)" using l by (intro pick_key_rr) simp_all
  obtain e2 where w: "pick_write info ?e1 = (True, e2)" "prev_rr e2 = prev_rr ?e1"
    using pick_write_always l by blast
  from l obtain n e3 where v: "pick_val_len info e2 = Inr (n, e3)" "prev_rr e3 = prev_rr e2" by blast
  obtain rq e' where c: "redis_kv_create_request info (lenv st) (req st) = Inr (rq, e')"
    using p w v by (simp add: redis_kv_create_request_def Let_def)
  from redis_request_of_key [OF p k _ w(1) c] l have s: "sets_key (iov_data ?k) (request_payload rq)" and e': "prev_rr e' = prev_rr ?e1"
    using v w(2) by (auto simp: sets_key_def)
  then have "0 < length (request_payload rq)" by (auto simp: sets_key_def resp_array_def)
  with c s e' redis_one_reply [OF assms(2,3)] assms(3) show ?thesis
    by (simp add: load_key_def create_request_def consume_response_def Let_def size_of_int_of_nat to_brp_def)
qed

lemma load_keys_sets:
  assumes "loadable info" and "answers_each os"
  shows "unat (prev_rr (lenv st)) + n < 2 ^ 64 \<Longrightarrow> \<exists>sent st'.
    load_keys (redis_table (REDIS_KV info)) os i n st = Inr (sent, st') \<and> length sent = n \<and>
    (\<forall>j < n. sets_key (iov_data (keys (kv_key info) ! ((unat (prev_rr (lenv st)) + j) mod length (keys (kv_key info))))) (sent ! j))"
proof (induction n arbitrary: i st)
  case 0
  then show ?case by simp
next
  case (Suc n)
  let ?p = "unat (prev_rr (lenv st))"
  from assms(2) obtain r where r: "os i = (Takes_all, Some r)" "redis_reply r" "length r \<le> 1024"
    by (auto simp: answers_each_def)
  from load_key_sets [OF assms(1) r(2,3), of st] obtain sent st' where
    l: "load_key (redis_table (REDIS_KV info)) (Takes_all, Some r) st = Inr (sent, st')"
    and p: "prev_rr (lenv st') = prev_rr (lenv st) + 1"
    and s: "sets_key (iov_data (keys (kv_key info) ! (?p mod length (keys (kv_key info))))) sent" by blast
  have u: "unat (prev_rr (lenv st')) = Suc ?p"
    unfolding p using Suc.prems by (intro unat_Suc_nowrap) simp
  with Suc.prems have "unat (prev_rr (lenv st')) + n < 2 ^ 64" by simp
  from Suc.IH [OF this, of "i + 1"] obtain rest st'' where
    t: "load_keys (redis_table (REDIS_KV info)) os (i + 1) n st' = Inr (rest, st'')" "length rest = n"
      "\<forall>j < n. sets_key (iov_data (keys (kv_key info) ! ((Suc ?p + j) mod length (keys (kv_key info))))) (rest ! j)"
    unfolding u by blast
  have "\<forall>j < Suc n. sets_key (iov_data (keys (kv_key info) ! ((?p + j) mod length (keys (kv_key info))))) ((sent # rest) ! j)"
  proof (intro allI impI)
    fix j assume "j < Suc n"
    then show "sets_key (iov_data (keys (kv_key info) ! ((?p + j) mod length (keys (kv_key info))))) ((sent # rest) ! j)"
      using s t(3) by (cases j) auto
  qed
  with l r(1) t(1,2) show ?case by simp
qed

lemma load_every_key:
  assumes "loadable info" and "answers_each os" and "prev_rr (lenv st) = 0"
  shows "\<exists>sent st'. load_keys (redis_table (REDIS_KV info)) os 0 (length (keys (kv_key info))) st = Inr (sent, st') \<and>
    list_all2 (\<lambda>k payload. sets_key (iov_data k) payload) (keys (kv_key info)) sent"
proof -
  have "length (keys (kv_key info)) < 2 ^ 31" using assms(1) by (simp add: loadable_def kv_wf_def)
  then have "unat (prev_rr (lenv st)) + length (keys (kv_key info)) < 2 ^ 64"
    using assms(3) by (simp add: less_trans)
  from load_keys_sets [OF assms(1,2) this, of 0] assms(3) show ?thesis
    by (auto simp: list_all2_conv_all_nth)
qed

lemma redis_part_no_frame:
  assumes "redis_reply r" and "m < length r"
  shows "redis_frame (take m r) = 0"
proof (rule ccontr)
  assume f: "redis_frame (take m r) \<noteq> 0"
  then have "redis_frame (take m r) = length r"
    using redis_frame_ext [OF f, of "drop m r"] redis_frame_reply [OF assms(1)] by simp
  with redis_frame_le [of "take m r"] assms(2) show False by simp
qed

text \<open>
  The loader takes one \<open>writev\<close> and one \<open>read\<close> for granted: a request of which the kernel takes
  only the first bytes counts as sent, cut off, when the server answers anything, and a reply that comes in
  two reads ends the loader in an assertion.
\<close>

theorem loader_one_write_one_read:
  assumes "create_request proto (lenv st) (req st) = Inr (rq, e)" and "consume_response_fn proto = Some redis_kv_consume_response"
    and "redis_reply r" and "length r \<le> 1024" and "n < length (request_payload rq)" and "0 < n" and "m < length r"
  shows "(\<exists>st'. load_key proto (Takes n, Some r) st = Inr (take n (request_payload rq), st')) \<and>
    load_key proto (Takes_all, Some (take m r)) st = Inl AssertFail"
proof
  have rq: "request_payload rq \<noteq> []" using assms(5) by auto
  show "\<exists>st'. load_key proto (Takes n, Some r) st = Inr (take n (request_payload rq), st')"
    using assms(1,2,5,6) redis_one_reply [OF assms(3,4)] assms(4) rq
    by (simp add: load_key_def consume_response_def Let_def size_of_int_of_nat to_brp_def)
  have "frames redis_frame (take m r) = (0, 0)"
    using redis_part_no_frame [OF assms(3,7)] by (subst frames.simps) simp
  moreover have "redis_valid (take m r)"
    using redis_valid_concat [of "[r]"] assms(3) redis_valid_prefix [of "take m r" "drop m r"] by simp
  ultimately have "redis_kv_consume_response (mk_iov (take m r @ bs) m) = Inr (to_brp (0, 0))" for bs
    using redis.consume_frames [of "mk_iov (take m r @ bs) m"] assms(4,7) by simp
  then show "load_key proto (Takes_all, Some (take m r)) st = Inl AssertFail"
    using assms(1,2,4,5,7)
    by (simp add: load_key_def consume_response_def Let_def size_of_int_of_nat to_brp_def min_def assertE_def)
qed

theorem loader_one_write_one_read_witness:
  "\<exists>sent st'. load_key (redis_table (REDIS_KV (one_key_info (- 1)))) (Takes 1, Some (''+OK'' @ CRLF))
      \<lparr>buf = replicate 1024 NUL, req = empty_request, lenv = start_env\<rparr> = Inr (sent, st') \<and> length sent = 1 \<and>
    load_key (redis_table (REDIS_KV (one_key_info (- 1)))) (Takes_all, Some ''+OK'')
      \<lparr>buf = replicate 1024 NUL, req = empty_request, lenv = start_env\<rparr> = Inl AssertFail"
proof -
  let ?p = "redis_table (REDIS_KV (one_key_info (- 1)))"
  let ?st = "\<lparr>buf = replicate 1024 NUL, req = empty_request, lenv = start_env\<rparr>"
  from one_key_pick [of "- 1"] obtain e1 where p: "pick_key (one_key_info (- 1)) start_env = Inr (mk_iov ''k'' 1, e1)" by blast
  obtain w e2 where w: "pick_write (one_key_info (- 1)) e1 = (w, e2)" by fastforce
  then obtain rq e where c: "redis_kv_create_request (one_key_info (- 1)) start_env empty_request = Inr (rq, e)"
    using p by (cases w) (auto simp: redis_kv_create_request_def Let_def one_key_val_len)
  have n: "1 < length (request_payload rq)"
  proof -
    have "\<exists>x. resp_array (request_payload rq) = Some x"
      using redis_request_of_key [OF p _ one_key_sizes_ok w c] by (cases w) auto
    then show ?thesis
      by (cases "request_payload rq"; cases "tl (request_payload rq)")
        (auto simp: resp_array_def resp_number_def split: if_splits)
  qed
  have "create_request ?p (lenv ?st) (req ?st) = Inr (rq, e)" using c by (simp add: create_request_def)
  moreover have "redis_reply (''+OK'' @ CRLF)" using redis_reply.status [of "''OK''"] by simp
  ultimately show ?thesis
    using loader_one_write_one_read [of ?p ?st rq e "''+OK'' @ CRLF" 1 3] n by (auto simp: min_def)
qed

lemma digits_in_10:
  assumes "n < 256" and "\<forall>c \<in> set (take 1 rest). digit_in 10 c = None"
  shows "digits_in 10 0 (show_nat n @ rest) = (n, rest)"
proof -
  have d: "digit_in 10 (digit_char k) = Some k" if "k < 10" for k
    using that by (simp add: digit_in_def digit_char_props)
  have e: "digits_in 10 acc rest = (acc, rest)" for acc using assms(2) by (cases rest) simp_all
  consider "n < 10" | "10 \<le> n" "n < 100" | "100 \<le> n" by linarith
  then show ?thesis
  proof cases
    case 1
    then show ?thesis using d e by (simp add: show_nat.simps)
  next
    case 2
    then have "show_nat n = [digit_char (n div 10), digit_char (n mod 10)]" "n div 10 < 10"
      by (auto simp: show_nat.simps [of n] show_nat.simps [of "n div 10"])
    then show ?thesis using d e by simp
  next
    case 3
    then have "show_nat n = [digit_char (n div 10 div 10), digit_char (n div 10 mod 10), digit_char (n mod 10)]"
      "n div 10 div 10 < 10"
      using assms(1)
      by (auto simp: show_nat.simps [of n] show_nat.simps [of "n div 10"] show_nat.simps [of "n div 10 div 10"])
    then show ?thesis using d e by simp
  qed
qed

lemma digit_char_0: "digit_char 0 = CHR ''0''" by code_simp

lemma show_nat_zero_head: "take 1 (show_nat n) = ''0'' \<longleftrightarrow> n = 0"
proof (induction n rule: show_nat.induct)
  case (1 n)
  have "digit_char k = CHR ''0'' \<longleftrightarrow> k = 0" if "k < 10" for k
    using that digit_char_props(2) [of k] digit_char_props(2) [of 0] digit_char_0 by auto
  then show ?case
  proof (cases "n < 10")
    case False
    then have "take 1 (show_nat (n div 10)) \<noteq> ''0''" using 1 by simp
    moreover have "take 1 (show_nat n) = take 1 (show_nat (n div 10))"
      using False by (subst show_nat.simps) (cases "show_nat (n div 10)"; simp)
    ultimately show ?thesis using False by simp
  qed (simp add: show_nat.simps [of n])
qed

lemma strtoul0_show_nat:
  assumes "n < 256" and "rest = [] \<or> hd rest = CHR ''.''"
  shows "strtoul0 (show_nat n @ rest) = (n, rest)"
proof -
  have "digit_in b (CHR ''.'') = None" if "b \<le> 16" for b
    using that by (simp add: digit_in_def is_digit_def)
  then have r: "\<forall>c \<in> set (take 1 rest). digit_in b c = None" if "b \<le> 16" for b
    using assms(2) that by (cases rest) auto
  show ?thesis
  proof (cases "n = 0")
    case True
    have "digits_in 8 0 rest = (0, rest)" using r [of 8] by (cases rest) simp_all
    moreover have "digit_in 8 (CHR ''0'') = Some 0" by (simp add: digit_in_def is_digit_def digit_val_def)
    moreover have "take 1 rest \<notin> {''x'', ''X''}" using assms(2) by (cases rest) auto
    ultimately show ?thesis using True by (simp add: strtoul0_def show_nat.simps digit_char_0)
  next
    case False
    then have "take 1 (show_nat n @ rest) \<noteq> ''0''" using show_nat_zero_head [of n] by (cases "show_nat n") simp_all
    then show ?thesis using digits_in_10 [OF assms(1)] r [of 10] by (simp add: strtoul0_def)
  qed
qed

lemma aton_parts_octet:
  assumes "n < 256"
  shows "aton_parts dots (show_nat n) = Some [n]"
    and "aton_parts (Suc dots) (show_nat n @ CHR ''.'' # cs) = map_option ((#) n) (aton_parts dots cs)"
proof -
  have h: "is_digit (hd (show_nat n))" using show_nat_is_digit [of "hd (show_nat n)" n] hd_in_set [of "show_nat n"] by simp
  show "aton_parts dots (show_nat n) = Some [n]"
    using assms h strtoul0_show_nat [OF assms, of "[]"] by (subst aton_parts.simps) simp
  show "aton_parts (Suc dots) (show_nat n @ CHR ''.'' # cs) = map_option ((#) n) (aton_parts dots cs)"
    using assms h strtoul0_show_nat [OF assms, of "CHR ''.'' # cs"]
    by (subst aton_parts.simps) (simp add: is_space_def)
qed

text \<open>\<open>inet_aton\<close> reads an address as \<open>inet_pton\<close> does.\<close>

lemma inet_aton_show_ip:
  assumes "length os = 4" and "\<forall>b \<in> set os. b < 256"
  shows "inet_aton (show_ip os) = Some (load32 (map char_of os))"
proof -
  from assms(1) obtain a b c d where os: "os = [a, b, c, d]" by (auto simp: length_Suc_conv numeral_eq_Suc)
  have "aton_parts 3 (show_ip os) = Some os"
    using assms(2) unfolding os by (simp add: show_ip_def aton_parts_octet numeral_eq_Suc)
  moreover have "d < 256" using assms(2) by (simp add: os)
  moreover have "butlast os @ map (\<lambda>i. d div 256 ^ (1 - 1 - i) mod 256) [0..<1] = os" using \<open>d < 256\<close> by (simp add: os)
  ultimately show ?thesis
    unfolding inet_aton_def Let_def by (simp add: assms(1) os)
qed

lemma loader_connects:
  assumes "target_ok t" and "0 < fd"
  shows "loader_open_connection fd connects (show_ip (fst t)) (show_nat (snd t)) =
    Inr (Some (target_host t), if connects then fd else - 1)"
proof -
  have "\<not> is_digit NUL" by (simp add: is_digit_def)
  then have "atoi (cstr (show_nat (snd t))) = Inr (int (snd t))"
    unfolding cstr_def using assms by (intro atoi_show_nat) (simp_all add: target_ok_def)
  moreover have "inet_aton (show_ip (fst t)) = Some (ip (target_host t))"
    using assms(1) inet_aton_show_ip by (simp add: target_ok_def target_host_def)
  ultimately show ?thesis
    using assms(2) by (simp add: loader_open_connection_def target_host_def)
qed

lemma generate_keys_length: "generate_keys g n = Inr ks \<Longrightarrow> length ks = nat n"
proof -
  have "generate_keys_from g n is = Inr ks \<Longrightarrow> length ks = length is" for "is" ks
    by (induction "is" arbitrary: ks) (auto simp: bindE_eq_Inr)
  then show "generate_keys g n = Inr ks \<Longrightarrow> length ks = nat n" by (auto simp: generate_keys_def)
qed

lemma key_gen_count:
  assumes "init_key_gen type n = Inr kg"
  shows "nat (key_count kg) = length (keys kg)"
proof -
  from assms obtain og where "init_rand type = Inr og" by (auto simp: init_key_gen_def bindE_eq_Inr)
  with assms show ?thesis
    by (cases og) (auto simp: init_key_gen_def bindE_eq_Inr generate_keys_length split: if_splits)
qed

lemma kv_key_count_parsed:
  assumes "parse_kv_info desc = Inr info"
  shows "nat (kv_get_key_count info) = length (keys (kv_key info))"
proof -
  have "\<exists>kd n. init_key_gen kd n = Inr (kv_key info)"
    using assms unfolding parse_kv_info_def Let_def by (clarsimp simp: split_def bindE_eq_Inr split: option.splits) blast
  then show ?thesis using key_gen_count by (auto simp: kv_get_key_count_def)
qed

lemma redis_described:
  assumes "described_type desc = Some PROTO_REDIS" and "parse_kv_info desc = Inr info"
  shows "init_app_proto garbage raw desc = Inr (Some (redis_table (REDIS_KV info)))"
  using assms by (auto simp: described_type_def init_app_proto_def redis_init_def init_redis_kv_def simp del: redis_table.simps split: if_splits)

text \<open>
  Property C16. The loader does what it is for. Started with the description of a Redis workload of writes with a round-robin key
  selector, an address and a port, it connects to that server and, when the server answers every request with one
  reply in one read, it ends, and its requests are, in the order of the keys, one \<open>SET\<close> of every key.
\<close>

theorem loader_sets_every_key:
  assumes "described_type desc = Some PROTO_REDIS" and "parse_kv_info desc = Inr info" and "loadable info"
    and "target_ok t" and "0 < fd" and "answers_each os" and "prev_rr (lenv st) = 0"
  shows "\<exists>sent st'. loader_main garbage raw fd True os [prog, desc, show_ip (fst t), show_nat (snd t)] st =
      Inr (Some (target_host t), sent, st') \<and>
    list_all2 (\<lambda>k payload. sets_key (iov_data k) payload) (keys (kv_key info)) sent"
proof -
  from load_every_key [OF assms(3,6,7)] obtain sent st' where
    l: "load_keys (redis_table (REDIS_KV info)) os 0 (length (keys (kv_key info))) st = Inr (sent, st')"
    and s: "list_all2 (\<lambda>k payload. sets_key (iov_data k) payload) (keys (kv_key info)) sent" by blast
  have "arg_key_count desc = Inr (kv_get_key_count info)" using assms(1,2) by (simp add: arg_key_count_def)
  with s show ?thesis
    using assms(5) redis_described [OF assms(1,2)] loader_connects [OF assms(4,5)] kv_key_count_parsed [OF assms(2)] l
    by (simp add: loader_main_def del: redis_table.simps)
qed

text \<open>Two keys of one character, values of three, writes only, the keys in turn.\<close>

definition two_keys :: string where
  "two_keys = ''redis_fixed:1_fixed:3_2_-1_rr''"

definition fixed_gen :: "double \<Rightarrow> rand_gen" where
  "fixed_gen v = fresh_gen\<lparr>set_avg_ptr := Some Fixed_set_avg, inv_cdf_ptr := Some Fixed_inv_cdf,
     gen_type := Some GEN_FIXED, par_a := v\<rparr>"

lemmas parse_number = init_rand_def has_prefix_def parse_param_1_def strtok_r_def atof_def dec_exponent_def dec_val_def
  split_sign_def is_digit_def digit_val_def is_space_def

lemma two_keys_numbers:
  "init_rand ''fixed:1'' = Inr (Some (fixed_gen 1))" "init_rand ''fixed:3'' = Inr (Some (fixed_gen 3))"
  "init_rand (''rr:2'' @ [LF]) = Inr (Some (fresh_gen\<lparr>generate_ptr := Some Rr_generate, par_a := 2\<rparr>))"
  "atof ''-1'' = - 1"
  by (simp_all add: parse_number fixed_init_def set_avg_def fixed_set_avg_def fixed_gen_def rr_init_def fresh_gen_def)

lemma two_keys_keys:
  "init_key_gen ''fixed:1'' 2 = Inr \<lparr>key_size_gen = fixed_gen 1, key_count = 2, keys = [mk_iov (''0'' @ [NUL]) 1, mk_iov (''1'' @ [NUL]) 1]\<rparr>"
proof -
  have "inv_cdf (fixed_gen 1) 0 = Inr 1" by (simp add: fixed_gen_def inv_cdf_def fixed_inv_cdf_def)
  moreover have "lround 1 = int 1" using lround_of_int [of 1] by simp
  ultimately have "generate_keys (fixed_gen 1) (int 2) = Inr (map (\<lambda>i. mk_iov (key_bytes 1 i @ [NUL]) 1) [0..<2])"
    by (rule generated_keys_all_same_size) simp
  moreover have "key_bytes 1 0 = ''0''" "key_bytes 1 1 = ''1''" by code_simp+
  ultimately show ?thesis by (simp add: init_key_gen_def two_keys_numbers numeral_2_eq_2)
qed

definition two_keys_info :: kv_info where
  "two_keys_info =
     \<lparr>kv_key = \<lparr>key_size_gen = fixed_gen 1, key_count = 2, keys = [mk_iov (''0'' @ [NUL]) 1, mk_iov (''1'' @ [NUL]) 1]\<rparr>,
      kv_val_len = fixed_gen 3, kv_key_sel = fresh_gen\<lparr>generate_ptr := Some Rr_generate, par_a := 2\<rparr>, kv_get_ratio = - 1\<rparr>"

lemma two_keys_parsed: "parse_kv_info two_keys = Inr two_keys_info"
proof -
  have a: "atoi (cstr ''2'') = Inr 2" by code_simp
  have b: "print_key_sel (Some ''rr'') 2 = Inr (''rr:2'' @ [LF])" by code_simp
  have c: "strtok_r ''_'' two_keys = (Some ''redis'', ''fixed:1_fixed:3_2_-1_rr'')"
    "strtok_r ''_'' ''fixed:1_fixed:3_2_-1_rr'' = (Some ''fixed:1'', ''fixed:3_2_-1_rr'')"
    "strtok_r ''_'' ''fixed:3_2_-1_rr'' = (Some ''fixed:3'', ''2_-1_rr'')"
    "strtok_r ''_'' ''2_-1_rr'' = (Some ''2'', ''-1_rr'')"
    "strtok_r ''_'' ''-1_rr'' = (Some ''-1'', ''rr'')" "strtok_r ''_'' ''rr'' = (Some ''rr'', [])"
    by code_simp+
  show ?thesis
    unfolding parse_kv_info_def c Let_def prod.case init_rand_ptr_def atoi_ptr_def atof_ptr_def option.case
      two_keys_numbers a two_keys_keys assert_ptr_def two_keys_info_def by (simp add: b [simplified] two_keys_numbers(3) [simplified] two_keys_keys [simplified])
qed

lemma two_keys_loadable: "loadable two_keys_info"
proof -
  have v: "pick_val_len two_keys_info e = Inr (3, snd (env_drand48 e))" for e
    by (simp add: pick_val_len_def two_keys_info_def generate_def inv_cdf_def fixed_inv_cdf_def fixed_gen_def
        fresh_gen_def lround_def MAX_VAL_SIZE_def split: prod.splits)
  have "kv_wf two_keys_info" "kv_sizes_ok two_keys_info"
    by (simp_all add: kv_wf_def kv_sizes_ok_def v) (simp_all add: two_keys_info_def)
  then show ?thesis
    by (simp add: loadable_def v) (simp add: two_keys_info_def env_drand48_def Let_def split: prod.splits)
qed

theorem loader_sets_every_key_witness:
  "\<exists>k0 k1 st'. loader_main 0 \<lparr>proto_type = PROTO_ECHO, create_request_fn = \<lambda>_ _. Inl Uninit, consume_response_fn = None\<rparr> 3 True
      (\<lambda>i. (Takes_all, Some (''+OK'' @ CRLF))) [''loader'', two_keys, show_ip [127, 0, 0, 1], show_nat 6379]
      \<lparr>buf = replicate 1024 NUL, req = empty_request, lenv = start_env\<rparr> =
    Inr (Some (target_host ([127, 0, 0, 1], 6379)), [k0, k1], st') \<and> sets_key ''0'' k0 \<and> sets_key ''1'' k1"
proof -
  let ?raw = "\<lparr>proto_type = PROTO_ECHO, create_request_fn = \<lambda>_ _. Inl Uninit, consume_response_fn = None\<rparr>"
  let ?st = "\<lparr>buf = replicate 1024 NUL, req = empty_request, lenv = start_env\<rparr>"
  have d: "described_type two_keys = Some PROTO_REDIS" by (simp add: described_type_def two_keys_def has_prefix_def)
  have a: "answers_each (\<lambda>i. (Takes_all, Some (''+OK'' @ CRLF)))"
    using redis_reply.status [of "''OK''"] by (simp add: answers_each_def)
  have k: "keys (kv_key two_keys_info) = [mk_iov (''0'' @ [NUL]) 1, mk_iov (''1'' @ [NUL]) 1]" by (simp add: two_keys_info_def)
  have p: "prev_rr (lenv ?st) = 0" by (simp add: start_env_def)
  have t: "target_ok ([127, 0, 0, 1], 6379)" "0 < (3::int)" by (simp_all add: target_ok_def)
  from loader_sets_every_key [OF d two_keys_parsed two_keys_loadable t a p, of 0 ?raw "''loader''"]
  show ?thesis unfolding k by (auto simp: list_all2_Cons1)
qed

end
