(* ===== verification/Stats.thy ===== *)
theory Stats
  imports Agent
begin

section \<open>Per-thread statistics (\<open>agents/stats.c\<close>, \<open>inc/lancet/stats.h\<close>)\<close>

text \<open>
  The counters and sample rings an agent thread writes and the manager reads. The rings are
  finite arrays indexed by a 32-bit counter modulo their capacity; the lemmas relate them to the
  unbounded logs they abbreviate: a ring always holds the newest entries of its log.
\<close>

abbreviation MAX_PER_THREAD_SAMPLES :: nat where "MAX_PER_THREAD_SAMPLES \<equiv> 131072"
abbreviation MAX_PER_THREAD_TX_SAMPLES :: nat where "MAX_PER_THREAD_TX_SAMPLES \<equiv> 4096"

record lat_sample =
  nsec :: u64
  lat_tx :: timespec

text \<open>
  The shared region of a thread and its thread-local companions. \<open>th_rx\<close>, \<open>th_tx\<close> are
  \<open>th_s\<close>; \<open>inc_idx\<close>, \<open>samples\<close> the rest of \<open>lt_s\<close>; \<open>tx_count\<close>, \<open>tx_samples\<close> are
  \<open>struct tx_samples\<close>. \<open>bzero\<close> clears the region.
\<close>

record thread_stats =
  th_rx :: byte_req_pair
  th_tx :: byte_req_pair
  inc_idx :: u32
  samples :: "nat \<Rightarrow> lat_sample"
  tx_count :: u32
  tx_samples :: "nat \<Rightarrow> timespec"
  prev_tx_timestamp :: timespec
  tx_sample_selector :: u32

definition init_per_thread_stats :: thread_stats where
  "init_per_thread_stats =
     \<lparr>th_rx = 0, th_tx = 0, inc_idx = 0, samples = (\<lambda>_. \<lparr>nsec = 0, lat_tx = zero_ts\<rparr>),
      tx_count = 0, tx_samples = (\<lambda>_. zero_ts), prev_tx_timestamp = zero_ts,
      tx_sample_selector = 0\<rparr>"

definition add_throughput_tx_sample ::
  "agent_control_block \<Rightarrow> byte_req_pair \<Rightarrow> thread_stats \<Rightarrow> thread_stats" where
  "add_throughput_tx_sample acb tx_p st =
     (if \<not> should_measure acb then st
      else st\<lparr>th_tx := BRP (brp_bytes (th_tx st) + brp_bytes tx_p) (brp_reqs (th_tx st) + brp_reqs tx_p)\<rparr>)"

definition add_throughput_rx_sample ::
  "agent_control_block \<Rightarrow> byte_req_pair \<Rightarrow> thread_stats \<Rightarrow> thread_stats" where
  "add_throughput_rx_sample acb rx_p st =
     (if \<not> should_measure acb then st
      else st\<lparr>th_rx := BRP (brp_bytes (th_rx st) + brp_bytes rx_p) (brp_reqs (th_rx st) + brp_reqs rx_p)\<rparr>)"

text \<open>
  One transmit time stamp in a hundred is turned into the gap to the previous one; a gap that
  cannot be computed gives its slot back.
\<close>

definition add_tx_timestamp ::
  "timespec \<Rightarrow> rand_env \<Rightarrow> thread_stats \<Rightarrow> thread_stats \<times> rand_env" where
  "add_tx_timestamp tx_ts e st =
     (let (y, e') = env_drand48 e;
          st' = (if y < 1 / 100 then
                   let slot = unat (tx_count st) mod MAX_PER_THREAD_TX_SAMPLES in
                   (case timespec_diff (Some tx_ts) (Some (prev_tx_timestamp st)) of
                      None \<Rightarrow> st\<lparr>tx_count := tx_count st + 1 - 1\<rparr>
                    | Some d \<Rightarrow> st\<lparr>tx_count := tx_count st + 1,
                                 tx_samples := (tx_samples st)(slot := d)\<rparr>)
                 else st)
      in (st'\<lparr>prev_tx_timestamp := tx_ts\<rparr>, e'))"

text \<open>\<open>1 / 0\<close> is an infinity, which \<open>lround\<close> cannot convert.\<close>

definition sampling_period :: "agent_control_block \<Rightarrow> int result" where
  "sampling_period acb =
     (if get_sampling_rate acb = 0 then Inl NonFinite
      else let k = lround (1 / get_sampling_rate acb) in
        if k = 0 then Inl DivByZero else Inr k)"

definition add_latency_sample ::
  "agent_control_block \<Rightarrow> int \<Rightarrow> timespec option \<Rightarrow> thread_stats \<Rightarrow> thread_stats result" where
  "add_latency_sample acb diff tx st =
     bindE (assertE (0 < diff)) (\<lambda>_.
       if \<not> should_measure acb then Inr st
       else bindE (sampling_period acb) (\<lambda>k.
         let sel = tx_sample_selector st;
             st = st\<lparr>tx_sample_selector := sel + 1\<rparr> in
         if int (unat sel) mod k \<noteq> 0 then Inr st
         else
           let slot = unat (inc_idx st) mod MAX_PER_THREAD_SAMPLES;
               old = samples st slot;
               new = \<lparr>nsec = of_int diff, lat_tx = (case tx of None \<Rightarrow> lat_tx old | Some t \<Rightarrow> t)\<rparr> in
           Inr (st\<lparr>inc_idx := inc_idx st + 1, samples := (samples st)(slot := new)\<rparr>)))"

subsection \<open>Counters are sums\<close>

lemma add_throughput_tx_sample_eq:
  "add_throughput_tx_sample acb p st =
     st\<lparr>th_tx := th_tx st + (if should_measure acb then p else 0)\<rparr>"
  by (simp add: add_throughput_tx_sample_def plus_byte_req_pair_def)

lemma add_throughput_rx_sample_eq:
  "add_throughput_rx_sample acb p st =
     st\<lparr>th_rx := th_rx st + (if should_measure acb then p else 0)\<rparr>"
  by (simp add: add_throughput_rx_sample_def plus_byte_req_pair_def)

text \<open>The calls of a thread, in order; a call of \<open>add_latency_sample\<close> can fail its assertion.\<close>

datatype report =
    Tx_sample byte_req_pair
  | Rx_sample byte_req_pair
  | Latency_sample int "timespec option"

fun stats_call :: "agent_control_block \<Rightarrow> report \<Rightarrow> thread_stats \<Rightarrow> thread_stats result" where
  "stats_call acb (Tx_sample p) st = Inr (add_throughput_tx_sample acb p st)"
| "stats_call acb (Rx_sample p) st = Inr (add_throughput_rx_sample acb p st)"
| "stats_call acb (Latency_sample d t) st = add_latency_sample acb d t st"

fun stats_calls :: "(agent_control_block \<times> report) list \<Rightarrow> thread_stats \<Rightarrow> thread_stats result" where
  "stats_calls [] st = Inr st"
| "stats_calls ((acb, c) # cs) st = bindE (stats_call acb c st) (stats_calls cs)"

text \<open>What the calls made while measuring was on add up to.\<close>

definition measured_tx :: "(agent_control_block \<times> report) list \<Rightarrow> byte_req_pair" where
  "measured_tx cs =
     (\<Sum>(acb, c) \<leftarrow> cs. case c of Tx_sample p \<Rightarrow> if should_measure acb then p else 0 | _ \<Rightarrow> 0)"

definition measured_rx :: "(agent_control_block \<times> report) list \<Rightarrow> byte_req_pair" where
  "measured_rx cs =
     (\<Sum>(acb, c) \<leftarrow> cs. case c of Rx_sample p \<Rightarrow> if should_measure acb then p else 0 | _ \<Rightarrow> 0)"

lemma add_latency_sample_th:
  "add_latency_sample acb d t st = Inr st' \<Longrightarrow> th_rx st' = th_rx st \<and> th_tx st' = th_tx st"
  by (auto simp: add_latency_sample_def bindE_eq_Inr Let_def split: if_splits)

lemma stats_call_th:
  "stats_call acb c st = Inr st' \<Longrightarrow>
   th_rx st' = th_rx st + measured_rx [(acb, c)] \<and> th_tx st' = th_tx st + measured_tx [(acb, c)]"
  by (cases c) (auto simp: add_throughput_tx_sample_eq add_throughput_rx_sample_eq measured_rx_def
      measured_tx_def dest: add_latency_sample_th)

text \<open>
  Whatever a thread reports, in whatever order and however often the manager turns
  measuring on and off, its receive and transmit counters are the sums (modulo \<open>2 ^ 64\<close>) of
  exactly the pairs reported while measuring was on.
\<close>

theorem throughput_counters_are_sums:
  assumes "stats_calls cs init_per_thread_stats = Inr st"
  shows "th_rx st = measured_rx cs \<and> th_tx st = measured_tx cs"
proof -
  have "th_rx st = th_rx s + measured_rx cs \<and> th_tx st = th_tx s + measured_tx cs"
    if "stats_calls cs s = Inr st" for s
    using that
  proof (induction cs arbitrary: s)
    case Nil
    then show ?case by (simp add: measured_rx_def measured_tx_def)
  next
    case (Cons p cs)
    obtain acb c where p: "p = (acb, c)" by (cases p)
    from Cons.prems obtain s' where s': "stats_call acb c s = Inr s'" "stats_calls cs s' = Inr st"
      by (auto simp: p bindE_eq_Inr)
    have "measured_rx (p # cs) = measured_rx [(acb, c)] + measured_rx cs"
      and "measured_tx (p # cs) = measured_tx [(acb, c)] + measured_tx cs"
      by (simp_all add: p measured_rx_def measured_tx_def)
    with stats_call_th [OF s'(1)] Cons.IH [OF s'(2)] show ?case
      by (simp add: add.assoc)
  qed
  from this [OF assms] show ?thesis by (simp add: init_per_thread_stats_def)
qed

subsection \<open>Rings hold the newest entries of a log\<close>

text \<open>
  The contract of a sample ring: one entry is pushed at the slot of a 32-bit count modulo the
  capacity. The law the reader relies on follows when the capacity divides \<open>2 ^ 32\<close>.
\<close>

locale sample_ring =
  fixes cap :: nat and push :: "'a \<Rightarrow> 's \<Rightarrow> 's" and pushed :: "'s \<Rightarrow> u32" and slot :: "'s \<Rightarrow> nat \<Rightarrow> 'a"
  assumes cap_pos: "0 < cap" and cap_dvd: "cap dvd 2 ^ 32"
    and pushed_push: "pushed (push x s) = pushed s + 1"
    and slot_push: "slot (push x s) = (slot s)(unat (pushed s) mod cap := x)"
begin

definition holds :: "'a list \<Rightarrow> 's \<Rightarrow> bool" where
  "holds hist s \<longleftrightarrow> pushed s = of_nat (length hist) \<and>
     (\<forall>i < length hist. length hist \<le> i + cap \<longrightarrow> slot s (i mod cap) = hist ! i)"

lemma next_slot: "holds hist s \<Longrightarrow> unat (pushed s) mod cap = length hist mod cap"
  using cap_dvd by (simp add: holds_def unsigned_of_nat take_bit_eq_mod mod_mod_cancel)

lemma holds_push:
  assumes "holds hist s"
  shows "holds (hist @ [x]) (push x s)"
proof -
  have "slot (push x s) (i mod cap) = (hist @ [x]) ! i"
    if i: "i < Suc (length hist)" "Suc (length hist) \<le> i + cap" for i
  proof (cases "i = length hist")
    case True
    then show ?thesis by (simp add: slot_push next_slot [OF assms])
  next
    case False
    with i have "i < length hist" and "length hist < i + cap" by simp_all
    then have "i mod cap \<noteq> length hist mod cap" by (rule mod_slots_distinct)
    then have "slot (push x s) (i mod cap) = slot s (i mod cap)"
      by (simp only: slot_push next_slot [OF assms] fun_upd_apply if_False)
    then show ?thesis
      using assms i False by (simp add: nth_append holds_def)
  qed
  then show ?thesis using assms by (simp add: holds_def pushed_push add.commute)
qed

end

definition push_latency :: "lat_sample \<Rightarrow> thread_stats \<Rightarrow> thread_stats" where
  "push_latency x st =
     st\<lparr>inc_idx := inc_idx st + 1,
        samples := (samples st)(unat (inc_idx st) mod MAX_PER_THREAD_SAMPLES := x)\<rparr>"

definition push_tx_gap :: "timespec \<Rightarrow> thread_stats \<Rightarrow> thread_stats" where
  "push_tx_gap x st =
     st\<lparr>tx_count := tx_count st + 1,
        tx_samples := (tx_samples st)(unat (tx_count st) mod MAX_PER_THREAD_TX_SAMPLES := x)\<rparr>"

interpretation lat: sample_ring MAX_PER_THREAD_SAMPLES push_latency inc_idx samples
  by unfold_locales (simp_all add: push_latency_def)

interpretation txr: sample_ring MAX_PER_THREAD_TX_SAMPLES push_tx_gap tx_count tx_samples
  by unfold_locales (simp_all add: push_tx_gap_def)

subsection \<open>Latency samples\<close>

text \<open>Every \<open>k\<close>-th element, the \<open>i\<close>-th being the first to look at.\<close>

fun every :: "nat \<Rightarrow> nat \<Rightarrow> 'a list \<Rightarrow> 'a list" where
  "every k i [] = []"
| "every k i (x # xs) = (if i mod k = 0 then x # every k (Suc i) xs else every k (Suc i) xs)"

fun add_latency_samples ::
  "agent_control_block \<Rightarrow> (int \<times> timespec) list \<Rightarrow> thread_stats \<Rightarrow> thread_stats result" where
  "add_latency_samples acb [] st = Inr st"
| "add_latency_samples acb ((d, t) # ls) st =
     bindE (add_latency_sample acb d (Some t) st) (add_latency_samples acb ls)"

definition lat_entry :: "int \<times> timespec \<Rightarrow> lat_sample" where
  "lat_entry p = \<lparr>nsec = of_int (fst p), lat_tx = snd p\<rparr>"

lemma add_latency_sample_measured:
  assumes "should_measure acb" and "sampling_period acb = Inr (int k)" and "0 < d"
  shows "add_latency_sample acb d (Some t) st =
    Inr (let st' = st\<lparr>tx_sample_selector := tx_sample_selector st + 1\<rparr> in
         if unat (tx_sample_selector st) mod k = 0 then push_latency (lat_entry (d, t)) st' else st')"
proof -
  have "uint (tx_sample_selector st) mod int k = int (unat (tx_sample_selector st) mod k)"
    by (simp add: of_nat_mod)
  then show ?thesis
    using assms by (simp add: add_latency_sample_def Let_def push_latency_def lat_entry_def)
qed

lemma add_latency_samples_holds:
  assumes "should_measure acb" and "sampling_period acb = Inr (int k)"
  shows "\<forall>(d, t) \<in> set ls. 0 < d \<Longrightarrow> unat (tx_sample_selector st) + length ls < 2 ^ 32 \<Longrightarrow>
    lat.holds hist st \<Longrightarrow>
    \<exists>st'. add_latency_samples acb ls st = Inr st' \<and>
      lat.holds (hist @ map lat_entry (every k (unat (tx_sample_selector st)) ls)) st'"
proof (induction ls arbitrary: st hist)
  case Nil
  then show ?case by simp
next
  case (Cons p ls)
  obtain d t where p: "p = (d, t)" by (cases p)
  let ?st = "st\<lparr>tx_sample_selector := tx_sample_selector st + 1\<rparr>"
  let ?sel = "unat (tx_sample_selector st)"
  let ?st1 = "if ?sel mod k = 0 then push_latency (lat_entry (d, t)) ?st else ?st"
  let ?hist1 = "if ?sel mod k = 0 then hist @ [lat_entry (d, t)] else hist"
  have step: "add_latency_sample acb d (Some t) st = Inr ?st1"
    using add_latency_sample_measured [OF assms] Cons.prems(1) by (simp add: p Let_def)
  have "lat.holds hist ?st"
    using Cons.prems(3) by (simp add: lat.holds_def)
  then have h: "lat.holds ?hist1 ?st1"
    using lat.holds_push by simp
  have "unat (tx_sample_selector st + 1) = Suc ?sel"
    using Cons.prems(2) by (intro unat_Suc_nowrap) simp
  then have sel: "unat (tx_sample_selector ?st1) = Suc ?sel"
    by (simp add: push_latency_def)
  obtain st' where "add_latency_samples acb ls ?st1 = Inr st'"
    and "lat.holds (?hist1 @ map lat_entry (every k (unat (tx_sample_selector ?st1)) ls)) st'"
    using Cons.IH [OF _ _ h] Cons.prems(1,2) sel by auto
  then show ?case
    using step sel by (auto simp: p)
qed



text \<open>A block that measures with the given sampling rate.\<close>

definition measuring :: "double \<Rightarrow> agent_control_block" where
  "measuring rate =
     \<lparr>acb_idist = fresh_gen, acb_should_load = 1, acb_should_measure = 1, acb_thread_count = 1,
      acb_agent_type = SYMMETRIC_AGENT, acb_per_thread_samples = 0, acb_sampling = rate,
      acb_conn_open = 1\<rparr>"

lemma measuring_should_measure [simp]: "should_measure (measuring r)"
  by (simp add: measuring_def should_measure_def)

lemma measuring_period: "sampling_period (measuring (1 / 2)) = Inr (int 2)"
  by (simp add: measuring_def sampling_period_def get_sampling_rate_def lround_def Let_def)


theorem throughput_counters_are_sums_witness:
  "th_tx (add_throughput_tx_sample (measuring 1) (BRP 24 1) init_per_thread_stats) = BRP 24 1"
proof -
  have "stats_calls [(measuring 1, Tx_sample (BRP 24 1))] init_per_thread_stats =
      Inr (add_throughput_tx_sample (measuring 1) (BRP 24 1) init_per_thread_stats)"
    by simp
  from throughput_counters_are_sums [OF this] show ?thesis
    by (simp add: measured_tx_def)
qed

subsection \<open>Transmit gaps\<close>

text \<open>
  A transmit time stamp adds at most one entry to the ring of gaps; the entry is the
  exact distance in nanoseconds to the time stamp reported before it, in the slot after the last
  one, and the reported time stamp becomes the one the next gap is measured from.
\<close>

theorem tx_gap_is_exact:
  assumes "ts_wf tx" and "ts_wf (prev_tx_timestamp st)" and "tv_sec tx \<noteq> 0"
    and "add_tx_timestamp tx e st = (st', e')"
  shows "prev_tx_timestamp st' = tx \<and>
    (st' = st\<lparr>prev_tx_timestamp := tx\<rparr> \<or>
     (\<exists>d. ts_wf d \<and> ts_ns d = ts_ns tx - ts_ns (prev_tx_timestamp st) \<and>
        st' = (push_tx_gap d st)\<lparr>prev_tx_timestamp := tx\<rparr>))"
proof (cases "tv_sec (prev_tx_timestamp st) = 0")
  case True
  then have "timespec_diff (Some tx) (Some (prev_tx_timestamp st)) = None"
    by (simp add: timespec_diff_def)
  with assms(4) show ?thesis
    by (auto simp: add_tx_timestamp_def Let_def split: prod.splits)
next
  case False
  then obtain d where "timespec_diff (Some tx) (Some (prev_tx_timestamp st)) = Some d" "ts_wf d"
    "ts_ns d = ts_ns tx - ts_ns (prev_tx_timestamp st)"
    using timespec_diff_Some [OF assms(1,2,3)] by blast
  moreover obtain y e1 where "env_drand48 e = (y, e1)" by fastforce
  ultimately show ?thesis
    using assms(4) by (cases "y < 1 / 100") (auto simp: add_tx_timestamp_def push_tx_gap_def)
qed

definition sending_stats :: thread_stats where
  "sending_stats = init_per_thread_stats\<lparr>prev_tx_timestamp := Timespec 5 999999999\<rparr>"

theorem tx_gap_is_exact_witness:
  "\<exists>st' e'. add_tx_timestamp (Timespec 6 1) start_env
      sending_stats = (st', e') \<and> tx_count st' = 1 \<and> ts_ns (tx_samples st' 0) = 2"
proof -
  obtain st' e' where r: "add_tx_timestamp (Timespec 6 1) start_env sending_stats = (st', e')"
    by fastforce
  have "tx_count st' = 1"
    using r by (simp add: add_tx_timestamp_def start_env_def env_drand48_def drand48_def drand48_next_def
        timespec_diff_def sending_stats_def init_per_thread_stats_def Let_def)
      (auto)
  with tx_gap_is_exact [OF _ _ _ r] r show ?thesis
    by (auto simp: ts_wf_def sending_stats_def init_per_thread_stats_def push_tx_gap_def ts_ns_def)
qed

lemma add_tx_timestamp_keeps:
  "th_rx (fst (add_tx_timestamp tx e st)) = th_rx st"
  "th_tx (fst (add_tx_timestamp tx e st)) = th_tx st"
  "inc_idx (fst (add_tx_timestamp tx e st)) = inc_idx st"
  "samples (fst (add_tx_timestamp tx e st)) = samples st"
  by (simp_all add: add_tx_timestamp_def Let_def split: prod.split option.split)

end
