(* ===== verification/Simulation.thy ===== *)
theory Simulation
  imports Lancet_Prelude
begin

section \<open>Runs of operations and simulation\<close>

text \<open>
  A component as a step function on its state, with an output per operation, and its abstract
  specification as a partial step function; runs of both, and the locale that lifts a one-step
  simulation to runs. A component whose 32-bit counters must not wrap gives the number of steps
  it can make as \<open>bound\<close>.
\<close>

fun run_steps :: "('op \<Rightarrow> 'c \<Rightarrow> ('out \<times> 'c) result) \<Rightarrow> 'op list \<Rightarrow> 'c \<Rightarrow> ('out list \<times> 'c) result" where
  "run_steps f [] c = Inr ([], c)"
| "run_steps f (op # ops) c =
     bindE (f op c) (\<lambda>(x, c). bindE (run_steps f ops c) (\<lambda>(xs, c). Inr (x # xs, c)))"

fun abs_steps :: "('op \<Rightarrow> 'a \<Rightarrow> ('out \<times> 'a) option) \<Rightarrow> 'op list \<Rightarrow> 'a \<Rightarrow> ('out list \<times> 'a) option" where
  "abs_steps f [] a = Some ([], a)"
| "abs_steps f (op # ops) a =
     (case f op a of None \<Rightarrow> None
      | Some (x, a) \<Rightarrow> map_option (\<lambda>(xs, a). (x # xs, a)) (abs_steps f ops a))"

locale simulation =
  fixes cstep :: "'op \<Rightarrow> 'c \<Rightarrow> ('out \<times> 'c) result"
    and astep :: "'op \<Rightarrow> 'a \<Rightarrow> ('out \<times> 'a) option"
    and abs :: "'c \<Rightarrow> 'a" and good :: "'c \<Rightarrow> bool" and used :: "'c \<Rightarrow> nat" and bound :: nat
  assumes step: "good c \<Longrightarrow> used c < bound \<Longrightarrow> astep op (abs c) = Some (out, a) \<Longrightarrow>
    \<exists>c'. cstep op c = Inr (out, c') \<and> good c' \<and> abs c' = a \<and> used c' \<le> Suc (used c)"
begin

lemma runs:
  "good c \<Longrightarrow> used c + length ops \<le> bound \<Longrightarrow> abs_steps astep ops (abs c) = Some (outs, a) \<Longrightarrow>
   \<exists>c'. run_steps cstep ops c = Inr (outs, c') \<and> good c' \<and> abs c' = a"
proof (induction ops arbitrary: c outs)
  case Nil
  then show ?case by simp
next
  case (Cons op ops)
  from Cons.prems(3) obtain x a1 xs where x: "astep op (abs c) = Some (x, a1)"
    and xs: "abs_steps astep ops a1 = Some (xs, a)" "outs = x # xs"
    by (auto split: option.splits)
  from Cons.prems(2) have "used c < bound" by simp
  from step [OF Cons.prems(1) this x] obtain c1 where c1: "cstep op c = Inr (x, c1)" "good c1"
    "abs c1 = a1" "used c1 \<le> Suc (used c)" by blast
  have "used c1 + length ops \<le> bound" using c1(4) Cons.prems(2) by simp
  from Cons.IH [OF c1(2) this] xs c1(3) obtain c' where
    "run_steps cstep ops c1 = Inr (xs, c')" "good c'" "abs c' = a" by auto
  with c1(1) xs(2) show ?case by simp
qed

end

end
