(* ===== verification/Timestamping.thy ===== *)
theory Timestamping
  imports Stats Simulation
begin

section \<open>Transmit time stamps (\<open>agents/timestamping.c\<close>, \<open>inc/lancet/timestamping.h\<close>)\<close>

text \<open>
  Per connection a ring of requests whose transmit time is awaited (\<open>tail\<close> to \<open>head\<close>) or known
  and not yet matched with a reply (\<open>consumed\<close> to \<open>tail\<close>), the reading of kernel time stamps from
  control messages, and the matching of a stamp with the requests it covers. The ring is shown to
  refine a queue of completed time stamps followed by a queue of awaited byte offsets.
\<close>

subsection \<open>Control messages\<close>

text \<open>
  A control message of \<open>recvmsg\<close>: the three time stamps of \<open>struct scm_timestamping\<close>, the fields
  read of \<open>struct sock_extended_err\<close>, or any other type. \<open>ENOMSG\<close> and
  \<open>SO_EE_ORIGIN_TIMESTAMPING\<close> are Linux's values.
\<close>

datatype cmsg =
    Scm_timestamping timespec timespec timespec
  | Ip_recverr nat nat u32
  | Other_cmsg

definition ENOMSG :: nat where "ENOMSG = 42"
definition SO_EE_ORIGIN_TIMESTAMPING :: nat where "SO_EE_ORIGIN_TIMESTAMPING = 4"

record timestamp_info =
  time :: timespec
  optid :: u32

text \<open>A \<open>struct timestamp_info\<close> on the stack: what was never written is \<open>None\<close>.\<close>

type_synonym ts_dest = "timespec option \<times> u32 option"

text \<open>The value returned is \<open>found\<close>: 1 or -1.\<close>

fun extract_timestamp :: "cmsg list \<Rightarrow> int \<Rightarrow> ts_dest \<Rightarrow> (int \<times> ts_dest) result" where
  "extract_timestamp [] found dest = Inr (found, dest)"
| "extract_timestamp (Scm_timestamping t0 t1 t2 # hdr) found dest =
     (if tv_sec t2 \<noteq> 0 then
        bindE (assertE (found = - 1)) (\<lambda>_. extract_timestamp hdr 1 (Some t2, snd dest))
      else extract_timestamp hdr found dest)"
| "extract_timestamp (Ip_recverr err origin ee_data # hdr) found dest =
     (if err = ENOMSG \<and> origin = SO_EE_ORIGIN_TIMESTAMPING
      then extract_timestamp hdr found (fst dest, Some ee_data)
      else extract_timestamp hdr found dest)"
| "extract_timestamp (Other_cmsg # hdr) found dest = Inl AssertFail"

fun udp_extract_timestamps :: "cmsg list \<Rightarrow> int \<Rightarrow> timespec option \<Rightarrow> (int \<times> timespec option) result" where
  "udp_extract_timestamps [] found dest = Inr (found, dest)"
| "udp_extract_timestamps (Scm_timestamping t0 t1 t2 # hdr) found dest =
     (if tv_sec t2 \<noteq> 0 then
        bindE (assertE (found = - 1)) (\<lambda>_.
          udp_extract_timestamps hdr 1 (Some (Timespec (tv_sec t2) (tv_nsec t2))))
      else udp_extract_timestamps hdr found dest)"
| "udp_extract_timestamps (_ # hdr) found dest = udp_extract_timestamps hdr found dest"

text \<open>
  What a \<open>recvmsg\<close> returns: an error, nothing to read (both are -1, with different \<open>errno\<close>), or
  the bytes read with their control messages.
\<close>

datatype recvmsg_ret = Recvmsg_error | Recvmsg_block | Recvmsg bytes "cmsg list"

text \<open>
  \<open>timestamp_recv\<close>: the bytes read (none at the end of the stream), and the receive time stamp
  when there are any.
\<close>

definition timestamp_recv ::
  "recvmsg_ret \<Rightarrow> timestamp_info option \<Rightarrow> (bytes option \<times> timestamp_info option) result" where
  "timestamp_recv r last_rx_time =
     (case r of
        Recvmsg_error \<Rightarrow> Inr (None, last_rx_time)
      | Recvmsg_block \<Rightarrow> Inr (None, last_rx_time)
      | Recvmsg data hdr \<Rightarrow>
          if data = [] then Inr (Some [], last_rx_time)
          else bindE (extract_timestamp hdr (- 1) (Some zero_ts, Some 0)) (\<lambda>(ret, t, i).
            bindE (assertE (ret = 1)) (\<lambda>_.
              Inr (Some data, Some \<lparr>time = the t, optid = the i\<rparr>))))"

subsection \<open>The ring\<close>

record pending_tx_timestamps =
  tx_byte_counter :: u32
  head :: u32
  tail :: u32
  consumed :: u32
  pending :: "timestamp_info list"

text \<open>\<open>calloc\<close> of the structure and of its array of \<open>get_max_pending_reqs()\<close> entries.\<close>

definition init_pending :: "int \<Rightarrow> pending_tx_timestamps" where
  "init_pending max_reqs =
     \<lparr>tx_byte_counter = 0, head = 0, tail = 0, consumed = 0,
      pending = replicate (nat max_reqs) \<lparr>time = zero_ts, optid = 0\<rparr>\<rparr>"

text \<open>The remainder of a \<open>uint32_t\<close> by an \<open>int\<close>, computed unsigned, and the entry it selects.\<close>

definition pend_slot :: "int \<Rightarrow> u32 \<Rightarrow> nat result" where
  "pend_slot max_reqs i =
     (if (of_int max_reqs :: u32) = 0 then Inl DivByZero else Inr (unat (i mod of_int max_reqs)))"

definition read_pending :: "pending_tx_timestamps \<Rightarrow> nat \<Rightarrow> timestamp_info result" where
  "read_pending p k = (if k < length (pending p) then Inr (pending p ! k) else Inl OutOfBounds)"

definition write_pending ::
  "pending_tx_timestamps \<Rightarrow> nat \<Rightarrow> timestamp_info \<Rightarrow> pending_tx_timestamps" where
  "write_pending p k i = p\<lparr>pending := (pending p)[k := i]\<rparr>"

definition add_pending_tx_timestamp ::
  "int \<Rightarrow> pending_tx_timestamps \<Rightarrow> u32 \<Rightarrow> pending_tx_timestamps result" where
  "add_pending_tx_timestamp max_reqs p n =
     (let p = p\<lparr>tx_byte_counter := tx_byte_counter p + n\<rparr> in
      bindE (pend_slot max_reqs (head p)) (\<lambda>k.
      let p = p\<lparr>head := head p + 1\<rparr> in
      bindE (read_pending p k) (\<lambda>i. Inr (write_pending p k (i\<lparr>optid := tx_byte_counter p\<rparr>)))))"

text \<open>The entry the returned pointer selects is read before anything else can write it.\<close>

definition pop_pending_tx_timestamps ::
  "int \<Rightarrow> pending_tx_timestamps \<Rightarrow> (timestamp_info option \<times> pending_tx_timestamps) result" where
  "pop_pending_tx_timestamps max_reqs p =
     bindE (assertE (consumed p \<le> head p)) (\<lambda>_.
       if consumed p < tail p then
         bindE (pend_slot max_reqs (consumed p)) (\<lambda>k.
         bindE (read_pending p k) (\<lambda>i. Inr (Some i, p\<lparr>consumed := consumed p + 1\<rparr>)))
       else Inr (None, p))"

definition push_complete_tx_timestamp ::
  "int \<Rightarrow> pending_tx_timestamps \<Rightarrow> timespec \<Rightarrow> rand_env \<Rightarrow> thread_stats \<Rightarrow>
   (pending_tx_timestamps \<times> thread_stats \<times> rand_env) result" where
  "push_complete_tx_timestamp max_reqs p to_add e st =
     bindE (pend_slot max_reqs (tail p)) (\<lambda>k.
     bindE (read_pending p k) (\<lambda>i.
     let p = (write_pending p k (i\<lparr>time := to_add\<rparr>))\<lparr>head := head p + 1, tail := tail p + 1\<rparr>;
         (st, e) = add_tx_timestamp to_add e st
     in Inr (p, st, e)))"

subsection \<open>Matching a kernel time stamp\<close>

text \<open>
  The loop of \<open>get_tx_timestamp\<close> from the entry in slot \<open>k\<close>. It looks at the byte offsets only,
  which it does not change, so it can go round the ring for ever: that is \<open>None\<close>.
\<close>

partial_function (option) complete_loop ::
  "int \<Rightarrow> timespec \<Rightarrow> u32 \<Rightarrow> nat \<Rightarrow> pending_tx_timestamps \<Rightarrow> thread_stats \<Rightarrow> rand_env \<Rightarrow>
   (pending_tx_timestamps \<times> thread_stats \<times> rand_env) result option" where
  "complete_loop max_reqs recv_time recv_optid k p st e =
     (case read_pending p k of
        Inl err \<Rightarrow> Some (Inl err)
      | Inr ts_info \<Rightarrow>
          if optid ts_info \<le> recv_optid + 1 then
            let p = (write_pending p k (ts_info\<lparr>time := recv_time\<rparr>))\<lparr>tail := tail p + 1\<rparr>;
                st_e = add_tx_timestamp recv_time e st
            in if optid ts_info = recv_optid + 1 then Some (Inr (p, fst st_e, snd st_e))
               else (case pend_slot max_reqs (tail p) of
                       Inl err \<Rightarrow> Some (Inl err)
                     | Inr k' \<Rightarrow>
                         complete_loop max_reqs recv_time recv_optid k' p (fst st_e) (snd st_e))
          else Some (Inr (p, st, e)))"

text \<open>
  \<open>get_tx_timestamp\<close> over the socket's error queue: the value it returns (1 or 0), what is left
  of the queue, the ring and the statistics. A stamp for bytes before the first awaited request
  is skipped by the recursive call.
\<close>

fun get_tx_timestamp ::
  "int \<Rightarrow> recvmsg_ret list \<Rightarrow> pending_tx_timestamps \<Rightarrow> thread_stats \<Rightarrow> rand_env \<Rightarrow>
   (int \<times> recvmsg_ret list \<times> pending_tx_timestamps \<times> thread_stats \<times> rand_env) result" where
  "get_tx_timestamp max_reqs q p st e =
     bindE (assertE (tail p \<le> head p)) (\<lambda>_.
     if head p = tail p then Inr (0, q, p, st, e)
     else case q of
       [] \<Rightarrow> Inr (0, [], p, st, e)
     | Recvmsg_error # q \<Rightarrow> Inr (0, q, p, st, e)
     | Recvmsg_block # q \<Rightarrow> Inr (0, q, p, st, e)
     | Recvmsg data hdr # q \<Rightarrow>
         bindE (assertE (data = [])) (\<lambda>_.
         bindE (extract_timestamp hdr (- 1) (None, None)) (\<lambda>(n, t, i).
         bindE (assertE (n = 1)) (\<lambda>_.
         bindE (pend_slot max_reqs (tail p)) (\<lambda>k.
         bindE (read_pending p k) (\<lambda>ts_info.
         case (t, i) of
           (Some recv_time, Some recv_optid) \<Rightarrow>
             if recv_optid + 1 < optid ts_info then get_tx_timestamp max_reqs q p st e
             else bindE (assertE (optid ts_info \<le> recv_optid + 1)) (\<lambda>_.
               case complete_loop max_reqs recv_time recv_optid k p st e of
                 None \<Rightarrow> Inl Diverges
               | Some r \<Rightarrow> bindE r (\<lambda>(p, st, e). Inr (n, q, p, st, e)))
         | _ \<Rightarrow> Inl Uninit))))))"

declare get_tx_timestamp.simps [simp del]

definition udp_get_tx_timestamp ::
  "recvmsg_ret \<Rightarrow> timespec option \<Rightarrow> (int \<times> timespec option) result" where
  "udp_get_tx_timestamp r tx_timestamp =
     (case r of
        Recvmsg_error \<Rightarrow> Inr (- 1, tx_timestamp)
      | Recvmsg_block \<Rightarrow> Inr (- 1, tx_timestamp)
      | Recvmsg data hdr \<Rightarrow>
          bindE (assertE (data = [])) (\<lambda>_. udp_extract_timestamps hdr (- 1) tx_timestamp))"

subsection \<open>The ring refines a queue\<close>

text \<open>
  The queue a ring stands for: the completed and not yet consumed time stamps, oldest first, and
  the byte offsets still awaited. \<open>tx_inv n\<close> is its invariant for a capacity of \<open>n\<close> requests.
\<close>

definition completed_q :: "pending_tx_timestamps \<Rightarrow> timespec list" where
  "completed_q p = map (\<lambda>i. time (pending p ! (i mod length (pending p)))) [unat (consumed p)..<unat (tail p)]"

definition waiting_q :: "pending_tx_timestamps \<Rightarrow> u32 list" where
  "waiting_q p = map (\<lambda>i. optid (pending p ! (i mod length (pending p)))) [unat (tail p)..<unat (head p)]"

definition tx_inv :: "nat \<Rightarrow> pending_tx_timestamps \<Rightarrow> bool" where
  "tx_inv n p \<longleftrightarrow> 0 < n \<and> n < 2 ^ 31 \<and> length (pending p) = n \<and> consumed p \<le> tail p \<and> tail p \<le> head p \<and>
     unat (head p) \<le> unat (consumed p) + n"

lemma unat_u32_less: "unat (x :: u32) < 2 ^ 32"
  using unsigned_less [of x] by simp

lemma tx_invD:
  assumes "tx_inv n p"
  shows "0 < n" "length (pending p) = n" "unat (consumed p) \<le> unat (tail p)"
    "unat (tail p) \<le> unat (head p)" "unat (head p) \<le> unat (consumed p) + n"
  using assms by (simp_all add: tx_inv_def word_le_nat_alt)

lemma pend_slot_eq:
  assumes "0 < n" and "n < 2 ^ 31"
  shows "pend_slot (int n) i = Inr (unat i mod n)"
proof -
  have u: "unat (of_nat n :: u32) = n" using assms(2) by (simp add: unat_of_nat_id)
  then have "(of_nat n :: u32) \<noteq> 0" using assms(1) by (metis less_irrefl unat_0)
  then show ?thesis by (simp add: pend_slot_def unat_mod u)
qed

lemma tx_slot:
  assumes "tx_inv n p"
  shows "pend_slot (int n) i = Inr (unat i mod n)"
    and "read_pending p (unat i mod n) = Inr (pending p ! (unat i mod n))"
  using assms by (simp_all add: tx_inv_def pend_slot_eq read_pending_def)

lemma map_ring_write:
  assumes "\<And>i. a \<le> i \<Longrightarrow> i < b \<Longrightarrow> i mod n = j mod n \<Longrightarrow> f y = f (xs ! (j mod n))"
    and "0 < n" and "length xs = n"
  shows "map (\<lambda>i. f (xs[j mod n := y] ! (i mod n))) [a..<b] = map (\<lambda>i. f (xs ! (i mod n))) [a..<b]"
  using assms by (auto simp: nth_list_update)

lemma upt_mid: "a \<le> (b :: nat) \<Longrightarrow> b < c \<Longrightarrow> [a..<c] = [a..<b] @ b # [Suc b..<c]"
  by (metis le_add_diff_inverse less_imp_le_nat upt_add_eq_append upt_conv_Cons)

lemma length_queues:
  "length (completed_q p) = unat (tail p) - unat (consumed p)"
  "length (waiting_q p) = unat (head p) - unat (tail p)"
  by (simp_all add: completed_q_def waiting_q_def)

lemma add_pending_refines:
  assumes "tx_inv n p" and "unat (head p) < unat (consumed p) + n" and "Suc (unat (head p)) < 2 ^ 32"
  shows "\<exists>p'. add_pending_tx_timestamp (int n) p m = Inr p' \<and> tx_inv n p' \<and>
    completed_q p' = completed_q p \<and> waiting_q p' = waiting_q p @ [tx_byte_counter p + m] \<and>
    tx_byte_counter p' = tx_byte_counter p + m \<and> head p' = head p + 1 \<and> consumed p' = consumed p"
proof -
  note d = tx_invD [OF assms(1)]
  let ?j = "unat (head p)"
  let ?i = "(pending p ! (?j mod n))\<lparr>optid := tx_byte_counter p + m\<rparr>"
  let ?p = "p\<lparr>tx_byte_counter := tx_byte_counter p + m, head := head p + 1, pending := (pending p)[?j mod n := ?i]\<rparr>"
  have h: "unat (head p + 1) = Suc ?j" using assms(3) by (intro unat_Suc_nowrap) simp
  have run: "add_pending_tx_timestamp (int n) p m = Inr ?p"
    using tx_slot [OF assms(1)] d(1,2)
    by (simp add: add_pending_tx_timestamp_def Let_def read_pending_def write_pending_def)
  have inv: "tx_inv n ?p"
    using assms(1,2) h by (simp add: tx_inv_def word_le_nat_alt)
  have c: "completed_q ?p = completed_q p"
    using map_ring_write [of "unat (consumed p)" "unat (tail p)" n ?j time ?i "pending p"] d(1,2)
    by (simp add: completed_q_def)
  have "i mod n \<noteq> ?j mod n" if "unat (tail p) \<le> i" "i < ?j" for i
    using that d(3) assms(2) by (intro mod_slots_distinct) linarith+
  then have "map (\<lambda>i. optid ((pending p)[?j mod n := ?i] ! (i mod n))) [unat (tail p)..<?j] =
      map (\<lambda>i. optid (pending p ! (i mod n))) [unat (tail p)..<?j]"
    using d(1,2) by (intro map_ring_write) auto
  then have w: "waiting_q ?p = waiting_q p @ [tx_byte_counter p + m]"
    using d(1,2,4) h by (simp add: waiting_q_def)
  from run inv c w show ?thesis by (intro exI [of _ ?p]) simp
qed

lemma pop_pending_refines:
  assumes "tx_inv n p"
  shows "case completed_q p of
      [] \<Rightarrow> pop_pending_tx_timestamps (int n) p = Inr (None, p)
    | t # ts \<Rightarrow> \<exists>i p'. pop_pending_tx_timestamps (int n) p = Inr (Some i, p') \<and> time i = t \<and> tx_inv n p' \<and>
        completed_q p' = ts \<and> waiting_q p' = waiting_q p \<and> tx_byte_counter p' = tx_byte_counter p \<and>
        head p' = head p \<and> consumed p' = consumed p + 1"
proof -
  note d = tx_invD [OF assms]
  have le: "consumed p \<le> head p" using d by (simp add: word_le_nat_alt)
  show ?thesis
  proof (cases "consumed p < tail p")
    case False
    then have "completed_q p = []" by (simp add: completed_q_def word_less_nat_alt)
    with False le show ?thesis by (simp add: pop_pending_tx_timestamps_def)
  next
    case True
    then have lt: "unat (consumed p) < unat (tail p)" by (simp add: word_less_nat_alt)
    then have c1: "unat (consumed p + 1) = Suc (unat (consumed p))"
      using unat_u32_less [of "tail p"] by (intro unat_Suc_nowrap) simp
    let ?i = "pending p ! (unat (consumed p) mod n)" and ?p = "p\<lparr>consumed := consumed p + 1\<rparr>"
    have "pop_pending_tx_timestamps (int n) p = Inr (Some ?i, ?p)"
      using True le tx_slot [OF assms] by (simp add: pop_pending_tx_timestamps_def)
    moreover have "tx_inv n ?p"
      using assms lt c1 by (simp add: tx_inv_def word_le_nat_alt)
    moreover have "completed_q p = time ?i # completed_q ?p" "waiting_q ?p = waiting_q p"
      using lt c1 d(2) by (simp_all add: completed_q_def waiting_q_def upt_conv_Cons)
    ultimately show ?thesis by simp
  qed
qed

text \<open>Completing the oldest awaited request, in the two functions that do it.\<close>

definition complete_head :: "nat \<Rightarrow> timespec \<Rightarrow> pending_tx_timestamps \<Rightarrow> pending_tx_timestamps" where
  "complete_head n t p =
     (write_pending p (unat (tail p) mod n) ((pending p ! (unat (tail p) mod n))\<lparr>time := t\<rparr>))
       \<lparr>tail := tail p + 1\<rparr>"

lemma complete_head_sel [simp]:
  "tx_byte_counter (complete_head n t p) = tx_byte_counter p" "head (complete_head n t p) = head p"
  "consumed (complete_head n t p) = consumed p"
  by (simp_all add: complete_head_def write_pending_def)

lemma complete_one:
  assumes "tx_inv n p" and "waiting_q p = w # ws"
  shows "optid (pending p ! (unat (tail p) mod n)) = w"
    and "tx_inv n (complete_head n t p)" and "completed_q (complete_head n t p) = completed_q p @ [t]"
    and "waiting_q (complete_head n t p) = ws"
    and "unat (tail p + 1) = Suc (unat (tail p))"
proof -
  note d = tx_invD [OF assms(1)]
  let ?j = "unat (tail p)"
  let ?i = "(pending p ! (?j mod n))\<lparr>time := t\<rparr>"
  have lt: "?j < unat (head p)" using assms(2) length_queues(2) [of p] by simp
  show t1: "unat (tail p + 1) = Suc ?j"
    using lt unat_u32_less [of "head p"] by (intro unat_Suc_nowrap) simp
  show "optid (pending p ! (?j mod n)) = w"
    using assms(2) lt d(2) by (simp add: waiting_q_def upt_conv_Cons)
  show "tx_inv n (complete_head n t p)"
    using assms(1) lt t1 by (simp add: complete_head_def tx_inv_def word_le_nat_alt write_pending_def)
  have "i mod n \<noteq> ?j mod n" if "unat (consumed p) \<le> i" "i < ?j" for i
    using that d(5) lt by (intro mod_slots_distinct) linarith+
  then have "map (\<lambda>i. time ((pending p)[?j mod n := ?i] ! (i mod n))) [unat (consumed p)..<?j] =
      map (\<lambda>i. time (pending p ! (i mod n))) [unat (consumed p)..<?j]"
    using d(1,2) by (intro map_ring_write) auto
  then show "completed_q (complete_head n t p) = completed_q p @ [t]"
    using d(1-3) t1 by (simp add: complete_head_def completed_q_def write_pending_def)
  have "map (\<lambda>i. optid ((pending p)[?j mod n := ?i] ! (i mod n))) [Suc ?j..<unat (head p)] =
      map (\<lambda>i. optid (pending p ! (i mod n))) [Suc ?j..<unat (head p)]"
    using d(1,2) by (intro map_ring_write) auto
  then show "waiting_q (complete_head n t p) = ws"
    using assms(2) lt t1 d(2) by (simp add: complete_head_def waiting_q_def write_pending_def upt_conv_Cons del: map_eq_conv)
qed

lemma complete_loop_refines:
  assumes "tx_inv n p" and "waiting_q p = us @ (ro + 1) # vs" and "\<forall>u \<in> set us. u < ro + 1"
  shows "\<exists>p' st' e'. complete_loop (int n) rt ro (unat (tail p) mod n) p st e = Some (Inr (p', st', e')) \<and>
    tx_inv n p' \<and> completed_q p' = completed_q p @ replicate (Suc (length us)) rt \<and> waiting_q p' = vs \<and>
    tx_byte_counter p' = tx_byte_counter p \<and> head p' = head p \<and> consumed p' = consumed p"
  using assms
proof (induction us arbitrary: p st e)
  case Nil
  have w: "waiting_q p = (ro + 1) # vs" using Nil.prems(2) by simp
  note one = complete_one(1,5) [OF Nil.prems(1) w] complete_one(2-4) [OF Nil.prems(1) w, where t = rt]
  show ?case
    using one tx_slot(2) [OF Nil.prems(1), of "tail p"]
    by (subst complete_loop.simps) (simp add: Let_def complete_head_def write_pending_def)
next
  case (Cons u us)
  have w: "waiting_q p = u # us @ (ro + 1) # vs" using Cons.prems(2) by simp
  note one = complete_one(1,5) [OF Cons.prems(1) w] complete_one(2-4) [OF Cons.prems(1) w, where t = rt]
  let ?k = "unat (tail p) mod n"
  let ?p = "complete_head n rt p"
  let ?se = "add_tx_timestamp rt e st"
  have "u < ro + 1" using Cons.prems(3) by simp
  then have u: "u \<le> ro + 1" "u \<noteq> ro + 1" by auto
  have step: "complete_loop (int n) rt ro ?k p st e =
      complete_loop (int n) rt ro (unat (tail ?p) mod n) ?p (fst ?se) (snd ?se)"
    using one(1,2) u tx_slot(2) [OF Cons.prems(1), of "tail p"] tx_slot(1) [OF one(3), of "tail p + 1"]
    by (subst complete_loop.simps) (simp add: Let_def complete_head_def)
  obtain p' st' e' where
    "complete_loop (int n) rt ro (unat (tail ?p) mod n) ?p (fst ?se) (snd ?se) = Some (Inr (p', st', e'))"
    "tx_inv n p'" "completed_q p' = completed_q ?p @ replicate (Suc (length us)) rt" "waiting_q p' = vs"
    "tx_byte_counter p' = tx_byte_counter ?p" "head p' = head ?p" "consumed p' = consumed ?p"
    using Cons.IH [OF one(3,5), of "fst ?se" "snd ?se"] Cons.prems(3) by auto
  then show ?case
    unfolding step
    by (intro exI [of _ p'] exI [of _ st'] exI [of _ e']) (simp add: one(4))
qed

lemma push_complete_refines:
  assumes "tx_inv n p" and "waiting_q p = []" and "unat (head p) < unat (consumed p) + n"
    and "Suc (unat (head p)) < 2 ^ 32"
  shows "\<exists>p' st' e'. push_complete_tx_timestamp (int n) p t e st = Inr (p', st', e') \<and> tx_inv n p' \<and>
    completed_q p' = completed_q p @ [t] \<and> waiting_q p' = [] \<and>
    tx_byte_counter p' = tx_byte_counter p \<and> head p' = head p + 1 \<and> consumed p' = consumed p"
proof -
  note d = tx_invD [OF assms(1)]
  have ht: "unat (head p) = unat (tail p)"
    using assms(2) length_queues(2) [of p] d(4) by simp
  then have ht': "head p = tail p" by (simp add: word_unat_eq_iff)
  let ?j = "unat (tail p)"
  let ?i = "(pending p ! (?j mod n))\<lparr>time := t\<rparr>"
  let ?p = "p\<lparr>pending := (pending p)[?j mod n := ?i], head := head p + 1, tail := tail p + 1\<rparr>"
  have t1: "unat (tail p + 1) = Suc ?j" using assms(4) ht by (intro unat_Suc_nowrap) simp
  have run: "push_complete_tx_timestamp (int n) p t e st =
      Inr (?p, fst (add_tx_timestamp t e st), snd (add_tx_timestamp t e st))"
    using tx_slot [OF assms(1), of "tail p"]
    by (simp add: push_complete_tx_timestamp_def write_pending_def split: prod.split)
  have inv: "tx_inv n ?p"
    using assms(1,3) t1 ht ht' by (simp add: tx_inv_def word_le_nat_alt)
  have "i mod n \<noteq> ?j mod n" if "unat (consumed p) \<le> i" "i < ?j" for i
    using that assms(3) ht by (intro mod_slots_distinct) linarith+
  then have "map (\<lambda>i. time ((pending p)[?j mod n := ?i] ! (i mod n))) [unat (consumed p)..<?j] =
      map (\<lambda>i. time (pending p ! (i mod n))) [unat (consumed p)..<?j]"
    using d(1,2) by (intro map_ring_write) auto
  then have c: "completed_q ?p = completed_q p @ [t]"
    using d(1-3) t1 by (simp add: completed_q_def)
  have "waiting_q ?p = []" using t1 ht' by (simp add: waiting_q_def)
  with run inv c show ?thesis
    by (intro exI [of _ ?p] exI [of _ "fst (add_tx_timestamp t e st)"]
        exI [of _ "snd (add_tx_timestamp t e st)"]) simp
qed

text \<open>A kernel message that carries the transmit time \<open>t\<close> of the bytes up to offset \<open>ro\<close>.\<close>

definition tx_message :: "timespec \<Rightarrow> u32 \<Rightarrow> recvmsg_ret" where
  "tx_message t ro =
     Recvmsg [] [Scm_timestamping zero_ts zero_ts t, Ip_recverr ENOMSG SO_EE_ORIGIN_TIMESTAMPING ro]"

lemma extract_tx_message:
  "tv_sec t \<noteq> 0 \<Longrightarrow>
   extract_timestamp [Scm_timestamping zero_ts zero_ts t, Ip_recverr ENOMSG SO_EE_ORIGIN_TIMESTAMPING ro]
     (- 1) (None, None) = Inr (1, Some t, Some ro)"
  by simp

lemma get_tx_timestamp_refines:
  assumes "tx_inv n p" and "waiting_q p = us @ (ro + 1) # vs" and "\<forall>u \<in> set us. u < ro + 1"
    and "tv_sec t \<noteq> 0"
  shows "\<exists>p' st' e'. get_tx_timestamp (int n) (tx_message t ro # q) p st e = Inr (1, q, p', st', e') \<and>
    tx_inv n p' \<and> completed_q p' = completed_q p @ replicate (Suc (length us)) t \<and> waiting_q p' = vs \<and>
    tx_byte_counter p' = tx_byte_counter p \<and> head p' = head p \<and> consumed p' = consumed p"
proof -
  note d = tx_invD [OF assms(1)]
  have "unat (tail p) < unat (head p)"
    using assms(2) length_queues(2) [of p] by simp
  then have ht: "tail p \<le> head p" "head p \<noteq> tail p"
    using d(4) by (auto simp: word_le_nat_alt)
  let ?w = "optid (pending p ! (unat (tail p) mod n))"
  obtain w ws where w: "waiting_q p = w # ws" using assms(2) by (cases us) auto
  have ww: "?w = w" by (rule complete_one(1) [OF assms(1) w])
  have "w \<le> ro + 1" using assms(2,3) w by (cases us) (auto simp: less_imp_le)
  then have cmp: "?w \<le> ro + 1" "\<not> ro + 1 < ?w" by (simp_all add: ww)
  obtain p' st' e' where loop:
    "complete_loop (int n) t ro (unat (tail p) mod n) p st e = Some (Inr (p', st', e'))"
    and r: "tx_inv n p'" "completed_q p' = completed_q p @ replicate (Suc (length us)) t" "waiting_q p' = vs"
    "tx_byte_counter p' = tx_byte_counter p" "head p' = head p" "consumed p' = consumed p"
    using complete_loop_refines [OF assms(1-3), of t st e] by blast
  have "get_tx_timestamp (int n) (tx_message t ro # q) p st e = Inr (1, q, p', st', e')"
    using ht cmp loop tx_slot [OF assms(1), of "tail p"] extract_tx_message [OF assms(4)]
    by (subst get_tx_timestamp.simps) (simp add: tx_message_def)
  with r show ?thesis by blast
qed

subsection \<open>A connection's time stamps as a queue\<close>

text \<open>
  What the transports do with a connection's ring, as operations: a request of some bytes goes
  out and waits for its stamp, the kernel reports a stamp up to a byte offset, a request goes out
  with the time read by the agent, a reply takes the oldest stamp.
\<close>

datatype tx_op =
    Sent u32
  | Stamped timespec u32
  | Sent_at timespec
  | Replied

record tx_abs =
  abs_completed :: "timespec list"
  abs_waiting :: "u32 list"
  abs_counter :: u32

text \<open>
  The abstract queue; \<open>None\<close> is an operation the program does not make in this state: more
  requests than the ring holds, a stamp that matches no request, mixing the two ways of stamping.
\<close>

fun split_at :: "u32 \<Rightarrow> u32 list \<Rightarrow> (nat \<times> u32 list) option" where
  "split_at w [] = None"
| "split_at w (u # us) =
     (if u = w then Some (1, us)
      else if u < w then map_option (\<lambda>(k, vs). (Suc k, vs)) (split_at w us)
      else None)"

fun abs_step :: "nat \<Rightarrow> tx_op \<Rightarrow> tx_abs \<Rightarrow> (timespec option \<times> tx_abs) option" where
  "abs_step n (Sent m) a =
     (if length (abs_completed a) + length (abs_waiting a) < n
      then Some (None, a\<lparr>abs_counter := abs_counter a + m,
                      abs_waiting := abs_waiting a @ [abs_counter a + m]\<rparr>)
      else None)"
| "abs_step n (Stamped t ro) a =
     (if tv_sec t = 0 then None
      else map_option (\<lambda>(k, vs). (None, a\<lparr>abs_completed := abs_completed a @ replicate k t, abs_waiting := vs\<rparr>))
        (split_at (ro + 1) (abs_waiting a)))"
| "abs_step n (Sent_at t) a =
     (if abs_waiting a = [] \<and> length (abs_completed a) < n
      then Some (None, a\<lparr>abs_completed := abs_completed a @ [t]\<rparr>) else None)"
| "abs_step n Replied a =
     (case abs_completed a of [] \<Rightarrow> None | t # ts \<Rightarrow> Some (Some t, a\<lparr>abs_completed := ts\<rparr>))"

text \<open>The same operations on the ring, with the statistics and the random state they change.\<close>

type_synonym tx_state = "pending_tx_timestamps \<times> thread_stats \<times> rand_env"

fun ring_step :: "int \<Rightarrow> tx_op \<Rightarrow> tx_state \<Rightarrow> (timespec option \<times> tx_state) result" where
  "ring_step m (Sent k) (p, st, e) =
     bindE (add_pending_tx_timestamp m p k) (\<lambda>p. Inr (None, p, st, e))"
| "ring_step m (Stamped t ro) (p, st, e) =
     bindE (get_tx_timestamp m [tx_message t ro] p st e) (\<lambda>(ret, _, p, st, e).
     bindE (assertE (ret = 1)) (\<lambda>_. Inr (None, p, st, e)))"
| "ring_step m (Sent_at t) (p, st, e) =
     bindE (push_complete_tx_timestamp m p t e st) (\<lambda>(p, st, e). Inr (None, p, st, e))"
| "ring_step m Replied (p, st, e) =
     bindE (pop_pending_tx_timestamps m p) (\<lambda>(i, p). Inr (map_option time i, p, st, e))"

definition tx_abs_of :: "pending_tx_timestamps \<Rightarrow> tx_abs" where
  "tx_abs_of p = \<lparr>abs_completed = completed_q p, abs_waiting = waiting_q p, abs_counter = tx_byte_counter p\<rparr>"

lemma split_at_Some:
  "split_at w us = Some (k, vs) \<Longrightarrow>
   \<exists>xs. us = xs @ w # vs \<and> (\<forall>x \<in> set xs. x < w) \<and> k = Suc (length xs)"
proof (induction us arbitrary: k)
  case Nil
  then show ?case by simp
next
  case (Cons u us)
  show ?case
  proof (cases "u = w")
    case True
    with Cons.prems show ?thesis by (intro exI [of _ "[]"]) simp
  next
    case False
    with Cons.prems obtain k' where "u < w" "split_at w us = Some (k', vs)" "k = Suc k'"
      by (auto split: if_splits)
    moreover from Cons.IH [OF this(2)] obtain xs where
      "us = xs @ w # vs" "\<forall>x \<in> set xs. x < w" "k' = Suc (length xs)" by blast
    ultimately show ?thesis by (intro exI [of _ "u # xs"]) simp
  qed
qed

text \<open>Every operation on the ring is the operation on the queue.\<close>

lemma ring_step_simulates:
  assumes "tx_inv n p" and "unat (head p) < 2 ^ 32 - 1" and "abs_step n op (tx_abs_of p) = Some (out, a)"
  shows "\<exists>p' st' e'. ring_step (int n) op (p, st, e) = Inr (out, p', st', e') \<and> tx_inv n p' \<and>
    tx_abs_of p' = a \<and> unat (head p') \<le> Suc (unat (head p))"
proof -
  note d = tx_invD [OF assms(1)]
  have room: "unat (head p) < unat (consumed p) + n"
    if "length (completed_q p) + length (waiting_q p) < n"
    using that d(3,4) by (simp add: length_queues)
  have suc: "Suc (unat (head p)) < 2 ^ 32" "unat (head p + 1) \<le> Suc (unat (head p))"
    using assms(2) unat_Suc_nowrap [of "head p"] by simp_all
  show ?thesis
  proof (cases op)
    case (Sent m)
    with assms(3) have "length (completed_q p) + length (waiting_q p) < n" "out = None"
      "a = tx_abs_of p\<lparr>abs_counter := tx_byte_counter p + m,
         abs_waiting := waiting_q p @ [tx_byte_counter p + m]\<rparr>"
      by (simp_all add: tx_abs_of_def split: if_splits)
    moreover from add_pending_refines [OF assms(1) room [OF this(1)] suc(1), of m] obtain p' where
      "add_pending_tx_timestamp (int n) p m = Inr p'" "tx_inv n p'" "completed_q p' = completed_q p"
      "waiting_q p' = waiting_q p @ [tx_byte_counter p + m]"
      "tx_byte_counter p' = tx_byte_counter p + m" "head p' = head p + 1" by blast
    ultimately show ?thesis using Sent suc(2) by (simp add: tx_abs_of_def)
  next
    case (Stamped t ro)
    with assms(3) obtain k vs where k: "tv_sec t \<noteq> 0" "split_at (ro + 1) (waiting_q p) = Some (k, vs)"
      "out = None" "a = tx_abs_of p\<lparr>abs_completed := completed_q p @ replicate k t, abs_waiting := vs\<rparr>"
      by (auto simp: tx_abs_of_def split: if_splits)
    from split_at_Some [OF k(2)] obtain us where us: "waiting_q p = us @ (ro + 1) # vs"
      "\<forall>x \<in> set us. x < ro + 1" "k = Suc (length us)" by blast
    from get_tx_timestamp_refines [OF assms(1) us(1,2) k(1), of "[]" st e] obtain p' st' e' where
      "get_tx_timestamp (int n) [tx_message t ro] p st e = Inr (1, [], p', st', e')" "tx_inv n p'"
      "completed_q p' = completed_q p @ replicate (Suc (length us)) t" "waiting_q p' = vs"
      "tx_byte_counter p' = tx_byte_counter p" "head p' = head p" by blast
    with Stamped k us(3) show ?thesis by (simp add: tx_abs_of_def)
  next
    case (Sent_at t)
    with assms(3) have w: "waiting_q p = []" "length (completed_q p) + length (waiting_q p) < n"
      "out = None" "a = tx_abs_of p\<lparr>abs_completed := completed_q p @ [t]\<rparr>"
      by (simp_all add: tx_abs_of_def split: if_splits)
    from push_complete_refines [OF assms(1) w(1) room [OF w(2)] suc(1), of t e st] obtain p' st' e' where
      "push_complete_tx_timestamp (int n) p t e st = Inr (p', st', e')" "tx_inv n p'"
      "completed_q p' = completed_q p @ [t]" "waiting_q p' = []"
      "tx_byte_counter p' = tx_byte_counter p" "head p' = head p + 1" by blast
    with Sent_at w suc(2) show ?thesis by (simp add: tx_abs_of_def)
  next
    case Replied
    with assms(3) obtain t ts where t: "completed_q p = t # ts" "out = Some t"
      "a = tx_abs_of p\<lparr>abs_completed := ts\<rparr>"
      by (auto simp: tx_abs_of_def split: list.splits)
    with pop_pending_refines [OF assms(1)] obtain i p' where
      "pop_pending_tx_timestamps (int n) p = Inr (Some i, p')" "time i = t" "tx_inv n p'"
      "completed_q p' = ts" "waiting_q p' = waiting_q p" "tx_byte_counter p' = tx_byte_counter p"
      "head p' = head p" by auto
    with Replied t show ?thesis by (simp add: tx_abs_of_def)
  qed
qed

interpretation tx: simulation "ring_step (int n)" "abs_step n" "\<lambda>c. tx_abs_of (fst c)"
  "\<lambda>c. tx_inv n (fst c)" "\<lambda>c. unat (head (fst c))" "2 ^ 32 - 1" for n
proof
  fix c :: tx_state and op out a
  assume "tx_inv n (fst c)" "unat (head (fst c)) < 2 ^ 32 - 1"
    "abs_step n op (tx_abs_of (fst c)) = Some (out, a)"
  then show "\<exists>c'. ring_step (int n) op c = Inr (out, c') \<and> tx_inv n (fst c') \<and>
      tx_abs_of (fst c') = a \<and> unat (head (fst c')) \<le> Suc (unat (head (fst c)))"
    using ring_step_simulates [of n "fst c" op out a "fst (snd c)" "snd (snd c)"] by auto
qed

definition empty_tx_abs :: tx_abs where
  "empty_tx_abs = \<lparr>abs_completed = [], abs_waiting = [], abs_counter = 0\<rparr>"

lemma init_pending_inv:
  assumes "0 < n" and "n < 2 ^ 31"
  shows "tx_inv n (init_pending (int n))" and "tx_abs_of (init_pending (int n)) = empty_tx_abs"
  using assms
  by (simp_all add: tx_inv_def init_pending_def tx_abs_of_def empty_tx_abs_def completed_q_def waiting_q_def)



subsection \<open>Replies are matched with requests in order\<close>

fun sent_times :: "tx_op list \<Rightarrow> timespec list" where
  "sent_times [] = []"
| "sent_times (Sent_at t # ops) = t # sent_times ops"
| "sent_times (_ # ops) = sent_times ops"

definition agent_stamped :: "tx_op \<Rightarrow> bool" where
  "agent_stamped op = (case op of Sent_at _ \<Rightarrow> True | Replied \<Rightarrow> True | _ \<Rightarrow> False)"

definition reply_times :: "timespec option list \<Rightarrow> timespec list" where
  "reply_times outs = map the (filter (\<lambda>x. x \<noteq> None) outs)"

lemma abs_steps_fifo:
  "list_all agent_stamped ops \<Longrightarrow> abs_waiting a = [] \<Longrightarrow>
   abs_steps (abs_step n) ops a = Some (outs, a') \<Longrightarrow>
   reply_times outs @ abs_completed a' = abs_completed a @ sent_times ops"
proof (induction ops arbitrary: a outs)
  case Nil
  then show ?case by (simp add: reply_times_def)
next
  case (Cons op ops)
  from Cons.prems obtain x a1 xs where x: "abs_step n op a = Some (x, a1)"
    "abs_steps (abs_step n) ops a1 = Some (xs, a')" "outs = x # xs"
    by (auto split: option.splits)
  have "agent_stamped op" using Cons.prems(1) by simp
  then consider t where "op = Sent_at t" | "op = Replied"
    by (auto simp: agent_stamped_def split: tx_op.splits)
  then show ?case
  proof cases
    case 1
    with x Cons.prems Cons.IH [OF _ _ x(2)] show ?thesis
      by (auto simp: reply_times_def split: if_splits)
  next
    case 2
    with x Cons.prems Cons.IH [OF _ _ x(2)] show ?thesis
      by (auto simp: reply_times_def split: list.splits)
  qed
qed

text \<open>
  When the agent stamps its requests itself (the symmetric agent), the \<open>k\<close>-th reply
  on a connection is measured against the send time of the \<open>k\<close>-th request on that connection.
\<close>

theorem replies_get_their_send_times:
  assumes "0 < n" and "n < 2 ^ 31" and "length ops < 2 ^ 32" and "list_all agent_stamped ops"
    and "abs_steps (abs_step n) ops empty_tx_abs = Some (outs, a)"
  shows "\<exists>c. run_steps (ring_step (int n)) ops (init_pending (int n), st, e) = Inr (outs, c) \<and>
    reply_times outs = take (length (reply_times outs)) (sent_times ops)"
proof -
  have "unat (head (init_pending (int n))) + length ops \<le> 2 ^ 32 - 1"
    using assms(3) by (simp add: init_pending_def)
  then obtain c where "run_steps (ring_step (int n)) ops (init_pending (int n), st, e) = Inr (outs, c)"
    using tx.runs [of n "(init_pending (int n), st, e)" ops outs a] init_pending_inv [OF assms(1,2)] assms(5)
    by auto
  moreover have "reply_times outs @ abs_completed a = sent_times ops"
    using abs_steps_fifo [OF assms(4) _ assms(5)] by (simp add: empty_tx_abs_def)
  then have "reply_times outs = take (length (reply_times outs)) (sent_times ops)"
    by (metis append_eq_conv_conj)
  ultimately show ?thesis by blast
qed

theorem replies_get_their_send_times_witness:
  "\<exists>c. run_steps (ring_step (int 1)) [Sent_at (Timespec 5 1), Replied, Sent_at (Timespec 6 2), Replied]
      (init_pending (int 1), init_per_thread_stats, start_env) =
      Inr ([None, Some (Timespec 5 1), None, Some (Timespec 6 2)], c) \<and>
    reply_times [None, Some (Timespec 5 1), None, Some (Timespec 6 2)] = [Timespec 5 1, Timespec 6 2]"
proof -
  let ?ops = "[Sent_at (Timespec 5 1), Replied, Sent_at (Timespec 6 2), Replied]"
  let ?outs = "[None, Some (Timespec 5 1), None, Some (Timespec 6 2)]"
  have "abs_steps (abs_step 1) ?ops empty_tx_abs = Some (?outs, empty_tx_abs)"
    by (simp add: empty_tx_abs_def)
  from replies_get_their_send_times [OF _ _ _ _ this, of init_per_thread_stats start_env] show ?thesis
    by (simp add: agent_stamped_def reply_times_def)
qed

subsection \<open>The 32-bit counters wrap\<close>

text \<open>A ring of two entries that has counted \<open>n\<close> requests and \<open>k\<close> bytes, all matched.\<close>

definition worn_ring :: "u32 \<Rightarrow> u32 \<Rightarrow> pending_tx_timestamps" where
  "worn_ring n k =
     \<lparr>tx_byte_counter = k, head = n, tail = n, consumed = n,
      pending = [\<lparr>time = zero_ts, optid = 0\<rparr>, \<lparr>time = zero_ts, optid = 0\<rparr>]\<rparr>"

text \<open>
  The bound on the number of requests is needed: request number \<open>2 ^ 32\<close> of a connection
  makes \<open>head\<close> wrap below \<open>tail\<close>, and the next look for a transmit time stamp fails its assertion.
\<close>

theorem head_wrap_aborts:
  "bindE (add_pending_tx_timestamp 2 (worn_ring (- 1) 0) 24) (\<lambda>p. get_tx_timestamp 2 q p st e) =
     Inl AssertFail"
  by (subst get_tx_timestamp.simps)
    (simp add: add_pending_tx_timestamp_def worn_ring_def pend_slot_def read_pending_def write_pending_def)

text \<open>
  Byte offsets are compared without regard to their wrapping at \<open>2 ^ 32\<close>: when two
  requests straddle the wrap and the kernel reports one stamp for both, the stamp is taken for an
  old one and dropped, and both requests stay without a time stamp.
\<close>

theorem offset_wrap_drops_stamp:
  "run_steps (ring_step 2) [Sent 16, Sent 32, Stamped (Timespec 9 5) 15] (worn_ring 0 (- 32), st, e) =
     Inl AssertFail \<and>
   (\<exists>p. run_steps (ring_step 2) [Sent 16, Sent 32] (worn_ring 0 (- 32), st, e) = Inr ([None, None], p, st, e) \<and>
      get_tx_timestamp 2 [tx_message (Timespec 9 5) 15] p st e = Inr (0, [], p, st, e))"
  by (simp add: add_pending_tx_timestamp_def worn_ring_def pend_slot_def read_pending_def
      write_pending_def tx_message_def get_tx_timestamp.simps)

end
