(* ===== verification/Event_Loop.thy ===== *)
theory Event_Loop
  imports Timestamping
begin

section \<open>What the transports' event loops share\<close>

text \<open>
  Every \<open>tp_main\<close> function is a loop that sends requests when their time has come and polls for
  responses. This theory holds the part of a thread's state that all transports have, the points
  of the loops, the answers of the operating system that are the input of a step, the opening of
  the sockets, the shared statements, and runs of a loop with the schedule of its requests.
\<close>

subsection \<open>System calls\<close>

text \<open>
  What \<open>recv\<close> finds: an error, nothing to read, or the bytes available, of which it takes as
  many as the buffer has room for; no bytes (a closed connection, or a full buffer) is 0.
\<close>

datatype recv_ret = Recv_error | Recv_block | Recv bytes

text \<open>
  What a \<open>writev\<close> or \<open>sendmsg\<close> returns: an error, a socket that would block, or that it took
  (at most) some number of bytes. What it took is put on the wire.
\<close>

datatype write_ret = Wr_error | Wr_block | Wr nat

definition iovs_bytes :: "iovec list \<Rightarrow> nat \<Rightarrow> nat \<Rightarrow> bytes" where
  "iovs_bytes vs start cnt = concat (map iov_data (take cnt (drop start vs)))"

subsection \<open>State, inputs and outputs\<close>

text \<open>
  \<open>next_tx\<close> is a local of the loop, \<open>stats\<close> and \<open>renv\<close> are the thread's statistics and random
  state, \<open>to_send\<close> is the thread's request buffer, and \<open>rx_timestamp\<close> is the local of the loops with
  hardware time stamps, \<open>None\<close> before it was first written.
\<close>

record loop_thread =
  next_tx :: int
  stats :: thread_stats
  renv :: rand_env
  to_send :: request
  rx_timestamp :: "timestamp_info option"

record epoll_event =
  ev_conn :: nat
  ev_in :: bool
  ev_err :: bool

text \<open>
  The points of the loops: the head, the test for sending, the polling, the events not yet
  handled, the blocking receive of the latency agent (with the connection and the send time), and
  the end of the function.
\<close>

datatype loop_point =
    At_head
  | At_send
  | At_poll
  | At_events "epoll_event list"
  | At_recv nat int
  | Returned

text \<open>
  The answers from outside that a step can ask for: the control block, \<open>time_ns()\<close> (and a second
  reading), \<open>time_ns_to_ts()\<close>, the results of the writes, the polled events, the result of the
  read, its control messages, and the messages of the socket's error queue.
\<close>

record os_answers =
  acb :: agent_control_block
  now :: int
  later :: int
  clock :: timespec
  writes :: "write_ret list"
  polled :: "epoll_event list"
  received :: recv_ret
  controls :: "cmsg list"
  errqueue :: "recvmsg_ret list"

text \<open>What a step did to a connection.\<close>

datatype observation =
    Request_sent nat bytes int
  | Responses nat byte_req_pair
  | Connection_closed nat

type_synonym 't loop_result = "(observation list \<times> loop_point \<times> 't) result"

subsection \<open>Opening sockets\<close>

text \<open>
  The system calls made for a connection, in order; each can fail. A failing call makes the
  function return -1, except \<open>SO_LINGER\<close>, which exits. \<open>sockets i\<close> is the descriptor of connection
  \<open>i\<close> and the first call that fails for it, if any.
\<close>

datatype setup_call =
    Socket | Connect | Set_nonblocking | Set_sndbuf | Set_rcvbuf | Bind_to_device
  | Enable_timestamping | Set_nodelay | Set_linger | Set_busy_poll | Set_rcvtimeo | Tls_handshake | Epoll_add

type_synonym socket_answers = "nat \<Rightarrow> u32 \<times> setup_call option"

text \<open>\<open>targets[i % get_target_count()]\<close>.\<close>

definition connection_target :: "agent_config \<Rightarrow> nat \<Rightarrow> host_tuple result" where
  "connection_target cfg i =
     (if target_count cfg = 0 then Inl DivByZero
      else let k = nat (int i mod \<bar>target_count cfg\<bar>) in
        if k < length (targets cfg) then Inr (targets cfg ! k) else Inl OutOfBounds)"

text \<open>
  The loop over the connections \<open>i\<close>, \<open>i + 1\<close>, ...: the hosts connected to, and the connections,
  or \<open>None\<close> when a call failed. The target is looked up just before \<open>connect\<close>. \<open>mk_conn\<close> fills the
  structure of a connection.
\<close>

fun open_sockets ::
  "agent_config \<Rightarrow> setup_call list \<Rightarrow> (u32 \<Rightarrow> nat \<Rightarrow> 'c) \<Rightarrow> socket_answers \<Rightarrow> nat \<Rightarrow> nat \<Rightarrow>
   (host_tuple list \<times> 'c list option) result" where
  "open_sockets cfg calls mk_conn sockets i 0 = Inr ([], Some [])"
| "open_sockets cfg calls mk_conn sockets i (Suc n) =
     (let (sock, failing) = sockets i in
      if failing = Some Socket \<or> (\<exists>c \<in> set (takeWhile (\<lambda>c. c \<noteq> Connect) calls). failing = Some c)
      then Inr ([], None)
      else bindE (connection_target cfg i) (\<lambda>dest.
        if failing = Some Set_linger \<and> Set_linger \<in> set calls then Inl ExitFail
        else if \<exists>c \<in> set calls. failing = Some c then Inr ([dest], None)
        else bindE (open_sockets cfg calls mk_conn sockets (Suc i) n) (\<lambda>(dests, conns).
          Inr (dest # dests, map_option (\<lambda>cs. mk_conn sock i # cs) conns))))"

text \<open>What \<open>open_sockets\<close> returns is one filled structure for every connection asked for.\<close>

lemma open_sockets_made:
  "open_sockets cfg calls mk answers i n = Inr (dests, Some cs) \<Longrightarrow>
   length cs = n \<and> (\<forall>k < n. cs ! k = mk (fst (answers (i + k))) (i + k))"
proof (induction n arbitrary: i dests cs)
  case (Suc n)
  then obtain ds cs' where "open_sockets cfg calls mk answers (Suc i) n = Inr (ds, Some cs')"
    and cs: "cs = mk (fst (answers i)) i # cs'"
    by (auto simp: Let_def result_iffs split: prod.splits if_splits)
  from Suc.IH [OF this(1)] cs show ?case by (auto simp: nth_Cons split: nat.splits)
qed simp

subsection \<open>Shared statements\<close>

text \<open>\<open>if (!should_load()) { next_tx = time_ns(); continue; }\<close>\<close>

definition loop_head :: "'o os_answers_scheme \<Rightarrow> 't loop_thread_scheme \<Rightarrow> 't loop_thread_scheme loop_result" where
  "loop_head os t =
     (if \<not> should_load (acb os) then Inr ([], At_head, t\<lparr>next_tx := now os\<rparr>)
      else Inr ([], At_send, t))"

definition take_request :: "agent_config \<Rightarrow> 't loop_thread_scheme \<Rightarrow> (request \<times> 't loop_thread_scheme) result" where
  "take_request cfg t =
     bindE (prepare_request cfg (renv t) (to_send t)) (\<lambda>(r, e). Inr (r, t\<lparr>to_send := r, renv := e\<rparr>))"

text \<open>The bookkeeping of a sent request and the schedule of the next one.\<close>

definition book_sent ::
  "'o os_answers_scheme \<Rightarrow> int \<Rightarrow> 't loop_thread_scheme \<Rightarrow> 't loop_thread_scheme result" where
  "book_sent os n t =
     (let t = t\<lparr>stats := add_throughput_tx_sample (acb os) (BRP (of_int n) 1) (stats t)\<rparr> in
      bindE (get_ia (acb os) (renv t)) (\<lambda>(ia, e). Inr (t\<lparr>next_tx := next_tx t + ia, renv := e\<rparr>)))"

definition book_received :: "'o os_answers_scheme \<Rightarrow> byte_req_pair \<Rightarrow> 't loop_thread_scheme \<Rightarrow> 't loop_thread_scheme" where
  "book_received os brp t = t\<lparr>stats := add_throughput_rx_sample (acb os) brp (stats t)\<rparr>"

definition sample_tx :: "timespec \<Rightarrow> 't loop_thread_scheme \<Rightarrow> 't loop_thread_scheme" where
  "sample_tx ts t =
     (let (st, e) = add_tx_timestamp ts (renv t) (stats t) in t\<lparr>stats := st, renv := e\<rparr>)"

subsection \<open>Runs of a loop\<close>

text \<open>
  \<open>loop_run step env s tr s'\<close>: from \<open>s\<close> the loop \<open>step\<close> gets to \<open>s'\<close> with the observations \<open>tr\<close> when
  every answer from outside satisfies \<open>env\<close>.
\<close>

inductive loop_run ::
  "('o \<Rightarrow> 's \<Rightarrow> (observation list \<times> 's) result) \<Rightarrow> ('o \<Rightarrow> bool) \<Rightarrow> 's \<Rightarrow> observation list \<Rightarrow> 's \<Rightarrow> bool"
  for step :: "'o \<Rightarrow> 's \<Rightarrow> (observation list \<times> 's) result" and env :: "'o \<Rightarrow> bool" and s :: 's where
  run_start: "loop_run step env s [] s"
| run_step: "loop_run step env s tr s1 \<Longrightarrow> env os \<Longrightarrow> step os s1 = Inr (obs, s2) \<Longrightarrow>
    loop_run step env s (tr @ obs) s2"

inductive_cases loop_runE: "loop_run step env s tr s'"

text \<open>A run of given answers is such a run.\<close>

lemma run_steps_loop_run:
  "run_steps step oss s = Inr (outs, s') \<Longrightarrow> list_all env oss \<Longrightarrow> loop_run step env s0 tr s \<Longrightarrow>
   loop_run step env s0 (tr @ concat outs) s'"
proof (induction oss arbitrary: s tr outs)
  case Nil
  then show ?case by simp
next
  case (Cons os oss)
  from Cons.prems(1) obtain x s1 xs where x: "step os s = Inr (x, s1)"
    "run_steps step oss s1 = Inr (xs, s')" "outs = x # xs"
    by (auto simp: bindE_eq_Inr)
  have "loop_run step env s0 (tr @ x) s1"
    using Cons.prems(2,3) x(1) by (auto intro: run_step)
  from Cons.IH [OF x(2) _ this] Cons.prems(2) x(3) show ?case by simp
qed

lemma run_stepsI:
  "run_steps step oss s = Inr (outs, s') \<Longrightarrow> list_all env oss \<Longrightarrow> loop_run step env s (concat outs) s'"
  using run_steps_loop_run [OF _ _ run_start] by fastforce

text \<open>What every step preserves holds at the end of a run.\<close>

lemma loop_run_invariant:
  assumes "loop_run step env s tr s'" and "I [] s"
    and "\<And>tr s1 os obs s2. I tr s1 \<Longrightarrow> env os \<Longrightarrow> step os s1 = Inr (obs, s2) \<Longrightarrow> I (tr @ obs) s2"
  shows "I tr s'"
  using assms(1) by induction (auto intro: assms(2,3))

subsection \<open>The schedule of the requests\<close>

text \<open>
  A request goes out when its time has come and moves the time of the next one by one
  inter-arrival time; nothing else moves it while the agent is loading.
\<close>

definition schedule_effect ::
  "'o os_answers_scheme \<Rightarrow> observation list \<Rightarrow> 't loop_thread_scheme \<Rightarrow> 't loop_thread_scheme \<Rightarrow> bool" where
  "schedule_effect os obs t t' \<longleftrightarrow>
     (case obs of
        [Request_sent i w s] \<Rightarrow> s = now os \<and> next_tx t \<le> s \<and>
          (\<exists>e ia e'. get_ia (acb os) e = Inr (ia, e') \<and> next_tx t' = next_tx t + ia)
      | _ \<Rightarrow> next_tx t' = next_tx t \<or> \<not> should_load (acb os))"

fun request_times :: "observation list \<Rightarrow> int list" where
  "request_times [] = []"
| "request_times (Request_sent i w s # tr) = s # request_times tr"
| "request_times (_ # tr) = request_times tr"

lemma request_times_append: "request_times (tr @ tr') = request_times tr @ request_times tr'"
  by (induction tr rule: request_times.induct) simp_all

text \<open>The requests of a trace keep to the inter-arrival times \<open>ias\<close> from \<open>s0\<close> on.\<close>

definition on_schedule :: "int \<Rightarrow> int list \<Rightarrow> observation list \<Rightarrow> bool" where
  "on_schedule s0 ias tr \<longleftrightarrow> length ias = length (request_times tr) \<and>
     list_all (\<lambda>k. s0 + sum_list (take k ias) \<le> request_times tr ! k) [0..<length ias]"

lemma on_schedule_send:
  assumes "on_schedule s0 ias tr" and "s0 + sum_list ias \<le> s"
  shows "on_schedule s0 (ias @ [ia]) (tr @ [Request_sent i w s])"
  using assms
  by (auto simp: on_schedule_def request_times_append list_all_iff nth_append less_Suc_eq)

lemma on_schedule_same: "request_times obs = [] \<Longrightarrow> on_schedule s0 ias tr \<Longrightarrow> on_schedule s0 ias (tr @ obs)"
  by (auto simp: on_schedule_def request_times_append)

text \<open>
  A loop whose steps have that effect, whatever transport it is for, sends on schedule: the time
  of the next request is the start time plus the inter-arrival times drawn so far.
\<close>

locale open_loop =
  fixes step :: "'o os_answers_scheme \<Rightarrow> loop_point \<times> 't loop_thread_scheme \<Rightarrow> 't loop_thread_scheme loop_result"
  assumes paced: "step os (pt, t) = Inr (obs, pt', t') \<Longrightarrow> schedule_effect os obs t t' \<and> length obs \<le> 1"
begin

definition keeps_schedule :: "(agent_control_block \<Rightarrow> bool) \<Rightarrow> int \<Rightarrow> observation list \<Rightarrow> 't loop_thread_scheme \<Rightarrow> bool" where
  "keeps_schedule P s0 tr t \<longleftrightarrow> (\<exists>ias. on_schedule s0 ias tr \<and> next_tx t = s0 + sum_list ias \<and>
     (\<forall>ia \<in> set ias. \<exists>a e e'. P a \<and> get_ia a e = Inr (ia, e')))"

lemma keeps_schedule_step:
  assumes "keeps_schedule P s0 tr t" and "should_load (acb os)" and "P (acb os)"
    and "step os (pt, t) = Inr (obs, pt', t')"
  shows "keeps_schedule P s0 (tr @ obs) t'"
proof -
  from assms(1) obtain ias where ias: "on_schedule s0 ias tr" "next_tx t = s0 + sum_list ias"
    "\<forall>ia \<in> set ias. \<exists>a e e'. P a \<and> get_ia a e = Inr (ia, e')"
    unfolding keeps_schedule_def by blast
  from paced [OF assms(4)] have eff: "schedule_effect os obs t t'" and len: "length obs \<le> 1" by simp_all
  from len consider "obs = []" | x where "obs = [x]" by (cases obs) auto
  then consider "request_times obs = []" "next_tx t' = next_tx t"
    | i w s ia e e' where "obs = [Request_sent i w s]" "next_tx t \<le> s"
      "get_ia (acb os) e = Inr (ia, e')" "next_tx t' = next_tx t + ia"
    using eff assms(2) by cases (auto simp: schedule_effect_def split: observation.splits)
  then show ?thesis
  proof cases
    case 1
    with ias show ?thesis by (auto simp: keeps_schedule_def intro: on_schedule_same)
  next
    case 2
    with ias on_schedule_send [OF ias(1), of s ia i w] assms(3) show ?thesis
      unfolding keeps_schedule_def by (intro exI [of _ "ias @ [ia]"]) auto
  qed
qed

lemma schedule:
  assumes "loop_run step (\<lambda>os. should_load (acb os) \<and> P (acb os)) (pt0, t0) tr (pt, t)"
  shows "\<exists>ias. on_schedule (next_tx t0) ias tr \<and> next_tx t = next_tx t0 + sum_list ias \<and>
    (\<forall>ia \<in> set ias. \<exists>a e e'. P a \<and> get_ia a e = Inr (ia, e'))"
proof -
  have "keeps_schedule P (next_tx t0) tr (snd (pt, t))"
  proof (rule loop_run_invariant [OF assms])
    show "keeps_schedule P (next_tx t0) [] (snd (pt0, t0))"
      unfolding keeps_schedule_def by (intro exI [of _ "[]"]) (simp add: on_schedule_def)
  next
    fix tr s1 os obs s2
    assume "keeps_schedule P (next_tx t0) tr (snd s1)" "should_load (acb os) \<and> P (acb os)"
      "step os s1 = Inr (obs, s2)"
    then show "keeps_schedule P (next_tx t0) (tr @ obs) (snd s2)"
      using keeps_schedule_step [of P "next_tx t0" tr "snd s1" os "fst s1" obs "fst s2" "snd s2"] by simp
  qed
  then show ?thesis by (simp add: keeps_schedule_def)
qed

end

text \<open>The shared statements and the schedule.\<close>

lemma loop_head_schedule: "loop_head os t = Inr (obs, pt, t') \<Longrightarrow> schedule_effect os obs t t' \<and> obs = []"
  by (auto simp: loop_head_def schedule_effect_def split: if_splits)

lemma take_request_next_tx: "take_request cfg t = Inr (r, t') \<Longrightarrow> next_tx t' = next_tx t"
  by (auto simp: take_request_def bindE_eq_Inr)

lemma book_sent_next_tx:
  "book_sent os n t = Inr t' \<Longrightarrow> \<exists>ia e. get_ia (acb os) (renv t) = Inr (ia, e) \<and> next_tx t' = next_tx t + ia"
  by (auto simp: book_sent_def Let_def bindE_eq_Inr)

lemma schedule_sent:
  "book_sent os n t1 = Inr t' \<Longrightarrow> next_tx t1 = next_tx t \<Longrightarrow> next_tx t \<le> now os \<Longrightarrow>
   schedule_effect os [Request_sent i w (now os)] t t'"
  using book_sent_next_tx [of os n t1 t'] by (auto simp: schedule_effect_def)

lemma schedule_quiet:
  "next_tx t' = next_tx t \<Longrightarrow> request_times obs = [] \<Longrightarrow> schedule_effect os obs t t'"
  by (auto simp: schedule_effect_def split: list.splits observation.splits)

lemma book_received_next_tx [simp]: "next_tx (book_received os brp t) = next_tx t"
  by (simp add: book_received_def)

lemma sample_tx_next_tx [simp]: "next_tx (sample_tx ts t) = next_tx t"
  by (simp add: sample_tx_def split: prod.split)

end
