(* ===== verification/Example_Agent.thy ===== *)
theory Example_Agent
  imports Event_Loop Simple_Protocols
begin

section \<open>A small agent\<close>

text \<open>
  A concrete configuration, control block and answers of the operating system, on which the
  properties of the transports are exercised.
\<close>

definition silent_proto :: application_protocol where
  "silent_proto = \<lparr>proto_type = PROTO_ECHO, create_request_fn = (\<lambda>e req. Inr (req, e)),
     consume_response_fn = None\<rparr>"

definition some_config :: "application_protocol \<Rightarrow> int \<Rightarrow> int \<Rightarrow> int \<Rightarrow> agent_config" where
  "some_config proto threads conns reqs =
     \<lparr>thread_count = threads, conn_count = conns, targets = [\<lparr>ip = 0, port = 0\<rparr>], target_count = 1,
      atype = SYMMETRIC_AGENT, tp_type = TCP, idist = fresh_gen, app_proto = proto, if_name = '''',
      per_conn_reqs = reqs\<rparr>"

lemma some_config_per_thread:
  "conn_per_thread (some_config proto 1 2 4) = Inr (int 2)"
  by (simp add: some_config_def conn_per_thread_def)

text \<open>One connection, one-byte echo messages, a request every ten microseconds.\<close>

definition echo1_proto :: application_protocol where
  "echo1_proto = \<lparr>proto_type = PROTO_ECHO, create_request_fn = echo_create_request (mk_iov ''#'' 1),
     consume_response_fn = Some (echo_consume_response (mk_iov ''#'' 1))\<rparr>"

definition echo1_config :: agent_config where
  "echo1_config = some_config echo1_proto 1 1 1"

definition echo1_acb :: agent_control_block where
  "echo1_acb = (measuring 1)\<lparr>acb_idist := fresh_gen\<lparr>inv_cdf_ptr := Some Fixed_inv_cdf, par_a := 10\<rparr>\<rparr>"

definition echo1_os :: "int \<Rightarrow> write_ret list \<Rightarrow> recv_ret \<Rightarrow> timespec \<Rightarrow> os_answers" where
  "echo1_os s ws r c = \<lparr>acb = echo1_acb, now = s, later = s, clock = c, writes = ws,
     polled = [\<lparr>ev_conn = 0, ev_in = True, ev_err = False\<rparr>], received = r, controls = [], errqueue = []\<rparr>"

lemma echo1_ia: "get_ia echo1_acb e = Inr (10000, snd (env_drand48 e))"
  by (simp add: get_ia_def echo1_acb_def generate_def inv_cdf_def fixed_inv_cdf_def fresh_gen_def lround_def
      split: prod.splits)

lemma echo1_load: "should_load echo1_acb"
  by (simp add: echo1_acb_def measuring_def should_load_def)

end
