(* ===== verification/Tcp_Connection.thy ===== *)
theory Tcp_Connection
  imports Example_Agent
begin

section \<open>TCP connections (\<open>agents/tp_tcp.c\<close>, \<open>inc/lancet/tp_proto.h\<close>)\<close>

text \<open>
  One connection of an agent thread: the choice of a connection, the buffer of received bytes and
  \<open>handle_response\<close>, and the two loops that write a request. Reading is shown to count exactly
  the responses in the byte stream however the stream is cut into reads; writing to put exactly
  the request's bytes on the wire however the kernel cuts the writes.
\<close>

abbreviation MAX_PAYLOAD :: nat where "MAX_PAYLOAD \<equiv> 16384"

record tcp_connection =
  fd :: u32
  idx :: u16
  closed :: u16
  pending_reqs :: u16
  buffer_idx :: u16
  buffer :: bytes

text \<open>What \<open>calloc\<close> and the loop of \<open>throughput_open_connections\<close> leave in connection \<open>i\<close>.\<close>

definition open_connection :: "u32 \<Rightarrow> nat \<Rightarrow> tcp_connection" where
  "open_connection sock i =
     \<lparr>fd = sock, idx = of_nat i, closed = 0, pending_reqs = 0, buffer_idx = 0,
      buffer = replicate MAX_PAYLOAD NUL\<rparr>"

subsection \<open>Choosing a connection\<close>

text \<open>The index is a \<open>uint32_t\<close> modulo an \<open>int\<close>; \<open>None\<close> is the null pointer.\<close>

definition pick_conn ::
  "agent_config \<Rightarrow> u32 \<Rightarrow> tcp_connection list \<Rightarrow> (nat option \<times> u32) result" where
  "pick_conn cfg conn_idx connections =
     bindE (conn_per_thread cfg) (\<lambda>n.
       if (of_int n :: u32) = 0 then Inl DivByZero
       else
         let i = unat (conn_idx mod of_int n) in
         if length connections \<le> i then Inl OutOfBounds
         else
           let c = connections ! i in
           Inr (if uint (pending_reqs c) < get_max_pending_reqs cfg \<and> closed c = 0 then Some i else None,
                conn_idx + 1))"

subsection \<open>Receiving\<close>

definition handle_response ::
  "agent_config \<Rightarrow> tcp_connection \<Rightarrow> (tcp_connection \<times> byte_req_pair) result" where
  "handle_response cfg conn =
     bindE (process_response cfg (buffer conn) (uint (buffer_idx conn))) (\<lambda>brp.
     let have_bytes = unat (buffer_idx conn); brp_b = unat (brp_bytes brp) in
     if brp_b = 0 then
       bindE (assertE (brp_reqs brp = 0)) (\<lambda>_.
       bindE (assertE (have_bytes \<noteq> MAX_PAYLOAD)) (\<lambda>_. Inr (conn, brp)))
     else if brp_b = have_bytes then
       bindE (assertE (0 < brp_reqs brp)) (\<lambda>_. Inr (conn\<lparr>buffer_idx := 0\<rparr>, brp))
     else if brp_b < have_bytes then
       let leftover = have_bytes - brp_b in
       bindE (assertE (leftover < MAX_PAYLOAD)) (\<lambda>_.
       if length (buffer conn) < have_bytes then Inl OutOfBounds
       else
         let conn = conn\<lparr>buffer := take leftover (drop brp_b (buffer conn)) @ drop leftover (buffer conn),
                         buffer_idx := of_nat leftover\<rparr> in
         bindE (assertE (0 < brp_reqs brp)) (\<lambda>_. Inr (conn, brp)))
     else Inl AssertFail)"

datatype rx_outcome =
    Rx_return
  | Rx_closed tcp_connection
  | Rx_data tcp_connection byte_req_pair

text \<open>
  The receive path all event loops share. A \<open>recv\<close> that would block returns -1, which is not an
  error here and is added to the 16-bit \<open>buffer_idx\<close>; with \<open>buffer_idx\<close> beyond the end of the
  buffer the size given to \<open>recv\<close> is negative and becomes a huge \<open>size_t\<close>.
\<close>

definition tcp_receive :: "agent_config \<Rightarrow> tcp_connection \<Rightarrow> recv_ret \<Rightarrow> rx_outcome result" where
  "tcp_receive cfg conn r =
     (case r of
        Recv_error \<Rightarrow> Inr Rx_return
      | Recv_block \<Rightarrow>
          bindE (handle_response cfg (conn\<lparr>buffer_idx := buffer_idx conn - 1\<rparr>)) (\<lambda>(conn, brp).
            Inr (Rx_data conn brp))
      | Recv avail \<Rightarrow>
          let off = unat (buffer_idx conn);
              data = take (size_of_int (int MAX_PAYLOAD - int off)) avail in
          if data = [] then Inr (Rx_closed (conn\<lparr>closed := 1\<rparr>))
          else if length (buffer conn) < off + length data then Inl OutOfBounds
          else
            let conn = conn\<lparr>buffer := take off (buffer conn) @ data @ drop (off + length data) (buffer conn),
                            buffer_idx := buffer_idx conn + of_nat (length data)\<rparr> in
            bindE (handle_response cfg conn) (\<lambda>(conn, brp). Inr (Rx_data conn brp)))"

lemma room_eq: "off \<le> MAX_PAYLOAD \<Longrightarrow> size_of_int (int MAX_PAYLOAD - int off) = MAX_PAYLOAD - off"
  by (simp add: size_of_int_nat nat_diff_distrib)

text \<open>The bytes received and not yet consumed; the invariant between two reads.\<close>

definition conn_data :: "tcp_connection \<Rightarrow> bytes" where
  "conn_data conn = take (unat (buffer_idx conn)) (buffer conn)"

definition conn_inv :: "tcp_connection \<Rightarrow> bool" where
  "conn_inv conn \<longleftrightarrow> length (buffer conn) = MAX_PAYLOAD \<and> unat (buffer_idx conn) < MAX_PAYLOAD"

lemma open_connection_inv: "conn_inv (open_connection sock i)"
  by (simp add: conn_inv_def open_connection_def)

lemma length_conn_data:
  "length (buffer conn) = MAX_PAYLOAD \<Longrightarrow> unat (buffer_idx conn) \<le> MAX_PAYLOAD \<Longrightarrow>
   length (conn_data conn) = unat (buffer_idx conn)"
  by (simp add: conn_data_def)

lemma size_of_int_uint: "size_of_int (uint (x :: u16)) = unat x"
proof -
  have "unat x < 2 ^ LENGTH(16)" by (rule unsigned_less)
  then have "unat x < 2 ^ 64" by simp
  then have "size_of_int (int (unat x)) = unat x" by (rule size_of_int_of_nat)
  then show ?thesis by simp
qed

subsection \<open>What a read needs from the protocol\<close>

text \<open>
  A report of \<open>b\<close> bytes in \<open>r\<close> responses for the buffered bytes that \<open>handle_response\<close> accepts: not
  more than was received, no bytes without a response, and room left for more.
\<close>

definition report_ok :: "agent_config \<Rightarrow> tcp_connection \<Rightarrow> nat \<Rightarrow> nat \<Rightarrow> bool" where
  "report_ok cfg conn b r \<longleftrightarrow>
     process_response cfg (buffer conn) (uint (buffer_idx conn)) = Inr (to_brp (b, r)) \<and>
     b \<le> unat (buffer_idx conn) \<and> r \<le> b \<and> (b = 0 \<longleftrightarrow> r = 0) \<and> unat (buffer_idx conn) < MAX_PAYLOAD + b"

lemma handle_response_ok:
  assumes "length (buffer conn) = MAX_PAYLOAD" and "unat (buffer_idx conn) \<le> MAX_PAYLOAD"
    and "report_ok cfg conn b r"
  shows "\<exists>conn'. handle_response cfg conn = Inr (conn', to_brp (b, r)) \<and> conn_inv conn' \<and>
    conn_data conn' = drop b (conn_data conn) \<and> pending_reqs conn' = pending_reqs conn \<and>
    idx conn' = idx conn \<and> fd conn' = fd conn \<and> closed conn' = closed conn"
proof -
  let ?n = "unat (buffer_idx conn)"
  have len: "length (conn_data conn) = ?n" using assms(1,2) by (rule length_conn_data)
  have b: "b \<le> ?n" and r: "r \<le> b" and z: "b = 0 \<longleftrightarrow> r = 0" and room: "?n < MAX_PAYLOAD + b"
    and p: "process_response cfg (buffer conn) (uint (buffer_idx conn)) = Inr (to_brp (b, r))"
    using assms(3) by (simp_all add: report_ok_def)
  have ub: "unat (of_nat b :: u64) = b" "unat (of_nat r :: u64) = r"
    using b r assms(2) by (simp_all add: unat_of_nat_id)
  have rz: "(of_nat r :: u64) = 0 \<longleftrightarrow> r = 0"
    using unat_eq_zero [of "of_nat r :: u64"] unfolding ub(2) by simp
  have rp: "0 < (of_nat r :: u64) \<longleftrightarrow> r \<noteq> 0" unfolding word_gt_0 using rz by auto
  consider "b = 0" | "b \<noteq> 0" "b = ?n" | "b \<noteq> 0" "b < ?n" using b by linarith
  then show ?thesis
  proof cases
    case 1
    then have "handle_response cfg conn = Inr (conn, to_brp (b, r))"
      using p z rz ub room by (simp add: handle_response_def to_brp_def)
    with 1 assms(1) room show ?thesis by (intro exI [of _ conn]) (simp add: conn_inv_def)
  next
    case 2
    then have "handle_response cfg conn = Inr (conn\<lparr>buffer_idx := 0\<rparr>, to_brp (b, r))"
      using p z rp ub by (simp add: handle_response_def to_brp_def)
    with 2 assms(1) len show ?thesis
      by (intro exI [of _ "conn\<lparr>buffer_idx := 0\<rparr>"]) (simp add: conn_inv_def conn_data_def)
  next
    case 3
    define k where "k = ?n - b"
    let ?conn = "conn\<lparr>buffer := take k (drop b (buffer conn)) @ drop k (buffer conn), buffer_idx := of_nat k\<rparr>"
    have k1: "k < MAX_PAYLOAD" "k + b = ?n"
      using 3 assms(2) by (simp_all add: k_def)
    then have k: "k < MAX_PAYLOAD" "unat (of_nat k :: u16) = k" "k + b = ?n"
      by (simp_all add: unat_of_nat_id)
    have "handle_response cfg conn = Inr (?conn, to_brp (b, r))"
      using 3 p z rp ub k(1) assms(1,2) by (simp add: handle_response_def to_brp_def Let_def k_def [symmetric])
    moreover have "conn_inv ?conn"
      using k assms(1,2) by (simp add: conn_inv_def)
    moreover have "conn_data ?conn = drop b (conn_data conn)"
      using k assms(1,2) by (simp add: conn_data_def drop_take k_def [symmetric])
    ultimately show ?thesis by (intro exI [of _ ?conn]) simp
  qed
qed

text \<open>The connection with the bytes a read takes appended to its buffer.\<close>

definition with_data :: "tcp_connection \<Rightarrow> bytes \<Rightarrow> tcp_connection" where
  "with_data conn data =
     (let off = unat (buffer_idx conn) in
      conn\<lparr>buffer := take off (buffer conn) @ data @ drop (off + length data) (buffer conn),
           buffer_idx := buffer_idx conn + of_nat (length data)\<rparr>)"

lemma with_data_sel [simp]:
  "pending_reqs (with_data conn data) = pending_reqs conn" "idx (with_data conn data) = idx conn"
  "fd (with_data conn data) = fd conn" "closed (with_data conn data) = closed conn"
  by (simp_all add: with_data_def Let_def)

lemma with_data_facts:
  assumes "conn_inv conn" and "length data \<le> MAX_PAYLOAD - unat (buffer_idx conn)"
  shows "length (buffer (with_data conn data)) = MAX_PAYLOAD"
    and "unat (buffer_idx (with_data conn data)) = unat (buffer_idx conn) + length data"
    and "conn_data (with_data conn data) = conn_data conn @ data"
proof -
  have len: "length (buffer conn) = MAX_PAYLOAD" "unat (buffer_idx conn) < MAX_PAYLOAD"
    using assms(1) by (simp_all add: conn_inv_def)
  have "unat (of_nat (length data) :: u16) = length data"
    using assms(2) by (intro unat_of_nat_id) simp
  then show i: "unat (buffer_idx (with_data conn data)) = unat (buffer_idx conn) + length data"
    using len(2) assms(2) by (simp add: with_data_def Let_def unat_add_nowrap)
  show "length (buffer (with_data conn data)) = MAX_PAYLOAD"
    using len assms(2) by (simp add: with_data_def Let_def)
  show "conn_data (with_data conn data) = conn_data conn @ data"
    unfolding conn_data_def [of "with_data conn data"] i
    using len assms(2) by (simp add: with_data_def Let_def conn_data_def)
qed

lemma tcp_receive_ok:
  assumes "conn_inv conn" and "avail \<noteq> []" and "data = take (MAX_PAYLOAD - unat (buffer_idx conn)) avail"
    and "report_ok cfg (with_data conn data) b r"
  shows "\<exists>conn'. tcp_receive cfg conn (Recv avail) = Inr (Rx_data conn' (to_brp (b, r))) \<and> conn_inv conn' \<and>
    conn_data conn' = drop b (conn_data conn @ data) \<and> pending_reqs conn' = pending_reqs conn \<and>
    idx conn' = idx conn \<and> fd conn' = fd conn \<and> closed conn' = closed conn"
proof -
  let ?off = "unat (buffer_idx conn)"
  have len: "length (buffer conn) = MAX_PAYLOAD" "?off < MAX_PAYLOAD"
    using assms(1) by (simp_all add: conn_inv_def)
  have d: "data \<noteq> []" "length data \<le> MAX_PAYLOAD - ?off"
    using assms(2,3) len(2) by auto
  note w = with_data_facts [OF assms(1) d(2)]
  have "unat (buffer_idx (with_data conn data)) \<le> MAX_PAYLOAD" using w(2) d(2) len(2) by simp
  from handle_response_ok [OF w(1) this assms(4)] obtain conn' where
    "handle_response cfg (with_data conn data) = Inr (conn', to_brp (b, r))" "conn_inv conn'"
    "conn_data conn' = drop b (conn_data conn @ data)" "pending_reqs conn' = pending_reqs conn"
    "idx conn' = idx conn" "fd conn' = fd conn" "closed conn' = closed conn"
    unfolding w(3) with_data_sel by blast
  then show ?thesis
    using d len assms(3) room_eq [of ?off] by (simp add: tcp_receive_def with_data_def Let_def)
qed

text \<open>Reads of a byte stream: each takes at most as many bytes as the kernel has at that time.\<close>

fun tcp_reads ::
  "agent_config \<Rightarrow> nat list \<Rightarrow> tcp_connection \<Rightarrow> bytes \<Rightarrow>
   (tcp_connection \<times> bytes \<times> byte_req_pair list) result" where
  "tcp_reads cfg [] conn sock = Inr (conn, sock, [])"
| "tcp_reads cfg (n # ns) conn sock =
     (if sock = [] then tcp_reads cfg ns conn sock
      else bindE (tcp_receive cfg conn (Recv (take (Suc n) sock))) (\<lambda>out.
        case out of
          Rx_data conn' brp \<Rightarrow>
            let got = min (Suc n) (MAX_PAYLOAD - unat (buffer_idx conn)) in
            bindE (tcp_reads cfg ns conn' (drop got sock)) (\<lambda>(conn'', sock', brps).
              Inr (conn'', sock', brp # brps))
        | Rx_closed conn' \<Rightarrow> Inr (conn', sock, [])
        | Rx_return \<Rightarrow> Inr (conn, sock, [])))"

text \<open>
  A connection as the client of a response protocol: everything below rests on the protocol's
  laws only, and holds for every protocol that keeps them.
\<close>

locale buffered_protocol = response_protocol frame consume valid
  for frame :: "bytes \<Rightarrow> nat" and consume :: "iovec \<Rightarrow> byte_req_pair result" and valid :: "bytes \<Rightarrow> bool"
begin

text \<open>
  The messages of a stream, each small enough for the buffer, and what is left of the stream
  once the complete messages of a prefix are cut off: a proper part of the next message.
\<close>

definition small_messages :: "bytes list \<Rightarrow> bool" where
  "small_messages ms \<longleftrightarrow> (\<forall>m \<in> set ms. m \<noteq> [] \<and> frame m = length m \<and> length m \<le> MAX_PAYLOAD)"

lemma frame_part:
  assumes "frame m = length m" and "part @ rest = m" and "rest \<noteq> []"
  shows "frame part = 0"
proof (rule ccontr)
  assume f: "frame part \<noteq> 0"
  then have "frame part = length m" using frame_ext [OF f, of rest] assms(1,2) by simp
  with frame_le [of part] assms(2,3) show False by auto
qed

lemma prefix_frames:
  "small_messages ms \<Longrightarrow> xs @ ys = concat ms \<Longrightarrow>
   \<exists>k part. k \<le> length ms \<and> xs = concat (take k ms) @ part \<and> length part < MAX_PAYLOAD \<and>
     frames frame xs = (length (concat (take k ms)), k) \<and> (ys = [] \<longrightarrow> k = length ms)"
proof (induction ms arbitrary: xs)
  case Nil
  then show ?case by (simp add: frames_unfold [of "[]"])
next
  case (Cons m ms)
  have m: "m \<noteq> []" "frame m = length m" "length m \<le> MAX_PAYLOAD" and ms: "small_messages ms"
    using Cons.prems(1) by (simp_all add: small_messages_def)
  show ?case
  proof (cases "length m \<le> length xs")
    case True
    then obtain xs' where xs: "xs = m @ xs'"
      using Cons.prems(2) by (metis append_eq_append_conv_if append_take_drop_id concat.simps(2))
    with Cons.prems(2) have "xs' @ ys = concat ms" by simp
    from Cons.IH [OF ms this] obtain k part where k: "k \<le> length ms" "xs' = concat (take k ms) @ part"
      "length part < MAX_PAYLOAD" "frames frame xs' = (length (concat (take k ms)), k)"
      "ys = [] \<longrightarrow> k = length ms" by blast
    have "frames frame xs = (length m + length (concat (take k ms)), Suc k)"
      unfolding xs frames_message [OF m(2,1)] k(4) by simp
    with k xs show ?thesis by (intro exI [of _ "Suc k"] exI [of _ part]) simp
  next
    case False
    then obtain rest where rest: "xs @ rest = m" "rest \<noteq> []"
      using Cons.prems(2) by (metis append_eq_append_conv_if append_take_drop_id concat.simps(2)
          drop_eq_Nil linear)
    then have "frames frame xs = (0, 0)"
      using frame_part [OF m(2) rest] by (subst frames_unfold) simp
    moreover have "ys \<noteq> []" using False Cons.prems(2) by auto
    ultimately show ?thesis
      using False m(3) by (intro exI [of _ 0] exI [of _ xs]) simp
  qed
qed

lemma process_response_frames:
  assumes "consume_response_fn (app_proto cfg) = Some consume"
    and "length (buffer conn) = MAX_PAYLOAD" and "unat (buffer_idx conn) \<le> MAX_PAYLOAD"
    and "valid (conn_data conn)"
  shows "process_response cfg (buffer conn) (uint (buffer_idx conn)) =
    Inr (to_brp (frames frame (conn_data conn)))"
proof -
  let ?v = "mk_iov (buffer conn) (unat (buffer_idx conn))"
  have "consume ?v = Inr (to_brp (frames frame (iov_data ?v)))"
    using assms(2-4) by (intro consume_frames) (simp_all add: conn_data_def)
  then show ?thesis
    using assms(1)
    by (simp add: process_response_def consume_response_def size_of_int_uint conn_data_def)
qed

text \<open>One read: the protocol's frames make a report that is accepted.\<close>

lemma frames_report_ok:
  assumes "consume_response_fn (app_proto cfg) = Some consume"
    and "length (buffer conn) = MAX_PAYLOAD" and "unat (buffer_idx conn) \<le> MAX_PAYLOAD"
    and "valid (conn_data conn)" and "frames frame (conn_data conn) = (b, r)"
    and "length (conn_data conn) < MAX_PAYLOAD + b"
  shows "report_ok cfg conn b r"
  using process_response_frames [OF assms(1-4)] length_conn_data [OF assms(2,3)] assms(5,6)
    frames_bytes_le [of "conn_data conn"] frames_count_le [of "conn_data conn"]
    frames_bytes_0_iff [of "conn_data conn"] frames_count_0_iff [of "conn_data conn"]
  by (simp add: report_ok_def)

lemma tcp_receive_frames:
  assumes "consume_response_fn (app_proto cfg) = Some consume" and "conn_inv conn"
    and "avail \<noteq> []" and "data = take (MAX_PAYLOAD - unat (buffer_idx conn)) avail"
    and "valid (conn_data conn @ data)" and "frames frame (conn_data conn @ data) = (b, r)"
    and "length (conn_data conn @ data) < MAX_PAYLOAD + b"
  shows "\<exists>conn'. tcp_receive cfg conn (Recv avail) = Inr (Rx_data conn' (to_brp (b, r))) \<and> conn_inv conn' \<and>
    conn_data conn' = drop b (conn_data conn @ data) \<and> pending_reqs conn' = pending_reqs conn \<and>
    idx conn' = idx conn \<and> fd conn' = fd conn \<and> closed conn' = closed conn"
proof (rule tcp_receive_ok [OF assms(2-4)])
  have d: "length data \<le> MAX_PAYLOAD - unat (buffer_idx conn)" using assms(4) by simp
  note w = with_data_facts [OF assms(2) d]
  have "unat (buffer_idx (with_data conn data)) \<le> MAX_PAYLOAD"
    using w(2) d assms(2) unfolding conn_inv_def by linarith
  with w assms(1,5-7) show "report_ok cfg (with_data conn data) b r"
    by (intro frames_report_ok) simp_all
qed

end

context buffered_protocol
begin

lemma valid_suffix:
  "small_messages ms \<Longrightarrow> valid (concat ms) \<Longrightarrow> valid (concat (drop j ms))"
proof (induction ms arbitrary: j)
  case Nil
  then show ?case by simp
next
  case (Cons m ms)
  have m: "m \<noteq> []" "frame m = length m" and ms: "small_messages ms"
    using Cons.prems(1) by (simp_all add: small_messages_def)
  have "frame (m @ concat ms) = length m"
    using m frame_ext [of m "concat ms"] by simp
  then have "valid (concat ms)"
    using valid_drop [of "m @ concat ms"] Cons.prems(2) m(1) by simp
  with Cons ms show ?case by (cases j) simp_all
qed

text \<open>
  Any sequence of reads of a stream of small messages: what was read is a prefix of the stream,
  the reports add up to the complete messages of that prefix, and the rest of it is buffered.
\<close>

text \<open>One read: it reports the messages that it completes, and what follows them stays in the buffer or the socket.\<close>

lemma tcp_read_frames:
  assumes "consume_response_fn (app_proto cfg) = Some consume" and "small_messages ms" and "valid (concat ms)" and "conn_inv conn"
    and "conn_data conn @ sock = concat ms" and "sock \<noteq> []"
  shows "\<exists>conn' k. tcp_receive cfg conn (Recv (take (Suc n) sock)) = Inr (Rx_data conn' (to_brp (length (concat (take k ms)), k))) \<and>
    conn_inv conn' \<and> k \<le> length ms \<and> frame (conn_data conn') = 0 \<and>
    conn_data conn' @ drop (min (Suc n) (MAX_PAYLOAD - unat (buffer_idx conn))) sock = concat (drop k ms)"
proof -
  let ?off = "unat (buffer_idx conn)"
  let ?got = "min (Suc n) (MAX_PAYLOAD - ?off)"
  let ?data = "take ?got sock"
  have data: "?data = take (MAX_PAYLOAD - ?off) (take (Suc n) sock)" by (simp add: min.commute)
  have split: "(conn_data conn @ ?data) @ drop ?got sock = concat ms" using assms(5) by simp
  from prefix_frames [OF assms(2) split] obtain k part where k: "k \<le> length ms"
    "conn_data conn @ ?data = concat (take k ms) @ part" "length part < MAX_PAYLOAD"
    "frames frame (conn_data conn @ ?data) = (length (concat (take k ms)), k)" by blast
  have v: "valid (conn_data conn @ ?data)"
    using valid_prefix [of "conn_data conn @ ?data" "drop ?got sock"] assms(3) split by simp
  have room: "length (conn_data conn @ ?data) < MAX_PAYLOAD + length (concat (take k ms))" using k(2,3) by simp
  have "take (Suc n) sock \<noteq> []" using assms(6) by simp
  from tcp_receive_frames [OF assms(1,4) this data v k(4) room] obtain conn' where
    c: "tcp_receive cfg conn (Recv (take (Suc n) sock)) = Inr (Rx_data conn' (to_brp (length (concat (take k ms)), k)))"
    "conn_inv conn'" "conn_data conn' = drop (length (concat (take k ms))) (conn_data conn @ ?data)"
    by blast
  have "concat ms = concat (take k ms) @ concat (drop k ms)" by (metis append_take_drop_id concat_append)
  then have "conn_data conn' @ drop ?got sock = concat (drop k ms)" using split k(2) c(3) by simp
  moreover have "frame (conn_data conn') = 0" using frames_rest [of "conn_data conn @ ?data"] by (simp add: c(3) k(4))
  ultimately show ?thesis using c(1,2) k(1) by blast
qed

lemma messages_left:
  assumes "small_messages ms" and "frame (concat ms) = 0"
  shows "ms = []"
proof -
  have "frames frame (concat ms) = (0, 0)" using assms(2) by (subst frames_unfold) simp
  moreover have "frames frame (concat ms) = (length (concat ms), length ms)"
    using assms(1) by (intro frames_messages) (simp add: small_messages_def)
  ultimately show ?thesis by simp
qed

lemma tcp_reads_frames:
  assumes "consume_response_fn (app_proto cfg) = Some consume"
  shows "small_messages ms \<Longrightarrow> valid (concat ms) \<Longrightarrow> conn_inv conn \<Longrightarrow>
    conn_data conn @ sock = concat ms \<Longrightarrow> frame (conn_data conn) = 0 \<Longrightarrow>
    \<exists>conn' sock' brps k. tcp_reads cfg ns conn sock = Inr (conn', sock', brps) \<and> conn_inv conn' \<and>
      k \<le> length ms \<and> conn_data conn' @ sock' = concat (drop k ms) \<and> frame (conn_data conn') = 0 \<and>
      sum_list brps = to_brp (length (concat (take k ms)), k) \<and> (sock' = [] \<longrightarrow> k = length ms)"
proof (induction ns arbitrary: ms conn sock)
  case Nil
  then show ?case
    using messages_left [of ms] by (intro exI [of _ conn] exI [of _ sock] exI [of _ "[]"] exI [of _ 0]) auto
next
  case (Cons n ns)
  show ?case
  proof (cases "sock = []")
    case True
    with Cons.IH [OF Cons.prems] show ?thesis by simp
  next
    case False
    let ?got = "min (Suc n) (MAX_PAYLOAD - unat (buffer_idx conn))"
    from tcp_read_frames [OF assms Cons.prems(1-4) False, of n] obtain conn1 k where
      c: "tcp_receive cfg conn (Recv (take (Suc n) sock)) = Inr (Rx_data conn1 (to_brp (length (concat (take k ms)), k)))"
        "conn_inv conn1" "k \<le> length ms" "frame (conn_data conn1) = 0"
        "conn_data conn1 @ drop ?got sock = concat (drop k ms)" by blast
    have sm: "small_messages (drop k ms)"
      using Cons.prems(1) by (auto simp: small_messages_def dest: in_set_dropD)
    from Cons.IH [OF sm valid_suffix [OF Cons.prems(1,2)] c(2,5,4)] obtain conn' sock' brps k' where
      r: "tcp_reads cfg ns conn1 (drop ?got sock) = Inr (conn', sock', brps)" "conn_inv conn'"
      "k' \<le> length (drop k ms)" "conn_data conn' @ sock' = concat (drop k' (drop k ms))"
      "frame (conn_data conn') = 0"
      "sum_list brps = to_brp (length (concat (take k' (drop k ms))), k')"
      "sock' = [] \<longrightarrow> k' = length (drop k ms)" by blast
    have "tcp_reads cfg (n # ns) conn sock =
        Inr (conn', sock', to_brp (length (concat (take k ms)), k) # brps)"
      using False c(1) r(1) by (simp add: Let_def)
    moreover have "take (k + k') ms = take k ms @ take k' (drop k ms)" by (rule take_add)
    then have "sum_list (to_brp (length (concat (take k ms)), k) # brps) =
        to_brp (length (concat (take (k + k') ms)), k + k')"
      using r(6) by (simp add: to_brp_add)
    ultimately show ?thesis
      using r c(3)
      by (intro exI [of _ conn'] exI [of _ sock'] exI [of _ "to_brp (length (concat (take k ms)), k) # brps"]
          exI [of _ "k + k'"]) (auto simp: add.commute)
  qed
qed

text \<open>
  Reading a whole stream of small messages into a fresh connection counts every message once.
\<close>

lemma tcp_reads_stream:
  assumes "consume_response_fn (app_proto cfg) = Some consume"
    and "small_messages ms" and "valid (concat ms)"
  shows "\<exists>conn' sock' brps k. tcp_reads cfg ns (open_connection s i) (concat ms) = Inr (conn', sock', brps) \<and>
    k \<le> length ms \<and> conn_data conn' @ sock' = concat (drop k ms) \<and>
    sum_list brps = to_brp (length (concat (take k ms)), k) \<and> (sock' = [] \<longrightarrow> k = length ms)"
proof -
  have "conn_data (open_connection s i) = []"
    by (simp add: conn_data_def open_connection_def)
  then show ?thesis
    using tcp_reads_frames [OF assms open_connection_inv, of s i "concat ms" ns]
    by simp blast
qed

end

subsection \<open>Writing a request\<close>

definition trim_iov :: "nat \<Rightarrow> iovec \<Rightarrow> iovec" where
  "trim_iov n v = mk_iov (drop n (iov_base v)) (iov_len v - n)"

text \<open>
  The loop of \<open>throughput_tcp_main\<close> that skips what was written: the index it stops at and the
  vectors, of which the one it stops in is cut.
\<close>

function skip_written :: "nat \<Rightarrow> nat \<Rightarrow> nat \<Rightarrow> iovec list \<Rightarrow> (nat \<times> iovec list) result" where
  "skip_written i stop ret vs =
     (if stop \<le> i then Inr (i, vs)
      else if length vs \<le> i then Inl OutOfBounds
      else if ret < iov_len (vs ! i) then Inr (i, vs[i := trim_iov ret (vs ! i)])
      else skip_written (Suc i) stop (ret - iov_len (vs ! i)) vs)"
  by pat_completeness auto
termination by (relation "measure (\<lambda>(i, stop, ret, vs). stop - i)") auto

declare skip_written.simps [simp del]

text \<open>
  The write loop of \<open>throughput_tcp_main\<close> for the kernel's answers in turn: whether it is still
  waiting, left the function on an error, or is done, then with the last value of \<open>ret\<close>; and the
  bytes put on the wire.
\<close>

datatype send_state = Still_sending | Send_error | Sent_all int

fun throughput_send ::
  "write_ret list \<Rightarrow> nat \<Rightarrow> nat \<Rightarrow> int \<Rightarrow> iovec list \<Rightarrow> bytes \<Rightarrow> (send_state \<times> bytes) result" where
  "throughput_send [] start cnt left vs wire = Inr (Still_sending, wire)"
| "throughput_send (Wr_error # ws) start cnt left vs wire = Inr (Send_error, wire)"
| "throughput_send (Wr_block # ws) start cnt left vs wire =
     throughput_send ws start cnt left vs wire"
| "throughput_send (Wr n # ws) start cnt left vs wire =
     (let took = take n (iovs_bytes vs start cnt); ret = length took; wire = wire @ took in
      if int ret = left then Inr (Sent_all (int ret), wire)
      else bindE (skip_written start (start + cnt) ret vs) (\<lambda>(i, vs).
        throughput_send ws i (cnt - (i - start)) (left - int ret) vs wire))"

text \<open>
  The inner loop of \<open>send_request\<close>; the current vectors are \<open>vs\<close> from \<open>start\<close>. It returns the new
  start and count.
\<close>

function advance_iovs ::
  "nat \<Rightarrow> nat \<Rightarrow> nat \<Rightarrow> nat \<Rightarrow> nat \<Rightarrow> iovec list \<Rightarrow> (nat \<times> nat \<times> iovec list) result" where
  "advance_iovs i cumulative ret start cnt vs =
     (if ret \<le> cumulative then Inr (start, cnt, vs)
      else if cnt \<le> i then Inl AssertFail
      else if length vs \<le> start + i then Inl OutOfBounds
      else
        let v = vs ! (start + i) in
        if ret < cumulative + iov_len v then
          Inr (start + i, cnt - i,
               vs[start + i := mk_iov (drop (ret - cumulative) (iov_base v)) (cumulative + iov_len v - ret)])
        else if cumulative + iov_len v = ret then Inr (start + i + 1, cnt - (i + 1), vs)
        else advance_iovs (Suc i) (cumulative + iov_len v) ret start cnt vs)"
  by pat_completeness auto
termination by (relation "measure (\<lambda>(i, c, ret, start, cnt, vs). cnt - i)") auto

declare advance_iovs.simps [simp del]

text \<open>
  \<open>send_request\<close>. It returns nothing; an error looks to the caller like success. A \<open>ret\<close> of -1 for
  a socket that would block skips the inner loop.
\<close>

fun send_request ::
  "write_ret list \<Rightarrow> nat \<Rightarrow> nat \<Rightarrow> iovec list \<Rightarrow> bytes \<Rightarrow> (send_state \<times> bytes) result" where
  "send_request [] start cnt vs wire = Inr (Still_sending, wire)"
| "send_request (Wr_error # ws) start cnt vs wire = Inr (Send_error, wire)"
| "send_request (Wr_block # ws) start cnt vs wire = send_request ws start cnt vs wire"
| "send_request (Wr n # ws) start cnt vs wire =
     (let took = take n (iovs_bytes vs start cnt); ret = length took; wire = wire @ took;
          total = sum_list (map iov_len (take cnt (drop start vs))) in
      if ret < total then
        bindE (advance_iovs 0 0 ret start cnt vs) (\<lambda>(start, cnt, vs). send_request ws start cnt vs wire)
      else Inr (Sent_all (int ret), wire))"

subsection \<open>The write loops put the request on the wire\<close>

definition window_ok :: "iovec list \<Rightarrow> nat \<Rightarrow> nat \<Rightarrow> bool" where
  "window_ok vs start cnt \<longleftrightarrow> start + cnt \<le> length vs \<and> list_all iov_ok vs"

lemma iovs_bytes_Suc:
  "start < length vs \<Longrightarrow> iovs_bytes vs start (Suc cnt) = iov_data (vs ! start) @ iovs_bytes vs (Suc start) cnt"
  by (simp add: iovs_bytes_def Cons_nth_drop_Suc [symmetric])

lemma iovs_bytes_0 [simp]: "iovs_bytes vs start 0 = []"
  by (simp add: iovs_bytes_def)

lemma iovs_bytes_upd_before:
  "i < start \<Longrightarrow> iovs_bytes (vs[i := v]) start cnt = iovs_bytes vs start cnt"
  by (simp add: iovs_bytes_def drop_update_cancel)

lemma iovs_bytes_sum:
  "window_ok vs start cnt \<Longrightarrow>
   length (iovs_bytes vs start cnt) = sum_list (map iov_len (take cnt (drop start vs)))"
  unfolding iovs_bytes_def window_ok_def
  by (rule length_concat_iov_data) (auto simp: list_all_iff dest: in_set_takeD in_set_dropD)

lemma iov_data_trim: "iov_ok v \<Longrightarrow> n \<le> iov_len v \<Longrightarrow> iov_data (trim_iov n v) = drop n (iov_data v)"
  by (simp add: trim_iov_def iov_data_def drop_take)

lemma iov_ok_trim: "iov_ok v \<Longrightarrow> iov_ok (trim_iov n v)"
  by (auto simp: trim_iov_def iov_ok_def)

lemma list_all_upd: "list_all P xs \<Longrightarrow> P x \<Longrightarrow> list_all P (xs[i := x])"
  by (auto simp: list_all_iff dest!: set_update_subset_insert [THEN subsetD])

lemma iovs_bytes_trim:
  assumes "window_ok vs i (Suc cnt)" and "n \<le> iov_len (vs ! i)"
  shows "iovs_bytes (vs[i := trim_iov n (vs ! i)]) i (Suc cnt) = drop n (iovs_bytes vs i (Suc cnt))"
    and "window_ok (vs[i := trim_iov n (vs ! i)]) i (Suc cnt)"
proof -
  have i: "i < length vs" and ok: "iov_ok (vs ! i)"
    using assms(1) by (simp_all add: window_ok_def list_all_length)
  show "iovs_bytes (vs[i := trim_iov n (vs ! i)]) i (Suc cnt) = drop n (iovs_bytes vs i (Suc cnt))"
    using i ok assms(2) by (simp add: iovs_bytes_Suc iov_data_trim iovs_bytes_upd_before)
  show "window_ok (vs[i := trim_iov n (vs ! i)]) i (Suc cnt)"
    using assms(1) ok by (simp add: window_ok_def list_all_upd iov_ok_trim)
qed

text \<open>Both loops skip exactly \<open>ret\<close> bytes of the window.\<close>

lemma skip_written_drops:
  "window_ok vs i cnt \<Longrightarrow> ret \<le> length (iovs_bytes vs i cnt) \<Longrightarrow>
   \<exists>i' vs'. skip_written i (i + cnt) ret vs = Inr (i', vs') \<and> i \<le> i' \<and> i' \<le> i + cnt \<and>
     window_ok vs' i' (cnt - (i' - i)) \<and>
     iovs_bytes vs' i' (cnt - (i' - i)) = drop ret (iovs_bytes vs i cnt)"
proof (induction cnt arbitrary: i ret)
  case 0
  then show ?case by (subst skip_written.simps) (simp add: iovs_bytes_def)
next
  case (Suc cnt)
  have i: "i < length vs" and ok: "iov_ok (vs ! i)"
    using Suc.prems(1) by (simp_all add: window_ok_def list_all_length)
  show ?case
  proof (cases "ret < iov_len (vs ! i)")
    case True
    then show ?thesis
      using i iovs_bytes_trim [OF Suc.prems(1), of ret] by (subst skip_written.simps) simp
  next
    case False
    let ?r = "ret - iov_len (vs ! i)"
    have w: "window_ok vs (Suc i) cnt" using Suc.prems(1) by (simp add: window_ok_def)
    have b: "iovs_bytes vs i (Suc cnt) = iov_data (vs ! i) @ iovs_bytes vs (Suc i) cnt"
      using i by (rule iovs_bytes_Suc)
    have "?r \<le> length (iovs_bytes vs (Suc i) cnt)"
      using Suc.prems(2) ok by (simp add: b)
    from Suc.IH [OF w this] obtain i' vs' where r: "skip_written (Suc i) (Suc i + cnt) ?r vs = Inr (i', vs')"
      "Suc i \<le> i'" "i' \<le> Suc i + cnt" "window_ok vs' i' (cnt - (i' - Suc i))"
      "iovs_bytes vs' i' (cnt - (i' - Suc i)) = drop ?r (iovs_bytes vs (Suc i) cnt)" by blast
    have "Suc cnt - (i' - i) = cnt - (i' - Suc i)" using r(2) by simp
    moreover have "skip_written i (i + Suc cnt) ret vs = Inr (i', vs')"
      using False i r(1) by (subst skip_written.simps) simp
    ultimately show ?thesis
      using r False ok by (intro exI [of _ i'] exI [of _ vs']) (simp add: b)
  qed
qed

lemma iovs_bytes_add: "iovs_bytes vs start (i + j) = iovs_bytes vs start i @ iovs_bytes vs (start + i) j"
  by (simp add: iovs_bytes_def take_add add.commute)

text \<open>A turn of the loop whose vector ends where the written bytes end, or behind them.\<close>

lemma advance_iovs_last:
  assumes "window_ok vs start cnt" and "i < cnt" and "cumulative = length (iovs_bytes vs start i)" and "cumulative < ret"
    and "ret \<le> cumulative + iov_len (vs ! (start + i))"
  shows "\<exists>start' cnt' vs'. advance_iovs i cumulative ret start cnt vs = Inr (start', cnt', vs') \<and>
    window_ok vs' start' cnt' \<and> iovs_bytes vs' start' cnt' = drop ret (iovs_bytes vs start cnt)"
proof -
  let ?v = "vs ! (start + i)" and ?n = "ret - cumulative"
  have i: "start + i < length vs" and ok: "iov_ok ?v"
    using assms(1,2) by (simp_all add: window_ok_def list_all_length)
  obtain m where m: "cnt = i + Suc m" using assms(2) by (metis less_iff_Suc_add add_Suc_right)
  have w: "window_ok vs (start + i) (Suc m)" using assms(1) m by (simp add: window_ok_def)
  have whole: "iovs_bytes vs start cnt = iovs_bytes vs start i @ iov_data ?v @ iovs_bytes vs (Suc (start + i)) m"
    using i by (simp only: m iovs_bytes_add iovs_bytes_Suc)
  show ?thesis
  proof (cases "cumulative + iov_len ?v = ret")
    case True
    have "advance_iovs i cumulative ret start cnt vs = Inr (start + i + 1, cnt - (i + 1), vs)"
      using True assms(2,4) i by (subst advance_iovs.simps) (simp add: Let_def)
    moreover have "drop ret (iovs_bytes vs start cnt) = iovs_bytes vs (Suc (start + i)) m"
      using assms(3) ok by (simp add: whole flip: True)
    ultimately show ?thesis using w m by (auto simp: window_ok_def)
  next
    case False
    with assms(5) have lt: "ret < cumulative + iov_len ?v" by simp
    have "mk_iov (drop ?n (iov_base ?v)) (cumulative + iov_len ?v - ret) = trim_iov ?n ?v"
      using assms(4) by (simp add: trim_iov_def diff_diff_right)
    then have "advance_iovs i cumulative ret start cnt vs = Inr (start + i, Suc m, vs[start + i := trim_iov ?n ?v])"
      using lt assms(2,4) i m by (subst advance_iovs.simps) (simp add: Let_def)
    moreover have "?n \<le> iov_len ?v" using lt by simp
    note iovs_bytes_trim [OF w this]
    moreover have "drop ret (iovs_bytes vs start cnt) = drop ?n (iovs_bytes vs (start + i) (Suc m))"
      using assms(3,4) unfolding m iovs_bytes_add by simp
    ultimately show ?thesis
      by (intro exI [of _ "start + i"] exI [of _ "Suc m"] exI [of _ "vs[start + i := trim_iov ?n ?v]"]) simp
  qed
qed

lemma advance_iovs_drops:
  "window_ok vs start cnt \<Longrightarrow> i < cnt \<Longrightarrow>
   cumulative = length (iovs_bytes vs start i) \<Longrightarrow> cumulative < ret \<Longrightarrow>
   ret \<le> length (iovs_bytes vs start cnt) \<Longrightarrow>
   \<exists>start' cnt' vs'. advance_iovs i cumulative ret start cnt vs = Inr (start', cnt', vs') \<and>
     window_ok vs' start' cnt' \<and> iovs_bytes vs' start' cnt' = drop ret (iovs_bytes vs start cnt)"
proof (induction "cnt - i" arbitrary: i cumulative)
  case (Suc k)
  let ?v = "vs ! (start + i)"
  have i: "start + i < length vs" and ok: "iov_ok ?v"
    using Suc.prems(1,2) by (simp_all add: window_ok_def list_all_length)
  show ?case
  proof (cases "ret \<le> cumulative + iov_len ?v")
    case True
    from advance_iovs_last [OF Suc.prems(1-4) this] show ?thesis .
  next
    case False
    have "iovs_bytes vs start (Suc i) = iovs_bytes vs start i @ iov_data ?v"
      using iovs_bytes_add [of vs start i "Suc 0"] iovs_bytes_Suc [OF i, of 0] by simp
    then have c: "cumulative + iov_len ?v = length (iovs_bytes vs start (Suc i))" using Suc.prems(3) ok by simp
    have "Suc i < cnt"
    proof (rule ccontr)
      assume "\<not> Suc i < cnt"
      with Suc.prems(2) have "cnt = Suc i" by simp
      with c False Suc.prems(5) show False by simp
    qed
    moreover have "k = cnt - Suc i" using Suc.hyps(2) by simp
    ultimately obtain start' cnt' vs' where
      "advance_iovs (Suc i) (cumulative + iov_len ?v) ret start cnt vs = Inr (start', cnt', vs')"
      "window_ok vs' start' cnt'" "iovs_bytes vs' start' cnt' = drop ret (iovs_bytes vs start cnt)"
      using Suc.hyps(1) [of "Suc i" "cumulative + iov_len ?v"] Suc.prems(1,5) c False by auto
    then show ?thesis
      using False Suc.prems(2,4) i by (subst advance_iovs.simps) (simp add: Let_def)
  qed
qed simp

text \<open>
  The contract of a sender: given the kernel's answers, the bytes on the wire grow by a prefix of
  the window, which is the whole window when the sender reports completion; it fails only on an
  error of the kernel, and it completes once the kernel took enough bytes.
\<close>

definition taken :: "write_ret list \<Rightarrow> nat" where
  "taken ws = (\<Sum>w \<leftarrow> ws. case w of Wr n \<Rightarrow> n | _ \<Rightarrow> 0)"

definition sends_window ::
  "(send_state \<times> bytes) result \<Rightarrow> write_ret list \<Rightarrow> bytes \<Rightarrow> bytes \<Rightarrow> bool" where
  "sends_window out ws wire data \<longleftrightarrow>
     (\<exists>s sent. out = Inr (s, wire @ sent) \<and> sent = take (length sent) data \<and>
       (case s of Sent_all _ \<Rightarrow> sent = data
        | Still_sending \<Rightarrow> length sent = taken ws \<and> taken ws < length data
        | Send_error \<Rightarrow> Wr_error \<in> set ws))"

lemma sends_window_step:
  assumes "sends_window out ws (wire @ take n data) (drop n data)" and "n \<le> length data"
  shows "sends_window out (Wr n # ws) wire data"
proof -
  from assms(1) obtain s sent where s: "out = Inr (s, (wire @ take n data) @ sent)"
    "sent = take (length sent) (drop n data)"
    "case s of Sent_all _ \<Rightarrow> sent = drop n data
     | Still_sending \<Rightarrow> length sent = taken ws \<and> taken ws < length (drop n data)
     | Send_error \<Rightarrow> Wr_error \<in> set ws"
    unfolding sends_window_def by blast
  have "take (n + length sent) data = take n data @ sent"
    using s(2) by (simp add: take_add)
  moreover have "length (take n data @ sent) = n + length sent" using assms(2) by simp
  ultimately show ?thesis
    using s assms(2) unfolding sends_window_def
    by (intro exI [of _ s] exI [of _ "take n data @ sent"])
      (auto simp: taken_def split: send_state.splits)
qed

lemma sends_window_complete:
  "sends_window out ws wire data \<Longrightarrow> length data \<le> taken ws \<Longrightarrow> Wr_error \<notin> set ws \<Longrightarrow>
   \<exists>n. out = Inr (Sent_all n, wire @ data)"
  unfolding sends_window_def by (elim exE conjE, case_tac s) auto

lemma throughput_send_contract:
  "window_ok vs start cnt \<Longrightarrow> left = int (length (iovs_bytes vs start cnt)) \<Longrightarrow> 0 < left \<Longrightarrow>
   sends_window (throughput_send ws start cnt left vs wire) ws wire (iovs_bytes vs start cnt)"
proof (induction ws arbitrary: start cnt left vs wire)
  case Nil
  then show ?case by (auto simp: sends_window_def taken_def)
next
  case (Cons w ws)
  let ?data = "iovs_bytes vs start cnt"
  show ?case
  proof (cases w)
    case Wr_error
    then show ?thesis by (auto simp: sends_window_def)
  next
    case Wr_block
    with Cons.IH [OF Cons.prems, of wire] show ?thesis
      by (auto simp: sends_window_def taken_def split: send_state.splits)
  next
    case (Wr n)
    let ?k = "min n (length ?data)"
    have t: "take n ?data = take ?k ?data" "length (take n ?data) = ?k"
      by (simp_all add: min_def)
    show ?thesis
    proof (cases "?k = length ?data")
      case True
      then have "take n ?data = ?data" by (metis t(1) take_all order_refl)
      then show ?thesis
        using Cons.prems(2) Wr by (auto simp: sends_window_def Let_def)
    next
      case False
      then have n: "n < length ?data" "?k = n" by (auto simp: min_def split: if_splits)
      from skip_written_drops [OF Cons.prems(1), of n] n(1) obtain i' vs' where
        sk: "skip_written start (start + cnt) n vs = Inr (i', vs')" "window_ok vs' i' (cnt - (i' - start))"
        "iovs_bytes vs' i' (cnt - (i' - start)) = drop n ?data" by auto
      have left: "left - int n = int (length (iovs_bytes vs' i' (cnt - (i' - start))))" "0 < left - int n"
        using n(1) Cons.prems(2) by (simp_all add: sk(3) of_nat_diff)
      have "throughput_send (w # ws) start cnt left vs wire =
          throughput_send ws i' (cnt - (i' - start)) (left - int n) vs' (wire @ take n ?data)"
        using Wr n Cons.prems(2) sk(1) by (simp add: Let_def min_def)
      then show ?thesis
        using Cons.IH [OF sk(2) left, of "wire @ take n ?data"] n(1)
        unfolding Wr sk(3) by (simp add: sends_window_step)
    qed
  qed
qed

lemma send_request_contract:
  "window_ok vs start cnt \<Longrightarrow> 0 < length (iovs_bytes vs start cnt) \<Longrightarrow>
   sends_window (send_request ws start cnt vs wire) ws wire (iovs_bytes vs start cnt)"
proof (induction ws arbitrary: start cnt vs wire)
  case Nil
  then show ?case by (auto simp: sends_window_def taken_def)
next
  case (Cons w ws)
  let ?data = "iovs_bytes vs start cnt"
  note total = iovs_bytes_sum [OF Cons.prems(1)]
  show ?case
  proof (cases w)
    case Wr_error
    then show ?thesis by (auto simp: sends_window_def)
  next
    case Wr_block
    with Cons.IH [OF Cons.prems, of wire] show ?thesis
      by (auto simp: sends_window_def taken_def split: send_state.splits)
  next
    case (Wr n)
    show ?thesis
    proof (cases "length ?data \<le> n")
      case True
      then show ?thesis
        using Wr total by (auto simp: sends_window_def)
    next
      case False
      then have n: "n < length ?data" "length (take n ?data) = n" by simp_all
      have cnt: "0 < cnt" using n(1) by (cases cnt) (simp_all add: iovs_bytes_def)
      have "\<exists>start' cnt' vs'. advance_iovs 0 0 n start cnt vs = Inr (start', cnt', vs') \<and>
          window_ok vs' start' cnt' \<and> iovs_bytes vs' start' cnt' = drop n ?data"
      proof (cases "n = 0")
        case True
        then show ?thesis using Cons.prems(1) by (subst advance_iovs.simps) simp
      next
        case False
        then show ?thesis
          using advance_iovs_drops [OF Cons.prems(1) cnt, of 0 n] n(1)
          by (simp add: iovs_bytes_def)
      qed
      then obtain start' cnt' vs' where adv: "advance_iovs 0 0 n start cnt vs = Inr (start', cnt', vs')"
        "window_ok vs' start' cnt'" "iovs_bytes vs' start' cnt' = drop n ?data" by blast
      have "send_request (w # ws) start cnt vs wire = send_request ws start' cnt' vs' (wire @ take n ?data)"
        using Wr n total adv(1) by (simp add: Let_def)
      moreover have "0 < length (iovs_bytes vs' start' cnt')" using n(1) adv(3) by simp
      ultimately show ?thesis
        using Cons.IH [OF adv(2), of "wire @ take n ?data"] n(1)
        unfolding Wr adv(3) by (simp add: sends_window_step)
    qed
  qed
qed

text \<open>
  Property C7. However the kernel cuts the writes of \<open>throughput_tcp_main\<close>, the bytes it puts on the
  wire are a prefix of the request and no write is lost or repeated; when the loop ends the whole
  request was sent, and it ends as soon as the kernel took as many bytes as the request has.
\<close>

theorem throughput_send_delivers:
  assumes "request_ok req" and "0 < bytes_to_send req"
  shows "sends_window (throughput_send ws 0 (iov_cnt req) (int (bytes_to_send req)) (iovs req) wire)
    ws wire (request_payload req)"
proof -
  have w: "window_ok (iovs req) 0 (iov_cnt req)"
    using assms(1) by (simp add: window_ok_def request_ok_def)
  have p: "iovs_bytes (iovs req) 0 (iov_cnt req) = request_payload req"
    by (simp add: iovs_bytes_def request_payload_def)
  show ?thesis
    using throughput_send_contract [OF w, of "int (bytes_to_send req)" ws wire] assms
    by (simp add: p length_request_payload)
qed

text \<open>A request of two vectors of ten bytes.\<close>

definition twenty_bytes :: request where
  "twenty_bytes = \<lparr>meta = 0, iov_cnt = 2,
     iovs = [mk_iov ''0123456789'' 10, mk_iov ''abcdefghij'' 10]\<rparr>"

lemma twenty_bytes_payload:
  "request_payload twenty_bytes = ''0123456789abcdefghij''" "iov_cnt twenty_bytes = 2"
  by (simp_all add: twenty_bytes_def request_payload_def)

lemma twenty_bytes_ok: "request_ok twenty_bytes" "bytes_to_send twenty_bytes = 20"
  by (simp_all add: twenty_bytes_def request_ok_def bytes_to_send_def)

theorem throughput_send_delivers_witness:
  "\<exists>n. throughput_send [Wr 4, Wr_block, Wr 13, Wr 3] 0 2 20 (iovs twenty_bytes) [] =
     Inr (Sent_all n, ''0123456789abcdefghij'')"
proof -
  have "sends_window (throughput_send [Wr 4, Wr_block, Wr 13, Wr 3] 0 (iov_cnt twenty_bytes)
      (int (bytes_to_send twenty_bytes)) (iovs twenty_bytes) []) [Wr 4, Wr_block, Wr 13, Wr 3] []
      (request_payload twenty_bytes)"
    by (rule throughput_send_delivers) (simp_all add: twenty_bytes_ok)
  from sends_window_complete [OF this] show ?thesis
    by (simp add: twenty_bytes_ok twenty_bytes_payload taken_def)
qed

text \<open>
  Property C10. The same holds for \<open>send_request\<close>, the sender of the symmetric agent, though it
  skips what was written with different arithmetic.
\<close>

theorem send_request_delivers:
  assumes "request_ok req" and "0 < bytes_to_send req"
  shows "sends_window (send_request ws 0 (iov_cnt req) (iovs req) wire) ws wire (request_payload req)"
proof -
  have w: "window_ok (iovs req) 0 (iov_cnt req)"
    using assms(1) by (simp add: window_ok_def request_ok_def)
  have p: "iovs_bytes (iovs req) 0 (iov_cnt req) = request_payload req"
    by (simp add: iovs_bytes_def request_payload_def)
  show ?thesis
    using send_request_contract [OF w, of ws wire] assms
    by (simp add: p length_request_payload)
qed

theorem send_request_delivers_witness:
  "\<exists>n. send_request [Wr 10, Wr_block, Wr 4, Wr 100] 0 2 (iovs twenty_bytes) [] =
     Inr (Sent_all n, ''0123456789abcdefghij'')"
proof -
  have "sends_window (send_request [Wr 10, Wr_block, Wr 4, Wr 100] 0 (iov_cnt twenty_bytes)
      (iovs twenty_bytes) []) [Wr 10, Wr_block, Wr 4, Wr 100] [] (request_payload twenty_bytes)"
    by (rule send_request_delivers) (simp_all add: twenty_bytes_ok)
  from sends_window_complete [OF this] show ?thesis
    by (simp add: twenty_bytes_payload taken_def)
qed

lemma throughput_send_last:
  assumes "request_ok req" and "0 < n" and "n < bytes_to_send req"
  shows "throughput_send [Wr n, Wr (bytes_to_send req)] 0 (iov_cnt req) (int (bytes_to_send req)) (iovs req) wire =
    Inr (Sent_all (int (bytes_to_send req - n)), wire @ request_payload req)"
proof -
  let ?data = "request_payload req"
  have w: "window_ok (iovs req) 0 (iov_cnt req)"
    using assms(1) by (simp add: window_ok_def request_ok_def)
  have p: "iovs_bytes (iovs req) 0 (iov_cnt req) = ?data"
    by (simp add: iovs_bytes_def request_payload_def)
  have len: "length ?data = bytes_to_send req" using assms(1) by (rule length_request_payload)
  from skip_written_drops [OF w, of n] assms(3) len obtain i vs where sk:
    "skip_written 0 (0 + iov_cnt req) n (iovs req) = Inr (i, vs)"
    "iovs_bytes vs i (iov_cnt req - (i - 0)) = drop n ?data" by (auto simp: p)
  then show ?thesis
    using assms(3) len by (simp add: p Let_def of_nat_diff)
qed

text \<open>
  What \<open>throughput_tcp_main\<close> records as sent is the last write only: whenever the
  kernel took a request in more than one write, \<open>ret\<close>, and with it the transmit byte counter, is
  short by the bytes of all earlier writes.
\<close>

theorem throughput_send_undercounts:
  assumes "request_ok req" and "0 < n" and "n < bytes_to_send req" and "should_measure a"
  shows "\<exists>ret. throughput_send [Wr n, Wr (bytes_to_send req)] 0 (iov_cnt req) (int (bytes_to_send req))
        (iovs req) [] = Inr (Sent_all ret, request_payload req) \<and>
      th_tx (add_throughput_tx_sample a (BRP (of_int ret) 1) init_per_thread_stats) =
        BRP (of_nat (bytes_to_send req - n)) 1"
  using throughput_send_last [OF assms(1-3), of "[]"] assms(4)
  by (simp add: add_throughput_tx_sample_def init_per_thread_stats_def)

theorem throughput_send_undercounts_witness:
  "\<exists>ret. throughput_send [Wr 4, Wr 20] 0 2 20 (iovs twenty_bytes) [] =
      Inr (Sent_all ret, ''0123456789abcdefghij'') \<and>
    th_tx (add_throughput_tx_sample (measuring 1) (BRP (of_int ret) 1) init_per_thread_stats) = BRP 16 1"
  using throughput_send_undercounts [OF twenty_bytes_ok(1), of 4 "measuring 1"]
  by (simp add: twenty_bytes_ok twenty_bytes_payload)

subsection \<open>The choice of a connection\<close>

definition conn_usable :: "agent_config \<Rightarrow> tcp_connection \<Rightarrow> bool" where
  "conn_usable cfg c \<longleftrightarrow> uint (pending_reqs c) < get_max_pending_reqs cfg \<and> closed c = 0"

lemma pick_conn_eq:
  assumes "conn_per_thread cfg = Inr (int n)" and "0 < n" and "n < 2 ^ 31" and "length connections = n"
  shows "pick_conn cfg k connections =
    Inr (if conn_usable cfg (connections ! (unat k mod n)) then Some (unat k mod n) else None, k + 1)"
proof -
  have u: "unat (of_nat n :: u32) = n" using assms(3) by (simp add: unat_of_nat_id)
  then have "(of_nat n :: u32) \<noteq> 0" using assms(2) by (metis less_irrefl unat_0)
  moreover have "unat k mod n < n" using assms(2) by simp
  ultimately show ?thesis
    using assms(1,4) by (simp add: pick_conn_def conn_usable_def unat_mod u Let_def)
qed

text \<open>
  \<open>pick_conn\<close> offers the connections in turn: among \<open>n\<close> consecutive calls with \<open>n\<close>
  connections each connection is tried exactly once, and it is returned exactly when it is open
  and has fewer requests in flight than the limit.
\<close>

theorem pick_conn_round_robin:
  assumes "conn_per_thread cfg = Inr (int n)" and "0 < n" and "n < 2 ^ 31" and "length connections = n"
    and "unat k + n < 2 ^ 32"
  shows "(\<forall>j < n. pick_conn cfg (k + of_nat j) connections =
      (let i = (unat k + j) mod n in
       Inr (if conn_usable cfg (connections ! i) then Some i else None, k + of_nat j + 1))) \<and>
    bij_betw (\<lambda>j. (unat k + j) mod n) {..<n} {..<n}"
proof
  show "\<forall>j < n. pick_conn cfg (k + of_nat j) connections =
      (let i = (unat k + j) mod n in
       Inr (if conn_usable cfg (connections ! i) then Some i else None, k + of_nat j + 1))"
  proof (intro allI impI)
    fix j assume j: "j < n"
    then have "unat (of_nat j :: u32) = j" using assms(3) by (intro unat_of_nat_id) simp
    then have "unat (k + of_nat j) = unat k + j"
      using j assms(5) by (simp add: unat_add_nowrap)
    then show "pick_conn cfg (k + of_nat j) connections =
      (let i = (unat k + j) mod n in
       Inr (if conn_usable cfg (connections ! i) then Some i else None, k + of_nat j + 1))"
      by (simp only: pick_conn_eq [OF assms(1-4)] Let_def)
  qed
  have "inj_on (\<lambda>j. (unat k + j) mod n) {..<n}"
  proof (rule linorder_inj_onI')
    fix j j' assume "j \<in> {..<n}" "j' \<in> {..<n}" "j < j'"
    then show "(unat k + j) mod n \<noteq> (unat k + j') mod n"
      by (intro mod_slots_distinct) simp_all
  qed
  moreover have "(\<lambda>j. (unat k + j) mod n) ` {..<n} \<subseteq> {..<n}"
    using assms(2) by auto
  ultimately show "bij_betw (\<lambda>j. (unat k + j) mod n) {..<n} {..<n}"
    by (simp add: bij_betw_def endo_inj_surj)
qed

theorem pick_conn_round_robin_witness:
  "pick_conn (some_config silent_proto 1 2 4) (7 + of_nat 1) [open_connection 5 0, open_connection 6 1] =
      Inr (Some 0, 9) \<and>
    bij_betw (\<lambda>j. (unat (7 :: u32) + j) mod 2) {..<2} {..<2}"
proof -
  let ?cs = "[open_connection 5 0, open_connection 6 1]"
  have "(\<forall>j < 2. pick_conn (some_config silent_proto 1 2 4) (7 + of_nat j) ?cs =
      (let i = (unat (7 :: u32) + j) mod 2 in
       Inr (if conn_usable (some_config silent_proto 1 2 4) (?cs ! i) then Some i else None, 7 + of_nat j + 1))) \<and>
    bij_betw (\<lambda>j. (unat (7 :: u32) + j) mod 2) {..<2} {..<2}"
    by (rule pick_conn_round_robin [OF some_config_per_thread]) simp_all
  then show ?thesis
    by (auto simp: conn_usable_def open_connection_def some_config_def get_max_pending_reqs_def
        dest: spec [of _ 1])
qed

text \<open>
  An agent configured with fewer connections than threads dies of a division by zero
  at its first request.
\<close>

theorem pick_conn_needs_connections:
  assumes "0 \<le> conn_count cfg" and "conn_count cfg < thread_count cfg"
  shows "pick_conn cfg k connections = Inl DivByZero"
proof -
  have "conn_per_thread cfg = Inr 0"
    using assms by (simp add: conn_per_thread_pos)
  then show ?thesis by (simp add: pick_conn_def)
qed

theorem pick_conn_needs_connections_witness:
  "pick_conn (some_config silent_proto 4 3 1) 0 [] = Inl DivByZero"
  by (rule pick_conn_needs_connections) (simp_all add: some_config_def)

end
