(* ===== verification/Tcp_Main.thy ===== *)
theory Tcp_Main
  imports Tcp_Connection
begin

section \<open>The event loops of the TCP transport (\<open>agents/tp_tcp.c\<close>)\<close>

text \<open>
  The four \<open>tp_main\<close> functions as step functions of a thread. A configuration is a point of the
  loop and the thread's state; what the operating system, the clocks and the manager answer during
  a step is its input; what the outside sees of it is its output. A step is one pass through the
  code between two points of the loop; a run is a sequence of steps (\<open>run_steps\<close>).
\<close>

subsection \<open>State, inputs and outputs\<close>

record tcp_thread = loop_thread +
  connections :: "tcp_connection list"
  conn_idx :: u32
  per_conn_tx_timestamps :: "pending_tx_timestamps list"

type_synonym tcp_result = "tcp_thread loop_result"

subsection \<open>Opening the connections\<close>

definition throughput_calls :: "agent_config \<Rightarrow> setup_call list" where
  "throughput_calls cfg =
     [Connect, Set_nonblocking, Set_sndbuf, Set_rcvbuf] @
     (if atype cfg = SYMMETRIC_NIC_TIMESTAMP_AGENT then [Bind_to_device, Enable_timestamping] else []) @
     [Set_nodelay, Set_linger, Epoll_add]"

definition latency_calls :: "setup_call list" where
  "latency_calls = [Connect, Set_nodelay, Set_linger, Set_busy_poll]"

text \<open>\<open>calloc\<close> of a negative number of elements fails. The result has the connections and their rings.\<close>

definition throughput_open_connections ::
  "agent_config \<Rightarrow> bool \<Rightarrow> socket_answers \<Rightarrow>
   (host_tuple list \<times> (tcp_connection list \<times> pending_tx_timestamps list) option) result" where
  "throughput_open_connections cfg epoll_ok sockets =
     (if \<not> epoll_ok then Inr ([], None)
      else
        bindE (conn_per_thread cfg) (\<lambda>n.
        bindE (assertE (0 \<le> n)) (\<lambda>_.
        let stamped = atype cfg \<in> {SYMMETRIC_NIC_TIMESTAMP_AGENT, SYMMETRIC_AGENT} in
        bindE (assertE (stamped \<and> 0 < n \<longrightarrow> 0 \<le> get_max_pending_reqs cfg)) (\<lambda>_.
        let rings = if stamped then replicate (nat n) (init_pending (get_max_pending_reqs cfg)) else [] in
        bindE (open_sockets cfg (throughput_calls cfg) open_connection sockets 0 (nat n)) (\<lambda>(dests, conns).
          Inr (dests, map_option (\<lambda>cs. (cs, rings)) conns))))))"

text \<open>The latency agent leaves \<open>idx\<close> as \<open>calloc\<close> made it.\<close>

definition latency_open_connections ::
  "agent_config \<Rightarrow> socket_answers \<Rightarrow> (host_tuple list \<times> tcp_connection list option) result" where
  "latency_open_connections cfg sockets =
     bindE (conn_per_thread cfg) (\<lambda>n.
       open_sockets cfg latency_calls (\<lambda>sock _. open_connection sock 0) sockets 0 (nat n))"

text \<open>
  The state at the head of the loop: of the three asynchronous agents, which return when a
  connection could not be opened (\<open>None\<close>), and of the latency agent, which exits.
\<close>

definition start_thread ::
  "tcp_connection list \<Rightarrow> pending_tx_timestamps list \<Rightarrow> int \<Rightarrow> rand_env \<Rightarrow> tcp_thread" where
  "start_thread conns rings time_ns e =
     \<lparr>next_tx = time_ns, stats = init_per_thread_stats, renv = e, to_send = empty_request, rx_timestamp = None,
      connections = conns, conn_idx = 0, per_conn_tx_timestamps = rings\<rparr>"

definition throughput_start ::
  "agent_config \<Rightarrow> bool \<Rightarrow> socket_answers \<Rightarrow> int \<Rightarrow> rand_env \<Rightarrow>
   (host_tuple list \<times> tcp_thread option) result" where
  "throughput_start cfg epoll_ok sockets time_ns e =
     bindE (throughput_open_connections cfg epoll_ok sockets) (\<lambda>(dests, opened).
       Inr (dests, map_option (\<lambda>(conns, rings). start_thread conns rings time_ns e) opened))"

definition latency_start ::
  "agent_config \<Rightarrow> socket_answers \<Rightarrow> int \<Rightarrow> rand_env \<Rightarrow> (host_tuple list \<times> tcp_thread) result" where
  "latency_start cfg sockets time_ns e =
     bindE (latency_open_connections cfg sockets) (\<lambda>(dests, conns).
       case conns of None \<Rightarrow> Inl ExitFail | Some cs \<Rightarrow> Inr (dests, start_thread cs [] time_ns e))"

subsection \<open>Shared parts of the loops\<close>

definition take_conn :: "agent_config \<Rightarrow> tcp_thread \<Rightarrow> (nat option \<times> tcp_thread) result" where
  "take_conn cfg t =
     bindE (pick_conn cfg (conn_idx t) (connections t)) (\<lambda>(c, k). Inr (c, t\<lparr>conn_idx := k\<rparr>))"

definition update_conn ::
  "nat \<Rightarrow> (tcp_connection \<Rightarrow> tcp_connection) \<Rightarrow> tcp_thread \<Rightarrow> tcp_thread" where
  "update_conn i f t = t\<lparr>connections := (connections t)[i := f (connections t ! i)]\<rparr>"

definition count_request :: "tcp_connection \<Rightarrow> tcp_connection" where
  "count_request c = c\<lparr>pending_reqs := pending_reqs c + 1\<rparr>"

definition count_responses :: "byte_req_pair \<Rightarrow> tcp_connection \<Rightarrow> tcp_connection" where
  "count_responses brp c = c\<lparr>pending_reqs := pending_reqs c - ucast (brp_reqs brp)\<rparr>"

text \<open>
  The receive path up to the report of \<open>handle_response\<close>: leave the function, go on with the next
  event, or the report with the thread.
\<close>

definition receive_on ::
  "agent_config \<Rightarrow> nat \<Rightarrow> recv_ret \<Rightarrow> tcp_thread \<Rightarrow>
   ((observation list \<times> bool \<times> tcp_thread) + (byte_req_pair \<times> tcp_thread)) result" where
  "receive_on cfg i r t =
     (if length (connections t) \<le> i then Inl OutOfBounds
      else bindE (tcp_receive cfg (connections t ! i) r) (\<lambda>out.
        case out of
          Rx_return \<Rightarrow> Inr (Inl ([], False, t))
        | Rx_closed c \<Rightarrow> Inr (Inl ([Connection_closed i], True, update_conn i (\<lambda>_. c) t))
        | Rx_data c brp \<Rightarrow> Inr (Inr (brp, update_conn i (\<lambda>_. c) t))))"

text \<open>
  Taking the time stamps of \<open>n\<close> responses off the ring of connection \<open>i\<close>, waiting for the kernel
  where none is known yet; the last one is returned. With no further message in the error queue
  the waiting loop does not end.
\<close>

fun wait_tx ::
  "int \<Rightarrow> recvmsg_ret list \<Rightarrow> nat \<Rightarrow> tx_state \<Rightarrow> (recvmsg_ret list \<times> tx_state) result" where
  "wait_tx m q 0 (p, st, e) = Inl Diverges"
| "wait_tx m q (Suc k) (p, st, e) =
     bindE (get_tx_timestamp m q p st e) (\<lambda>(ret, q, p, st, e).
       if ret = 1 then Inr (q, p, st, e)
       else if q = [] then Inl Diverges else wait_tx m q k (p, st, e))"

fun match_responses ::
  "int \<Rightarrow> nat \<Rightarrow> recvmsg_ret list \<Rightarrow> timestamp_info option \<Rightarrow> tx_state \<Rightarrow>
   (timestamp_info option \<times> recvmsg_ret list \<times> tx_state) result" where
  "match_responses m 0 q info s = Inr (info, q, s)"
| "match_responses m (Suc n) q info (p, st, e) =
     bindE (pop_pending_tx_timestamps m p) (\<lambda>(i, p).
     case i of
       Some _ \<Rightarrow> match_responses m n q i (p, st, e)
     | None \<Rightarrow>
         bindE (wait_tx m q (Suc (length q)) (p, st, e)) (\<lambda>(q, p, st, e).
         bindE (assertE (consumed p < tail p)) (\<lambda>_.
         bindE (pop_pending_tx_timestamps m p) (\<lambda>(i, p).
         bindE (assertE (i \<noteq> None)) (\<lambda>_. match_responses m n q i (p, st, e))))))"

text \<open>
  What both symmetric agents do with a report of at least one response: take the time stamps off
  the ring, record the latency against the last one, and count the responses.
\<close>

definition measure_responses ::
  "agent_config \<Rightarrow> os_answers \<Rightarrow> nat \<Rightarrow> byte_req_pair \<Rightarrow> timespec \<Rightarrow> tcp_thread \<Rightarrow> tcp_thread result" where
  "measure_responses cfg os i brp rx t =
     (let t = update_conn i (count_responses brp) t; k = unat (idx (connections t ! i)) in
      if length (per_conn_tx_timestamps t) \<le> k then Inl OutOfBounds
      else
        bindE (match_responses (get_max_pending_reqs cfg) (unat (brp_reqs brp)) (errqueue os) None
                 (per_conn_tx_timestamps t ! k, stats t, renv t)) (\<lambda>(info, _, p, st, e).
        let t = t\<lparr>per_conn_tx_timestamps := (per_conn_tx_timestamps t)[k := p], stats := st, renv := e\<rparr> in
        case info of
          None \<Rightarrow> Inl NullDeref
        | Some info \<Rightarrow>
            (case timespec_diff (Some rx) (Some (time info)) of
               None \<Rightarrow> Inl AssertFail
             | Some latency \<Rightarrow>
                 bindE (add_latency_sample (acb os) (latency_ns latency) (Some (time info)) (stats t)) (\<lambda>st.
                   Inr (book_received os brp (t\<lparr>stats := st\<rparr>))))))"

subsection \<open>\<open>throughput_tcp_main\<close>\<close>

definition throughput_issue :: "agent_config \<Rightarrow> os_answers \<Rightarrow> nat \<Rightarrow> tcp_thread \<Rightarrow> tcp_result" where
  "throughput_issue cfg os i t =
     bindE (take_request cfg t) (\<lambda>(r, t).
     bindE (throughput_send (writes os) 0 (iov_cnt r) (s32 (int (bytes_to_send r))) (iovs r) []) (\<lambda>(s, wire).
     case s of
       Still_sending \<Rightarrow> Inl Diverges
     | Send_error \<Rightarrow> Inr ([], Returned, t)
     | Sent_all ret \<Rightarrow>
         bindE (book_sent os ret (sample_tx (clock os) (update_conn i count_request t))) (\<lambda>t.
           Inr ([Request_sent i wire (now os)], At_send, t))))"

definition throughput_event ::
  "agent_config \<Rightarrow> os_answers \<Rightarrow> epoll_event \<Rightarrow> epoll_event list \<Rightarrow> tcp_thread \<Rightarrow> tcp_result" where
  "throughput_event cfg os ev evs t =
     (if \<not> ev_in ev then Inl AssertFail
      else bindE (receive_on cfg (ev_conn ev) (received os) t) (\<lambda>out.
        case out of
          Inl (obs, go_on, t) \<Rightarrow> Inr (obs, if go_on then At_events evs else Returned, t)
        | Inr (brp, t) \<Rightarrow>
            if 0 < brp_reqs brp then
              Inr ([Responses (ev_conn ev) brp], At_events evs,
                   book_received os brp (update_conn (ev_conn ev) (count_responses brp) t))
            else Inr ([], At_events evs, t)))"

fun throughput_step ::
  "agent_config \<Rightarrow> os_answers \<Rightarrow> loop_point \<times> tcp_thread \<Rightarrow> tcp_result" where
  "throughput_step cfg os (At_head, t) = loop_head os t"
| "throughput_step cfg os (At_send, t) =
     (if next_tx t \<le> now os then
        bindE (take_conn cfg t) (\<lambda>(c, t).
          case c of None \<Rightarrow> Inr ([], At_poll, t) | Some i \<Rightarrow> throughput_issue cfg os i t)
      else Inr ([], At_poll, t))"
| "throughput_step cfg os (At_poll, t) = Inr ([], At_events (polled os), t)"
| "throughput_step cfg os (At_events [], t) = Inr ([], At_head, t)"
| "throughput_step cfg os (At_events (ev # evs), t) = throughput_event cfg os ev evs t"
| "throughput_step cfg os (pt, t) = Inr ([], pt, t)"

subsection \<open>\<open>symmetric_tcp_main\<close>\<close>

text \<open>A failed \<open>send_request\<close> is booked like a successful one.\<close>

definition symmetric_issue :: "agent_config \<Rightarrow> os_answers \<Rightarrow> nat \<Rightarrow> tcp_thread \<Rightarrow> tcp_result" where
  "symmetric_issue cfg os i t =
     bindE (take_request cfg t) (\<lambda>(r, t).
     bindE (send_request (writes os) 0 (iov_cnt r) (iovs r) []) (\<lambda>(s, wire).
     if s = Still_sending then Inl Diverges
     else
       let k = unat (idx (connections t ! i)) in
       if length (per_conn_tx_timestamps t) \<le> k then Inl OutOfBounds
       else
         bindE (push_complete_tx_timestamp (get_max_pending_reqs cfg) (per_conn_tx_timestamps t ! k)
                  (clock os) (renv t) (stats t)) (\<lambda>(p, st, e).
         let t = t\<lparr>per_conn_tx_timestamps := (per_conn_tx_timestamps t)[k := p], stats := st, renv := e\<rparr> in
         bindE (book_sent os (s32 (int (bytes_to_send r))) (update_conn i count_request t)) (\<lambda>t.
           Inr ([Request_sent i wire (now os)], At_send, t)))))"

definition symmetric_event ::
  "agent_config \<Rightarrow> os_answers \<Rightarrow> epoll_event \<Rightarrow> epoll_event list \<Rightarrow> tcp_thread \<Rightarrow> tcp_result" where
  "symmetric_event cfg os ev evs t =
     (if \<not> ev_in ev then Inl AssertFail
      else bindE (receive_on cfg (ev_conn ev) (received os) t) (\<lambda>out.
        case out of
          Inl (obs, go_on, t) \<Rightarrow> Inr (obs, if go_on then At_events evs else Returned, t)
        | Inr (brp, t) \<Rightarrow>
            if brp_reqs brp = 0 then Inr ([], At_events evs, t)
            else bindE (measure_responses cfg os (ev_conn ev) brp (clock os) t) (\<lambda>t.
              Inr ([Responses (ev_conn ev) brp], At_events evs, t))))"

fun symmetric_step ::
  "agent_config \<Rightarrow> os_answers \<Rightarrow> loop_point \<times> tcp_thread \<Rightarrow> tcp_result" where
  "symmetric_step cfg os (At_head, t) = loop_head os t"
| "symmetric_step cfg os (At_send, t) =
     (if next_tx t \<le> now os then
        bindE (take_conn cfg t) (\<lambda>(c, t).
          case c of None \<Rightarrow> Inr ([], At_poll, t) | Some i \<Rightarrow> symmetric_issue cfg os i t)
      else Inr ([], At_poll, t))"
| "symmetric_step cfg os (At_poll, t) = Inr ([], At_events (polled os), t)"
| "symmetric_step cfg os (At_events [], t) = Inr ([], At_head, t)"
| "symmetric_step cfg os (At_events (ev # evs), t) = symmetric_event cfg os ev evs t"
| "symmetric_step cfg os (pt, t) = Inr ([], pt, t)"

subsection \<open>\<open>symmetric_nic_tcp_main\<close>\<close>

text \<open>One \<open>sendmsg\<close>, which must take the whole request; a socket that would block fails the assertion.\<close>

definition nic_issue :: "agent_config \<Rightarrow> os_answers \<Rightarrow> nat \<Rightarrow> tcp_thread \<Rightarrow> tcp_result" where
  "nic_issue cfg os i t =
     bindE (take_request cfg t) (\<lambda>(r, t).
     let left = s32 (int (bytes_to_send r)) in
     case writes os of
       [] \<Rightarrow> Inl Diverges
     | Wr_error # _ \<Rightarrow> Inr ([], Returned, t)
     | Wr_block # _ \<Rightarrow> Inl AssertFail
     | Wr n # _ \<Rightarrow>
         let wire = take n (iovs_bytes (iovs r) 0 (iov_cnt r)); ret = int (length wire);
             k = unat (idx (connections t ! i)) in
         bindE (assertE (ret = left)) (\<lambda>_.
         if length (per_conn_tx_timestamps t) \<le> k then Inl OutOfBounds
         else
           bindE (add_pending_tx_timestamp (get_max_pending_reqs cfg) (per_conn_tx_timestamps t ! k)
                    (of_int left)) (\<lambda>p.
           let t = t\<lparr>per_conn_tx_timestamps := (per_conn_tx_timestamps t)[k := p]\<rparr> in
           bindE (book_sent os ret (update_conn i count_request t)) (\<lambda>t.
             Inr ([Request_sent i wire (now os)], At_poll, t)))))"

text \<open>
  What \<open>timestamp_recv\<close> makes of the read: its bytes and time stamp, or one of the other two
  answers, which leave the time stamp of an earlier call.
\<close>

definition nic_recvmsg :: "os_answers \<Rightarrow> tcp_connection \<Rightarrow> recvmsg_ret" where
  "nic_recvmsg os c =
     (case received os of
        Recv_error \<Rightarrow> Recvmsg_error
      | Recv_block \<Rightarrow> Recvmsg_block
      | Recv avail \<Rightarrow>
          Recvmsg (take (size_of_int (int MAX_PAYLOAD - int (unat (buffer_idx c)))) avail) (controls os))"

definition nic_event ::
  "agent_config \<Rightarrow> os_answers \<Rightarrow> epoll_event \<Rightarrow> epoll_event list \<Rightarrow> tcp_thread \<Rightarrow> tcp_result" where
  "nic_event cfg os ev evs t =
     (let i = ev_conn ev;
          next_event = (\<lambda>t. if 0 < later os - next_tx t then At_head else At_events evs) in
      if length (connections t) \<le> i then Inl OutOfBounds
      else if ev_in ev then
        bindE (timestamp_recv (nic_recvmsg os (connections t ! i)) (rx_timestamp t)) (\<lambda>(_, rx).
        bindE (receive_on cfg i (received os) (t\<lparr>rx_timestamp := rx\<rparr>)) (\<lambda>out.
          case out of
            Inl (obs, go_on, t) \<Rightarrow> Inr (obs, if go_on then At_events evs else Returned, t)
          | Inr (brp, t) \<Rightarrow>
              if brp_reqs brp = 0 then Inr ([], At_events evs, t)
              else case rx of
                None \<Rightarrow> Inl Uninit
              | Some info \<Rightarrow>
                  bindE (measure_responses cfg os i brp (time info) t) (\<lambda>t.
                    Inr ([Responses i brp], next_event t, t))))
      else if ev_err ev then
        (let k = unat (idx (connections t ! i)) in
         if length (per_conn_tx_timestamps t) \<le> k then Inl OutOfBounds
         else
           bindE (get_tx_timestamp (get_max_pending_reqs cfg) (errqueue os) (per_conn_tx_timestamps t ! k)
                    (stats t) (renv t)) (\<lambda>(_, _, p, st, e).
           let t = t\<lparr>per_conn_tx_timestamps := (per_conn_tx_timestamps t)[k := p], stats := st, renv := e\<rparr> in
           Inr ([], next_event t, t)))
      else Inl AssertFail)"

fun nic_step ::
  "agent_config \<Rightarrow> os_answers \<Rightarrow> loop_point \<times> tcp_thread \<Rightarrow> tcp_result" where
  "nic_step cfg os (At_head, t) = loop_head os t"
| "nic_step cfg os (At_send, t) =
     (if next_tx t \<le> now os then
        bindE (take_conn cfg t) (\<lambda>(c, t).
          case c of None \<Rightarrow> Inr ([], At_poll, t) | Some i \<Rightarrow> nic_issue cfg os i t)
      else Inr ([], At_poll, t))"
| "nic_step cfg os (At_poll, t) = Inr ([], At_events (polled os), t)"
| "nic_step cfg os (At_events [], t) = Inr ([], At_head, t)"
| "nic_step cfg os (At_events (ev # evs), t) = nic_event cfg os ev evs t"
| "nic_step cfg os (pt, t) = Inr ([], pt, t)"

subsection \<open>\<open>latency_tcp_main\<close>\<close>

text \<open>
  The closed loop: one blocking \<open>writev\<close> that must take the whole request, then reads until the
  buffer is empty. The latency runs from before the write to after the read that completed a
  response.
\<close>

definition latency_issue :: "agent_config \<Rightarrow> os_answers \<Rightarrow> nat \<Rightarrow> tcp_thread \<Rightarrow> tcp_result" where
  "latency_issue cfg os i t =
     bindE (take_request cfg t) (\<lambda>(r, t).
     case writes os of
       [] \<Rightarrow> Inl Diverges
     | Wr_error # _ \<Rightarrow> Inr ([], Returned, t)
     | Wr_block # _ \<Rightarrow> Inr ([], Returned, t)
     | Wr n # _ \<Rightarrow>
         let wire = take n (iovs_bytes (iovs r) 0 (iov_cnt r)); ret = int (length wire) in
         bindE (assertE (ret = s32 (int (bytes_to_send r)))) (\<lambda>_.
         let t = t\<lparr>stats := add_throughput_tx_sample (acb os) (BRP (of_int ret) 1) (stats t)\<rparr> in
         bindE (assertE (buffer_idx (connections t ! i) = 0)) (\<lambda>_.
           Inr ([Request_sent i wire (now os)], At_recv i (later os), t))))"

definition latency_receive :: "agent_config \<Rightarrow> os_answers \<Rightarrow> nat \<Rightarrow> int \<Rightarrow> tcp_thread \<Rightarrow> tcp_result" where
  "latency_receive cfg os i start t =
     (if length (connections t) \<le> i then Inl OutOfBounds
      else bindE (assertE (unat (buffer_idx (connections t ! i)) < MAX_PAYLOAD)) (\<lambda>_.
      let again = (\<lambda>t. if buffer_idx (connections t ! i) \<noteq> 0 then At_recv i start else At_head) in
      if received os \<in> {Recv_error, Recv_block} then Inr ([], Returned, t)
      else bindE (receive_on cfg i (received os) t) (\<lambda>out.
        case out of
          Inl (obs, _, t) \<Rightarrow> Inr (obs, again t, t)
        | Inr (brp, t) \<Rightarrow>
            if 0 < brp_reqs brp then
              bindE (assertE (proto_type (app_proto cfg) \<noteq> PROTO_MEMCACHED_BIN \<or> brp_reqs brp = 1)) (\<lambda>_.
              let t = book_received os brp t in
              bindE (add_latency_sample (acb os) (later os - start) None (stats t)) (\<lambda>st.
              bindE (get_ia (acb os) (renv t)) (\<lambda>(ia, e).
              let t = t\<lparr>stats := st, renv := e, next_tx := next_tx t + ia\<rparr> in
              Inr ([Responses i brp], again t, t))))
            else Inr ([], again t, t))))"

fun latency_step ::
  "agent_config \<Rightarrow> os_answers \<Rightarrow> loop_point \<times> tcp_thread \<Rightarrow> tcp_result" where
  "latency_step cfg os (At_head, t) =
     (if \<not> should_load (acb os) then Inr ([], At_head, t\<lparr>next_tx := now os\<rparr>)
      else if now os < next_tx t then Inr ([], At_head, t)
      else bindE (take_conn cfg t) (\<lambda>(c, t).
        case c of None \<Rightarrow> Inr ([], At_head, t) | Some i \<Rightarrow> latency_issue cfg os i t))"
| "latency_step cfg os (At_recv i start, t) = latency_receive cfg os i start t"
| "latency_step cfg os (pt, t) = Inr ([], pt, t)"

text \<open>The table of \<open>init_tcp\<close>: the loop the configured agent runs.\<close>

definition tcp_step :: "agent_config \<Rightarrow> os_answers \<Rightarrow> loop_point \<times> tcp_thread \<Rightarrow> tcp_result" where
  "tcp_step cfg os s =
     (case atype cfg of
        THROUGHPUT_AGENT \<Rightarrow> throughput_step cfg os s
      | LATENCY_AGENT \<Rightarrow> latency_step cfg os s
      | SYMMETRIC_NIC_TIMESTAMP_AGENT \<Rightarrow> nic_step cfg os s
      | SYMMETRIC_AGENT \<Rightarrow> symmetric_step cfg os s)"

end
