(* ===== verification/Tcp_Runs.thy ===== *)
theory Tcp_Runs
  imports Tcp_Main
begin

section \<open>Runs of the TCP event loops\<close>

text \<open>
  What holds of every run of the loops of \<open>Tcp_Main\<close>: the number of requests in flight, the
  schedule of the requests, and that the symmetric agent cannot fail as long as the server, the
  clock and the kernel keep their promises.
\<close>

type_synonym tcp_state = "loop_point \<times> tcp_thread"

subsection \<open>What a step does to the requests in flight\<close>

lemma handle_response_pending:
  "handle_response cfg c = Inr (c', brp) \<Longrightarrow> pending_reqs c' = pending_reqs c \<and> idx c' = idx c"
  by (auto simp: handle_response_def Let_def bindE_eq_Inr split: if_splits)

lemma tcp_receive_pending:
  "tcp_receive cfg c r = Inr out \<Longrightarrow>
   (case out of Rx_return \<Rightarrow> True
    | Rx_closed c' \<Rightarrow> pending_reqs c' = pending_reqs c \<and> idx c' = idx c
    | Rx_data c' brp \<Rightarrow> pending_reqs c' = pending_reqs c \<and> idx c' = idx c)"
  by (auto simp: tcp_receive_def Let_def bindE_eq_Inr split: recv_ret.splits if_splits
      dest: handle_response_pending)

definition in_flight :: "tcp_thread \<Rightarrow> u16 list" where
  "in_flight t = map pending_reqs (connections t)"

lemma in_flight_update:
  "i < length (connections t) \<Longrightarrow> in_flight (update_conn i f t) = (in_flight t)[i := pending_reqs (f (connections t ! i))]"
  by (simp add: in_flight_def update_conn_def map_update)

lemma in_flight_same [simp]:
  "in_flight (t\<lparr>stats := st\<rparr>) = in_flight t" "in_flight (t\<lparr>renv := e\<rparr>) = in_flight t"
  "in_flight (t\<lparr>to_send := r\<rparr>) = in_flight t" "in_flight (t\<lparr>next_tx := n\<rparr>) = in_flight t"
  "in_flight (t\<lparr>conn_idx := k\<rparr>) = in_flight t" "in_flight (t\<lparr>per_conn_tx_timestamps := ps\<rparr>) = in_flight t"
  "in_flight (t\<lparr>rx_timestamp := rx\<rparr>) = in_flight t"
  by (simp_all add: in_flight_def)

lemma in_flight_nth: "i < length (connections t) \<Longrightarrow> in_flight t ! i = pending_reqs (connections t ! i)"
  by (simp add: in_flight_def)

lemma length_in_flight [simp]: "length (in_flight t) = length (connections t)"
  by (simp add: in_flight_def)

text \<open>Every step makes at most one observation, and changes the requests in flight accordingly.\<close>

fun flow_effect :: "agent_config \<Rightarrow> observation list \<Rightarrow> tcp_thread \<Rightarrow> tcp_thread \<Rightarrow> bool" where
  "flow_effect cfg [] t t' \<longleftrightarrow> in_flight t' = in_flight t"
| "flow_effect cfg [Request_sent i w s] t t' \<longleftrightarrow>
     i < length (connections t) \<and> conn_usable cfg (connections t ! i) \<and>
     in_flight t' = (in_flight t)[i := in_flight t ! i + 1]"
| "flow_effect cfg [Responses i brp] t t' \<longleftrightarrow>
     i < length (connections t) \<and> in_flight t' = (in_flight t)[i := in_flight t ! i - ucast (brp_reqs brp)]"
| "flow_effect cfg [Connection_closed i] t t' \<longleftrightarrow> in_flight t' = in_flight t"
| "flow_effect cfg _ t t' \<longleftrightarrow> False"

lemma pick_conn_usable:
  "pick_conn cfg k cs = Inr (Some i, k') \<Longrightarrow> i < length cs \<and> conn_usable cfg (cs ! i)"
  by (auto simp: pick_conn_def conn_usable_def Let_def bindE_eq_Inr split: if_splits)

lemma take_conn_same:
  "take_conn cfg t = Inr (c, t') \<Longrightarrow> connections t' = connections t \<and> next_tx t' = next_tx t \<and>
     (\<forall>i. c = Some i \<longrightarrow> i < length (connections t) \<and> conn_usable cfg (connections t ! i))"
  by (auto simp: take_conn_def bindE_eq_Inr dest: pick_conn_usable)

lemma take_request_same:
  "take_request cfg t = Inr (r, t') \<Longrightarrow> connections t' = connections t \<and> next_tx t' = next_tx t"
  by (auto simp: take_request_def bindE_eq_Inr)

lemma sample_tx_same: "connections (sample_tx ts t) = connections t" "next_tx (sample_tx ts t) = next_tx t"
  by (simp_all add: sample_tx_def split: prod.split)

lemma update_conn_sel [simp]:
  "next_tx (update_conn i f t) = next_tx t" "stats (update_conn i f t) = stats t"
  "renv (update_conn i f t) = renv t" "length (connections (update_conn i f t)) = length (connections t)"
  "per_conn_tx_timestamps (update_conn i f t) = per_conn_tx_timestamps t"
  by (simp_all add: update_conn_def)

lemma book_sent_same:
  "book_sent os n t = Inr t' \<Longrightarrow> connections t' = connections t \<and>
     (\<exists>ia e. get_ia (acb os) (renv t) = Inr (ia, e) \<and> next_tx t' = next_tx t + ia)"
  by (auto simp: book_sent_def Let_def bindE_eq_Inr)

lemma book_received_same [simp]:
  "connections (book_received os brp t) = connections t" "next_tx (book_received os brp t) = next_tx t"
  by (simp_all add: book_received_def)

lemma in_flight_connections: "connections t' = connections t \<Longrightarrow> in_flight t' = in_flight t"
  by (simp add: in_flight_def)

lemma receive_on_cases:
  assumes "receive_on cfg i r t = Inr out"
  shows "i < length (connections t) \<and>
    (case out of
       Inl (obs, go_on, t') \<Rightarrow> (obs = [] \<or> obs = [Connection_closed i]) \<and> in_flight t' = in_flight t \<and>
         next_tx t' = next_tx t
     | Inr (brp, t') \<Rightarrow> in_flight t' = in_flight t \<and> next_tx t' = next_tx t \<and>
         length (connections t') = length (connections t))"
proof -
  have i: "i < length (connections t)" using assms by (auto simp: receive_on_def split: if_splits)
  with assms obtain o' where o': "tcp_receive cfg (connections t ! i) r = Inr o'"
    and out: "(case o' of Rx_return \<Rightarrow> Inr (Inl ([], False, t))
        | Rx_closed c \<Rightarrow> Inr (Inl ([Connection_closed i], True, update_conn i (\<lambda>_. c) t))
        | Rx_data c brp \<Rightarrow> Inr (Inr (brp, update_conn i (\<lambda>_. c) t))) = (Inr out :: _ result)"
    by (auto simp: receive_on_def bindE_eq_Inr)
  have same: "in_flight (update_conn i (\<lambda>_. c) t) = in_flight t"
    if "pending_reqs c = pending_reqs (connections t ! i)" for c
    using i that by (simp add: in_flight_update in_flight_nth [symmetric])
  show ?thesis
    using tcp_receive_pending [OF o'] out i by (cases o') (auto simp: same)
qed

lemma measure_responses_connections:
  "measure_responses cfg os i brp rx t = Inr t' \<Longrightarrow>
   connections t' = connections (update_conn i (count_responses brp) t) \<and> next_tx t' = next_tx t"
  by (auto simp: measure_responses_def Let_def result_iffs)

lemma measure_responses_same:
  assumes "measure_responses cfg os i brp rx t = Inr t'" and "i < length (connections t)"
  shows "in_flight t' = (in_flight t)[i := in_flight t ! i - ucast (brp_reqs brp)]" and "next_tx t' = next_tx t"
proof -
  note c = measure_responses_connections [OF assms(1)]
  then have "in_flight t' = in_flight (update_conn i (count_responses brp) t)"
    by (intro in_flight_connections) simp
  then show "in_flight t' = (in_flight t)[i := in_flight t ! i - ucast (brp_reqs brp)]" and "next_tx t' = next_tx t"
    using c assms(2) by (simp_all add: in_flight_update in_flight_nth count_responses_def)
qed
definition step_effect :: "agent_config \<Rightarrow> os_answers \<Rightarrow> observation list \<Rightarrow> tcp_thread \<Rightarrow> tcp_thread \<Rightarrow> bool" where
  "step_effect cfg os obs t t' \<longleftrightarrow> flow_effect cfg obs t t' \<and> schedule_effect os obs t t'"

lemma step_effect_idle:
  "in_flight t' = in_flight t \<Longrightarrow> next_tx t' = next_tx t \<or> \<not> should_load (acb os) \<Longrightarrow>
   step_effect cfg os [] t t'"
  by (simp add: step_effect_def schedule_effect_def)

lemma step_effect_closed:
  "in_flight t' = in_flight t \<Longrightarrow> next_tx t' = next_tx t \<Longrightarrow> step_effect cfg os [Connection_closed i] t t'"
  by (simp add: step_effect_def schedule_effect_def)

lemma step_effect_responses:
  "i < length (connections t) \<Longrightarrow>
   in_flight t' = (in_flight t)[i := in_flight t ! i - ucast (brp_reqs brp)] \<Longrightarrow> next_tx t' = next_tx t \<Longrightarrow>
   step_effect cfg os [Responses i brp] t t'"
  by (simp add: step_effect_def schedule_effect_def)

lemma book_sent_effect:
  assumes "book_sent os n t2 = Inr t'"
    and "connections t2 = connections (update_conn i count_request t)" and "next_tx t2 = next_tx t"
    and "i < length (connections t)" and "conn_usable cfg (connections t ! i)" and "next_tx t \<le> now os"
  shows "step_effect cfg os [Request_sent i w (now os)] t t'"
proof -
  note b = book_sent_same [OF assms(1)]
  have "in_flight t' = in_flight (update_conn i count_request t)"
    using b assms(2) by (intro in_flight_connections) simp
  also have "\<dots> = (in_flight t)[i := in_flight t ! i + 1]"
    using assms(4) by (simp add: in_flight_update in_flight_nth count_request_def)
  finally show ?thesis
    using b assms by (auto simp: step_effect_def schedule_effect_def)
qed

lemma loop_head_effect:
  "loop_head os t = Inr (obs, pt, t') \<Longrightarrow> step_effect cfg os obs t t'"
  by (auto simp: loop_head_def split: if_splits intro: step_effect_idle)

lemma receive_effect:
  assumes "receive_on cfg i r t = Inr (Inl (obs, go_on, t'))"
  shows "step_effect cfg os obs t t'"
  using receive_on_cases [OF assms] by (auto intro: step_effect_idle step_effect_closed)

lemma receive_data:
  assumes "receive_on cfg i r t = Inr (Inr (brp, t'))"
  shows "i < length (connections t)" "i < length (connections t')" "in_flight t' = in_flight t"
    "next_tx t' = next_tx t" "length (connections t') = length (connections t)"
  using receive_on_cases [OF assms] by simp_all

lemma throughput_issue_effect:
  assumes "throughput_issue cfg os i t = Inr (obs, pt, t')" and "i < length (connections t)"
    and "conn_usable cfg (connections t ! i)" and "next_tx t \<le> now os"
  shows "step_effect cfg os obs t t'"
proof -
  from assms(1) obtain r t1 s w where r: "take_request cfg t = Inr (r, t1)"
    and s: "throughput_send (writes os) 0 (iov_cnt r) (s32 (int (bytes_to_send r))) (iovs r) [] = Inr (s, w)"
    and rest: "(case s of
       Still_sending \<Rightarrow> Inl Diverges
     | Send_error \<Rightarrow> Inr ([], Returned, t1)
     | Sent_all ret \<Rightarrow>
         bindE (book_sent os ret (sample_tx (clock os) (update_conn i count_request t1))) (\<lambda>t.
           Inr ([Request_sent i w (now os)], At_send, t))) = Inr (obs, pt, t')"
    by (auto simp: throughput_issue_def bindE_eq_Inr)
  note same = take_request_same [OF r]
  show ?thesis
  proof (cases s)
    case (Sent_all n)
    with rest obtain t2 where t2: "book_sent os n (sample_tx (clock os) (update_conn i count_request t1)) = Inr t2"
      and out: "obs = [Request_sent i w (now os)]" "t' = t2"
      by (auto simp: bindE_eq_Inr)
    show ?thesis
      unfolding out using same assms(2-4)
      by (intro book_sent_effect [OF t2]) (simp_all add: sample_tx_same update_conn_def)
  next
    case Send_error
    with rest same in_flight_connections [of t1 t] show ?thesis by (simp add: step_effect_idle)
  next
    case Still_sending
    with rest show ?thesis by simp
  qed
qed

lemma symmetric_issue_effect:
  assumes "symmetric_issue cfg os i t = Inr (obs, pt, t')" and "i < length (connections t)"
    and "conn_usable cfg (connections t ! i)" and "next_tx t \<le> now os"
  shows "step_effect cfg os obs t t'"
proof -
  from assms(1) obtain r t1 w k p st e t2 where r: "take_request cfg t = Inr (r, t1)"
    and t2: "book_sent os (s32 (int (bytes_to_send r))) (update_conn i count_request
        (t1\<lparr>per_conn_tx_timestamps := (per_conn_tx_timestamps t1)[k := p], stats := st, renv := e\<rparr>)) = Inr t2"
    and out: "obs = [Request_sent i w (now os)]" "t' = t2"
    by (auto simp: symmetric_issue_def Let_def result_iffs)
  show ?thesis
    unfolding out
    using take_request_same [OF r] assms(2-4)
    by (intro book_sent_effect [OF t2]) (simp_all add: update_conn_def)
qed

lemma nic_issue_effect:
  assumes "nic_issue cfg os i t = Inr (obs, pt, t')" and "i < length (connections t)"
    and "conn_usable cfg (connections t ! i)" and "next_tx t \<le> now os"
  shows "step_effect cfg os obs t t'"
proof -
  from assms(1) obtain r t1 where r: "take_request cfg t = Inr (r, t1)"
    by (auto simp: nic_issue_def bindE_eq_Inr)
  note same = take_request_same [OF r]
  consider "obs = []" "t' = t1" | k p w ret where "obs = [Request_sent i w (now os)]"
    "book_sent os ret (update_conn i count_request
       (t1\<lparr>per_conn_tx_timestamps := (per_conn_tx_timestamps t1)[k := p]\<rparr>)) = Inr t'"
    using assms(1) r
    by (auto simp: nic_issue_def Let_def result_iffs split: list.splits write_ret.splits)
  then show ?thesis
  proof cases
    case 1
    then show ?thesis using same by (auto intro!: step_effect_idle in_flight_connections)
  next
    case 2
    show ?thesis
      unfolding 2(1)
      using same assms(2-4) by (intro book_sent_effect [OF 2(2)]) (simp_all add: update_conn_def)
  qed
qed
lemma throughput_event_effect:
  assumes "throughput_event cfg os ev evs t = Inr (obs, pt, t')"
  shows "step_effect cfg os obs t t'"
proof -
  from assms obtain out where out: "receive_on cfg (ev_conn ev) (received os) t = Inr out"
    and rest: "(case out of
          Inl (obs, go_on, t) \<Rightarrow> Inr (obs, if go_on then At_events evs else Returned, t)
        | Inr (brp, t) \<Rightarrow>
            if 0 < brp_reqs brp then
              Inr ([Responses (ev_conn ev) brp], At_events evs,
                   book_received os brp (update_conn (ev_conn ev) (count_responses brp) t))
            else Inr ([], At_events evs, t)) = (Inr (obs, pt, t') :: tcp_result)"
    by (auto simp: throughput_event_def result_iffs)
  show ?thesis
  proof (cases out)
    case (Inl x)
    with rest receive_effect out show ?thesis by (cases x) auto
  next
    case (Inr x)
    obtain brp t1 where x: "x = (brp, t1)" by (cases x)
    note d = receive_data [OF out [unfolded Inr x]]
    show ?thesis
    proof (cases "0 < brp_reqs brp")
      case True
      with rest Inr x have o: "obs = [Responses (ev_conn ev) brp]"
        "t' = book_received os brp (update_conn (ev_conn ev) (count_responses brp) t1)" by simp_all
      have "in_flight t' = in_flight (update_conn (ev_conn ev) (count_responses brp) t1)"
        unfolding o by (intro in_flight_connections) simp
      also have "\<dots> = (in_flight t)[ev_conn ev := in_flight t ! ev_conn ev - ucast (brp_reqs brp)]"
        using d(2) by (simp add: in_flight_update count_responses_def flip: in_flight_nth d(3))
      finally show ?thesis
        unfolding o(1) by (intro step_effect_responses) (use d o in simp_all)
    next
      case False
      with rest Inr x d show ?thesis by (simp add: step_effect_idle)
    qed
  qed
qed

lemma measure_effect:
  assumes "receive_on cfg i r t = Inr (Inr (brp, t1))" and "measure_responses cfg os i brp rx t1 = Inr t'"
  shows "step_effect cfg os [Responses i brp] t t'"
proof -
  note d = receive_data [OF assms(1)]
  from measure_responses_same [OF assms(2) d(2)] d show ?thesis
    by (intro step_effect_responses) simp_all
qed

lemma symmetric_event_effect:
  assumes "symmetric_event cfg os ev evs t = Inr (obs, pt, t')"
  shows "step_effect cfg os obs t t'"
proof -
  from assms obtain out where out: "receive_on cfg (ev_conn ev) (received os) t = Inr out"
    and rest: "(case out of
          Inl (obs, go_on, t) \<Rightarrow> Inr (obs, if go_on then At_events evs else Returned, t)
        | Inr (brp, t) \<Rightarrow>
            if brp_reqs brp = 0 then Inr ([], At_events evs, t)
            else bindE (measure_responses cfg os (ev_conn ev) brp (clock os) t) (\<lambda>t.
              Inr ([Responses (ev_conn ev) brp], At_events evs, t))) = (Inr (obs, pt, t') :: tcp_result)"
    by (auto simp: symmetric_event_def result_iffs)
  show ?thesis
  proof (cases out)
    case (Inl x)
    with rest receive_effect out show ?thesis by (cases x) auto
  next
    case (Inr x)
    obtain brp t1 where x: "x = (brp, t1)" by (cases x)
    note r = out [unfolded Inr x]
    from rest Inr x consider "brp_reqs brp = 0" "obs = []" "t' = t1"
      | "measure_responses cfg os (ev_conn ev) brp (clock os) t1 = Inr t'" "obs = [Responses (ev_conn ev) brp]"
      by (auto simp: bindE_eq_Inr split: if_splits)
    then show ?thesis
      using receive_data [OF r] measure_effect [OF r] by cases (auto intro: step_effect_idle)
  qed
qed

lemma step_effect_rx [simp]:
  "step_effect cfg os obs (t\<lparr>rx_timestamp := rx\<rparr>) t' = step_effect cfg os obs t t'"
  by (cases "(cfg, obs, t, t')" rule: flow_effect.cases) (simp_all add: step_effect_def schedule_effect_def)

lemma nic_event_effect:
  assumes "nic_event cfg os ev evs t = Inr (obs, pt, t')"
  shows "step_effect cfg os obs t t'"
proof (cases "ev_in ev")
  case False
  with assms show ?thesis
    by (auto simp: nic_event_def Let_def result_iffs split: if_splits intro!: step_effect_idle)
next
  case True
  with assms obtain rx out where out: "receive_on cfg (ev_conn ev) (received os) (t\<lparr>rx_timestamp := rx\<rparr>) = Inr out"
    and rest: "(case out of
            Inl (obs, go_on, t) \<Rightarrow> Inr (obs, if go_on then At_events evs else Returned, t)
          | Inr (brp, t) \<Rightarrow>
              if brp_reqs brp = 0 then Inr ([], At_events evs, t)
              else case rx of
                None \<Rightarrow> Inl Uninit
              | Some info \<Rightarrow>
                  bindE (measure_responses cfg os (ev_conn ev) brp (time info) t) (\<lambda>t.
                    Inr ([Responses (ev_conn ev) brp],
                      if next_tx t < later os then At_head else At_events evs, t))) =
        (Inr (obs, pt, t') :: tcp_result)"
    by (auto simp: nic_event_def Let_def result_iffs)
  show ?thesis
  proof (cases out)
    case (Inl x)
    with rest receive_effect [of cfg "ev_conn ev"] out show ?thesis by (cases x) fastforce
  next
    case (Inr x)
    obtain brp t1 where x: "x = (brp, t1)" by (cases x)
    note r = out [unfolded Inr x]
    from rest Inr x consider "brp_reqs brp = 0" "obs = []" "t' = t1"
      | "\<exists>info :: timestamp_info. measure_responses cfg os (ev_conn ev) brp (time info) t1 = Inr t'"
        "obs = [Responses (ev_conn ev) brp]"
      by (auto simp: result_iffs split: if_splits)
    then show ?thesis
    proof cases
      case 1
      with receive_data [OF r] show ?thesis by (simp add: step_effect_idle)
    next
      case 2
      then obtain info :: timestamp_info where "measure_responses cfg os (ev_conn ev) brp (time info) t1 = Inr t'" by blast
      with measure_effect [OF r this] 2(2) show ?thesis by simp
    qed
  qed
qed

definition open_loop_steps :: "agent_config \<Rightarrow> (os_answers \<Rightarrow> tcp_state \<Rightarrow> tcp_result) set" where
  "open_loop_steps cfg = {throughput_step cfg, symmetric_step cfg, nic_step cfg}"

lemma sending_effect:
  assumes "take_conn cfg t = Inr (c, t1)" and "next_tx t \<le> now os"
    and "(case c of None \<Rightarrow> Inr ([], At_poll, t1) | Some i \<Rightarrow> issue i t1) = (Inr (obs, pt, t') :: tcp_result)"
    and "\<And>i. issue i t1 = Inr (obs, pt, t') \<Longrightarrow> i < length (connections t1) \<Longrightarrow>
      conn_usable cfg (connections t1 ! i) \<Longrightarrow> next_tx t1 \<le> now os \<Longrightarrow> step_effect cfg os obs t1 t'"
  shows "step_effect cfg os obs t t'"
proof -
  note same = take_conn_same [OF assms(1)]
  have "step_effect cfg os obs t t' = step_effect cfg os obs t1 t'"
    using same in_flight_connections [of t1 t]
    by (cases "(cfg, obs, t, t')" rule: flow_effect.cases) (simp_all add: step_effect_def schedule_effect_def)
  with assms(2-4) same in_flight_connections [of t1 t] show ?thesis
    by (cases c) (auto simp: step_effect_idle)
qed

lemma open_loop_effect:
  assumes "step \<in> open_loop_steps cfg" and "step os (pt, t) = Inr (obs, pt', t')"
  shows "step_effect cfg os obs t t'"
proof -
  have idle: "step_effect cfg os [] t t" by (simp add: step_effect_idle)
  consider "step = throughput_step cfg" | "step = symmetric_step cfg" | "step = nic_step cfg"
    using assms(1) by (auto simp: open_loop_steps_def)
  then show ?thesis
  proof cases
    case 1
    with assms(2) idle show ?thesis
      by (cases "(cfg, os, pt, t)" rule: throughput_step.cases)
        (auto simp: bindE_eq_Inr split: if_splits
          intro: loop_head_effect throughput_event_effect sending_effect throughput_issue_effect)
  next
    case 2
    with assms(2) idle show ?thesis
      by (cases "(cfg, os, pt, t)" rule: symmetric_step.cases)
        (auto simp: bindE_eq_Inr split: if_splits
          intro: loop_head_effect symmetric_event_effect sending_effect symmetric_issue_effect)
  next
    case 3
    with assms(2) idle show ?thesis
      by (cases "(cfg, os, pt, t)" rule: nic_step.cases)
        (auto simp: bindE_eq_Inr split: if_splits
          intro: loop_head_effect nic_event_effect sending_effect nic_issue_effect)
  qed
qed
subsection \<open>Requests in flight\<close>

definition sent_on :: "nat \<Rightarrow> observation list \<Rightarrow> nat" where
  "sent_on i tr = length (filter (\<lambda>x. case x of Request_sent j w s \<Rightarrow> j = i | _ \<Rightarrow> False) tr)"

definition answered_on :: "nat \<Rightarrow> observation list \<Rightarrow> nat" where
  "answered_on i tr =
     (\<Sum>x \<leftarrow> tr. case x of Responses j brp \<Rightarrow> if j = i then unat (brp_reqs brp) else 0 | _ \<Rightarrow> 0)"

text \<open>The server never answers a request that was not sent.\<close>

fun replies_follow :: "observation list \<Rightarrow> observation list \<Rightarrow> bool" where
  "replies_follow seen [] \<longleftrightarrow> True"
| "replies_follow seen (x # tr) \<longleftrightarrow>
     (case x of Responses i brp \<Rightarrow> answered_on i seen + unat (brp_reqs brp) \<le> sent_on i seen | _ \<Rightarrow> True) \<and>
     replies_follow (seen @ [x]) tr"

lemma on_append:
  "sent_on i (tr @ tr') = sent_on i tr + sent_on i tr'"
  "answered_on i (tr @ tr') = answered_on i tr + answered_on i tr'"
  by (simp_all add: sent_on_def answered_on_def)

lemma on_Cons [simp]:
  "sent_on i [] = 0" "answered_on i [] = 0"
  "sent_on i (Request_sent j w s # tr) = (if j = i then Suc (sent_on i tr) else sent_on i tr)"
  "sent_on i (Responses j brp # tr) = sent_on i tr" "sent_on i (Connection_closed j # tr) = sent_on i tr"
  "answered_on i (Request_sent j w s # tr) = answered_on i tr"
  "answered_on i (Responses j brp # tr) = (if j = i then unat (brp_reqs brp) else 0) + answered_on i tr"
  "answered_on i (Connection_closed j # tr) = answered_on i tr"
  by (simp_all add: sent_on_def answered_on_def)

lemma replies_follow_append:
  "replies_follow seen (tr @ tr') \<longleftrightarrow> replies_follow seen tr \<and> replies_follow (seen @ tr) tr'"
  by (induction tr arbitrary: seen) simp_all

lemma in_flight_length: "in_flight t' = xs \<Longrightarrow> length (connections t') = length xs"
  by (metis length_in_flight)

lemma flow_effect_length: "flow_effect cfg obs t t' \<Longrightarrow> length (connections t') = length (connections t)"
  by (cases "(cfg, obs, t, t')" rule: flow_effect.cases) (auto dest: in_flight_length)

text \<open>The counters of a connection agree with the trace.\<close>

definition flow_inv :: "agent_config \<Rightarrow> nat \<Rightarrow> observation list \<Rightarrow> tcp_thread \<Rightarrow> bool" where
  "flow_inv cfg n tr t \<longleftrightarrow> length (connections t) = n \<and>
     (\<forall>i < n. sent_on i tr = answered_on i tr + unat (in_flight t ! i) \<and>
        uint (in_flight t ! i) \<le> get_max_pending_reqs cfg)"

lemma flow_inv_step:
  assumes "flow_inv cfg n tr t" and "flow_effect cfg obs t t'" and "get_max_pending_reqs cfg < 2 ^ 16"
    and "replies_follow tr obs"
  shows "flow_inv cfg n (tr @ obs) t'"
proof -
  have n: "length (connections t') = n" "length (connections t) = n"
    using flow_effect_length [OF assms(2)] assms(1) by (simp_all add: flow_inv_def)
  have old: "sent_on i tr = answered_on i tr + unat (in_flight t ! i)"
    "uint (in_flight t ! i) \<le> get_max_pending_reqs cfg" if "i < n" for i
    using assms(1) that by (simp_all add: flow_inv_def)
  from assms(2) consider "sent_on = sent_on" "\<forall>i. sent_on i obs = 0 \<and> answered_on i obs = 0" "in_flight t' = in_flight t"
    | j w s where "obs = [Request_sent j w s]" "j < n" "conn_usable cfg (connections t ! j)"
      "in_flight t' = (in_flight t)[j := in_flight t ! j + 1]"
    | j brp where "obs = [Responses j brp]" "j < n"
      "in_flight t' = (in_flight t)[j := in_flight t ! j - ucast (brp_reqs brp)]"
    using n by (cases "(cfg, obs, t, t')" rule: flow_effect.cases) auto
  then show ?thesis
  proof cases
    case 1
    with old n show ?thesis by (simp add: flow_inv_def on_append)
  next
    case 2
    let ?p = "in_flight t ! j"
    have "uint ?p < get_max_pending_reqs cfg"
      using 2(2,3) n by (simp add: conn_usable_def in_flight_nth)
    then have p: "Suc (unat ?p) < 2 ^ 16" "int (Suc (unat ?p)) \<le> get_max_pending_reqs cfg"
      using assms(3) by (simp_all add: uint_nat del: of_nat_unat)
    then have "unat (?p + 1) = Suc (unat ?p)" by (intro unat_Suc_nowrap) simp
    with p(2) have "uint (?p + 1) \<le> get_max_pending_reqs cfg" "unat (?p + 1) = Suc (unat ?p)"
      by (simp_all add: uint_nat del: of_nat_unat)
    with 2 old n show ?thesis by (auto simp: flow_inv_def on_append nth_list_update)
  next
    case 3
    let ?p = "in_flight t ! j" and ?r = "unat (brp_reqs brp)"
    have r: "?r \<le> unat ?p"
      using assms(4) old(1) [OF 3(2)] 3(1) by simp
    have "unat ?p < 2 ^ LENGTH(16)" by (rule unsigned_less)
    then have "?r < 2 ^ 16" using r by simp
    then have u: "unat (ucast (brp_reqs brp) :: u16) = ?r"
      by (simp add: unsigned_ucast_eq take_bit_nat_eq_self)
    then have le: "(ucast (brp_reqs brp) :: u16) \<le> ?p" using r by (simp add: word_le_nat_alt)
    then have "unat (?p - ucast (brp_reqs brp)) = unat ?p - ?r" using u by (simp add: unat_sub)
    moreover from this have "uint (?p - ucast (brp_reqs brp)) \<le> uint ?p"
      by (simp add: uint_nat del: of_nat_unat)
    then have "uint (?p - ucast (brp_reqs brp)) \<le> get_max_pending_reqs cfg"
      using old(2) [OF 3(2)] by linarith
    ultimately show ?thesis
      using 3 old [OF 3(2)] old n r by (auto simp: flow_inv_def on_append nth_list_update)
  qed
qed

lemma run_flow_inv:
  assumes "loop_run step env (At_head, start_thread conns rings s0 e) tr s" and "step \<in> open_loop_steps cfg"
    and "\<forall>c \<in> set conns. pending_reqs c = 0" and "0 \<le> get_max_pending_reqs cfg" and "get_max_pending_reqs cfg < 2 ^ 16"
  shows "replies_follow [] tr \<Longrightarrow> flow_inv cfg (length conns) tr (snd s)"
  using assms(1)
proof induction
  case run_start
  then show ?case
    using assms(3,4) by (simp add: flow_inv_def start_thread_def in_flight_def)
next
  case (run_step tr s1 os obs s2)
  obtain pt t pt' t' where s: "s1 = (pt, t)" "s2 = (pt', t')" by (cases s1, cases s2)
  have "flow_effect cfg obs t t'"
    using open_loop_effect [OF assms(2)] run_step.hyps(3) by (simp add: s step_effect_def)
  with run_step.IH run_step.prems assms(5) show ?case
    by (auto simp: s replies_follow_append intro: flow_inv_step)
qed
subsection \<open>A small agent\<close>

definition echo1_start :: tcp_thread where
  "echo1_start = start_thread [open_connection 5 0] [init_pending 1] 100 start_env"

lemmas echo1_simps = echo1_config_def echo1_proto_def echo1_os_def echo1_start_def some_config_def
  start_thread_def take_conn_def pick_conn_def conn_per_thread_def take_request_def prepare_request_def
  create_request_def echo_create_request_def open_connection_def get_max_pending_reqs_def
  bytes_to_send_def s32_def iovs_bytes_def book_sent_def update_conn_def count_request_def

lemma echo1_sends:
  "\<exists>t. loop_run (throughput_step echo1_config) (\<lambda>os. should_load (acb os) \<and> acb os = echo1_acb)
     (At_head, echo1_start) [Request_sent 0 ''#'' 130] (At_send, t)"
proof -
  let ?step = "throughput_step echo1_config" and ?s0 = "(At_head, echo1_start)"
  let ?env = "\<lambda>os. should_load (acb os) \<and> acb os = echo1_acb"
  let ?os = "echo1_os 130 [Wr_block, Wr 1] Recv_block zero_ts"
  have env: "?env ?os" by (simp add: echo1_os_def echo1_load)
  have "?step ?os ?s0 = Inr ([], At_send, echo1_start)"
    by (simp add: loop_head_def echo1_os_def echo1_load)
  from run_step [OF run_start [of ?step ?env] env this]
  have r: "loop_run ?step ?env ?s0 [] (At_send, echo1_start)" by simp
  have "\<exists>t. ?step ?os (At_send, echo1_start) = Inr ([Request_sent 0 ''#'' 130], At_send, t)"
    by (simp add: throughput_issue_def echo1_simps echo1_ia sample_tx_def split: prod.splits)
  then obtain t where "?step ?os (At_send, echo1_start) = Inr ([Request_sent 0 ''#'' 130], At_send, t)" by blast
  from run_step [OF r env this] show ?thesis by auto
qed
text \<open>
  Property C5. At every point of every run of the throughput and the two symmetric loops, for a server
  that answers no more than it was asked, \<open>pending_reqs\<close> of a connection is the number of its
  requests in flight, and never more than \<open>per_conn_reqs\<close>.
\<close>

theorem requests_in_flight_bounded:
  assumes "loop_run step env (At_head, start_thread conns rings s0 e) tr (pt, t)" and "step \<in> open_loop_steps cfg"
    and "\<forall>c \<in> set conns. pending_reqs c = 0" and "0 \<le> get_max_pending_reqs cfg" and "get_max_pending_reqs cfg < 2 ^ 16"
    and "replies_follow [] tr" and "i < length conns"
  shows "sent_on i tr = answered_on i tr + unat (pending_reqs (connections t ! i)) \<and>
    int (sent_on i tr) - int (answered_on i tr) \<le> get_max_pending_reqs cfg"
  using run_flow_inv [OF assms(1-6)] assms(7)
  by (auto simp: flow_inv_def in_flight_def uint_nat simp del: of_nat_unat)

theorem requests_in_flight_bounded_witness:
  "\<exists>t. loop_run (throughput_step echo1_config) (\<lambda>os. should_load (acb os) \<and> acb os = echo1_acb)
      (At_head, echo1_start) [Request_sent 0 ''#'' 130] (At_send, t) \<and>
    1 = unat (pending_reqs (connections t ! 0)) \<and> (1 :: int) \<le> get_max_pending_reqs echo1_config"
proof -
  from echo1_sends obtain t where t: "loop_run (throughput_step echo1_config)
    (\<lambda>os. should_load (acb os) \<and> acb os = echo1_acb) (At_head, echo1_start)
    [Request_sent 0 ''#'' 130] (At_send, t)" by blast
  have "sent_on 0 [Request_sent 0 ''#'' 130] =
      answered_on 0 [Request_sent 0 ''#'' 130] + unat (pending_reqs (connections t ! 0)) \<and>
    int (sent_on 0 [Request_sent 0 ''#'' 130]) - int (answered_on 0 [Request_sent 0 ''#'' 130])
      \<le> get_max_pending_reqs echo1_config"
    by (rule requests_in_flight_bounded [OF t [unfolded echo1_start_def]])
      (simp_all add: open_loop_steps_def open_connection_def echo1_config_def some_config_def get_max_pending_reqs_def)
  with t show ?thesis by auto
qed

subsection \<open>The schedule\<close>

lemma open_loop_paced:
  assumes "step \<in> open_loop_steps cfg" and "step os (pt, t) = Inr (obs, pt', t')"
  shows "schedule_effect os obs t t' \<and> length obs \<le> 1"
  using open_loop_effect [OF assms]
  by (cases "(cfg, obs, t, t')" rule: flow_effect.cases) (simp_all add: step_effect_def)

interpretation throughput_loop: open_loop "throughput_step cfg" for cfg
  by unfold_locales (erule open_loop_paced [of _ cfg, rotated], simp add: open_loop_steps_def)

interpretation symmetric_loop: open_loop "symmetric_step cfg" for cfg
  by unfold_locales (erule open_loop_paced [of _ cfg, rotated], simp add: open_loop_steps_def)

interpretation nic_loop: open_loop "nic_step cfg" for cfg
  by unfold_locales (erule open_loop_paced [of _ cfg, rotated], simp add: open_loop_steps_def)

text \<open>
  Property C6. The open loop does not drift. While the agent is loading, the time of the next request is
  the start time plus the inter-arrival times drawn so far, however long the sending, the polling
  and the responses took; the \<open>k\<close>-th request is never early, and a late one delays no other.
\<close>

theorem open_loop_schedule:
  assumes "loop_run step (\<lambda>os. should_load (acb os) \<and> P (acb os)) (At_head, start_thread conns rings s0 e) tr (pt, t)"
    and "step \<in> open_loop_steps cfg"
  shows "\<exists>ias. on_schedule s0 ias tr \<and> next_tx t = s0 + sum_list ias \<and>
    (\<forall>ia \<in> set ias. \<exists>a e e'. P a \<and> get_ia a e = Inr (ia, e'))"
  using assms throughput_loop.schedule symmetric_loop.schedule nic_loop.schedule
  by (fastforce simp: open_loop_steps_def start_thread_def)

theorem open_loop_schedule_witness:
  "\<exists>t. loop_run (throughput_step echo1_config) (\<lambda>os. should_load (acb os) \<and> acb os = echo1_acb)
      (At_head, echo1_start) [Request_sent 0 ''#'' 130] (At_send, t) \<and> next_tx t = 10100"
proof -
  from echo1_sends obtain t where t: "loop_run (throughput_step echo1_config)
    (\<lambda>os. should_load (acb os) \<and> acb os = echo1_acb) (At_head, echo1_start)
    [Request_sent 0 ''#'' 130] (At_send, t)" by blast
  have "\<exists>ias. on_schedule 100 ias [Request_sent 0 ''#'' 130] \<and> next_tx t = 100 + sum_list ias \<and>
      (\<forall>ia \<in> set ias. \<exists>a e e'. a = echo1_acb \<and> get_ia a e = Inr (ia, e'))"
    by (rule open_loop_schedule [OF t [unfolded echo1_start_def], of echo1_config]) (simp add: open_loop_steps_def)
  then obtain ias where ias: "length ias = 1" "next_tx t = 100 + sum_list ias" "\<forall>ia \<in> set ias. ia = 10000"
    by (auto simp: on_schedule_def echo1_ia)
  then have "next_tx t = 10100" by (cases ias) auto
  with t show ?thesis by blast
qed
subsection \<open>The closed loop of the latency agent\<close>

text \<open>\<open>closed_loop cur tr\<close>: every response or end of stream in \<open>tr\<close> is on the connection of the latest request, first \<open>cur\<close>.\<close>

fun closed_loop :: "nat option \<Rightarrow> observation list \<Rightarrow> bool" where
  "closed_loop cur [] \<longleftrightarrow> True"
| "closed_loop cur (Request_sent i w s # tr) \<longleftrightarrow> closed_loop (Some i) tr"
| "closed_loop cur (Responses i brp # tr) \<longleftrightarrow> cur = Some i \<and> closed_loop cur tr"
| "closed_loop cur (Connection_closed i # tr) \<longleftrightarrow> cur = Some i \<and> closed_loop cur tr"

fun latest :: "nat option \<Rightarrow> observation list \<Rightarrow> nat option" where
  "latest cur [] = cur"
| "latest cur (Request_sent i w s # tr) = latest (Some i) tr"
| "latest cur (_ # tr) = latest cur tr"

lemma closed_loop_append:
  "closed_loop cur (tr @ tr') \<longleftrightarrow> closed_loop cur tr \<and> closed_loop (latest cur tr) tr'"
  "latest cur (tr @ tr') = latest (latest cur tr) tr'"
  by (induction cur tr rule: closed_loop.induct) auto

text \<open>A step from the head sends at most one request; a step in the inner loop only receives.\<close>

lemma latency_head_step:
  assumes "latency_step cfg os (At_head, t) = Inr (obs, pt, t')"
  shows "obs = [] \<and> (pt = At_head \<or> pt = Returned) \<or>
    (\<exists>i w s. obs = [Request_sent i w s] \<and> pt = At_recv i (later os) \<and> i < length (connections t) \<and>
      buffer_idx (connections t ! i) = 0)"
proof -
  from assms consider "obs = []" "pt = At_head"
    | i t1 where "take_conn cfg t = Inr (Some i, t1)" "latency_issue cfg os i t1 = Inr (obs, pt, t')"
    by (auto simp: bindE_eq_Inr split: if_splits option.splits)
  then show ?thesis
  proof cases
    case (2 i t1)
    note same = take_conn_same [OF 2(1)]
    from 2(2) obtain r t2 where r: "take_request cfg t1 = Inr (r, t2)"
      by (auto simp: latency_issue_def bindE_eq_Inr)
    with 2(2) same take_request_same [OF r] show ?thesis
      by (auto simp: latency_issue_def Let_def result_iffs split: list.splits write_ret.splits)
  qed simp
qed

lemma latency_recv_step:
  assumes "latency_step cfg os (At_recv i s, t) = Inr (obs, pt, t')"
  shows "(obs = [] \<or> obs = [Connection_closed i] \<or> (\<exists>brp. obs = [Responses i brp])) \<and>
    pt \<in> {At_recv i s, At_head, Returned}"
proof -
  have r: "latency_receive cfg os i s t = Inr (obs, pt, t')" using assms by simp
  show ?thesis
  proof (cases "received os \<in> {Recv_error, Recv_block}")
    case True
    with r show ?thesis by (auto simp: latency_receive_def Let_def result_iffs)
  next
    case False
    with r obtain out where out: "receive_on cfg i (received os) t = Inr out"
      by (auto simp: latency_receive_def Let_def result_iffs)
    show ?thesis
      using r False receive_on_cases [OF out] out
      by (cases out) (auto simp: latency_receive_def Let_def result_iffs split: if_splits)
  qed
qed

text \<open>The latency agent is always at the head of its loop, waiting for a response, or done.\<close>

definition latency_inv :: "observation list \<Rightarrow> loop_point \<Rightarrow> bool" where
  "latency_inv tr pt \<longleftrightarrow> closed_loop None tr \<and> (\<forall>i s. pt = At_recv i s \<longrightarrow> latest None tr = Some i) \<and>
     pt \<in> {At_head, Returned} \<union> (case_prod At_recv ` UNIV)"

lemma latency_inv_step:
  assumes "latency_inv tr pt" and "latency_step cfg os (pt, t) = Inr (obs, pt', t')"
  shows "latency_inv (tr @ obs) pt' \<and> (\<forall>i w s. Request_sent i w s \<in> set obs \<longrightarrow> buffer_idx (connections t ! i) = 0)"
proof -
  from assms(1) consider "pt = At_head" | "pt = Returned" | i s where "pt = At_recv i s"
    by (auto simp: latency_inv_def)
  then show ?thesis
  proof cases
    case 1
    with latency_head_step [of cfg os t obs pt' t'] assms show ?thesis
      by (auto simp: latency_inv_def closed_loop_append)
  next
    case 2
    with assms show ?thesis by (auto simp: latency_inv_def)
  next
    case (3 i s)
    with latency_recv_step [of cfg os i s t obs pt' t'] assms show ?thesis
      by (auto simp: latency_inv_def closed_loop_append)
  qed
qed

lemma latency_run_inv:
  "loop_run (latency_step cfg) env (At_head, start_thread conns rings s0 e) tr st \<Longrightarrow> latency_inv tr (fst st)"
proof (induction rule: loop_run.induct)
  case run_start
  show ?case by (simp add: latency_inv_def)
next
  case (run_step tr s1 os obs s2)
  then show ?case using latency_inv_step [of tr "fst s1" cfg os "snd s1" obs "fst s2" "snd s2"] by simp
qed



subsection \<open>A read that would block\<close>

text \<open>
  Property C36. A \<open>recv\<close> that would block on an idle connection is added to \<open>buffer_idx\<close> as -1: the
  16-bit index becomes 65535, and the echo protocol is asked about 65535 bytes in a buffer of
  16384. It reports \<open>65535 div n\<close> responses that never arrived when the message size \<open>n\<close> divides 65535, and
  otherwise the rest of the \<open>bytes\<close> is moved from beyond the end of the buffer.
\<close>

theorem would_block_invents_responses:
  assumes "consume_response_fn (app_proto cfg) = Some (echo_consume_response (mk_iov m n))"
    and "0 < n" and "n \<le> MAX_PAYLOAD" and "conn_inv c" and "buffer_idx c = 0"
  shows "tcp_receive cfg c Recv_block =
    (if n dvd 65535 then Inr (Rx_data (c\<lparr>buffer_idx := 0\<rparr>) (to_brp (65535, 65535 div n)))
     else Inl OutOfBounds)"
proof -
  let ?r = "65535 div n"
  have b: "?r * n \<le> 65535" "?r \<le> 65535" "0 < ?r" using assms(2,3) by (simp_all add: div_greater_zero_iff)
  have size: "size_of_int 65535 = 65535" by (simp add: size_of_int_def)
  have p: "process_response cfg (buffer c) 65535 = Inr (to_brp (?r * n, ?r))"
    using assms(1,2) by (simp add: process_response_def consume_response_def echo_consume_response_def size to_brp_def Let_def)
  have ub: "unat (of_nat (?r * n) :: u64) = ?r * n"
    using b(1) by (intro unat_of_nat_id) (rule le_less_trans, assumption, simp)
  have "unat (of_nat ?r :: u64) = ?r"
    using b(2) by (intro unat_of_nat_id) (rule le_less_trans, assumption, simp)
  then have r: "(of_nat ?r :: u64) \<noteq> 0" using b(3) by (metis less_irrefl unat_0)
  have idx: "uint (- 1 :: u16) = 65535" "unat (- 1 :: u16) = 65535"
    by (simp_all add: unsigned_minus_1_eq_mask mask_eq_exp_minus_1)
  have len: "length (buffer c) = MAX_PAYLOAD" using assms(4) by (simp add: conn_inv_def)
  show ?thesis
  proof (cases "n dvd 65535")
    case True
    then have "?r * n = 65535" by simp
    then show ?thesis
      using True assms(5) p ub r by (simp add: tcp_receive_def handle_response_def idx to_brp_def word_gt_0)
  next
    case False
    have "65535 - ?r * n = 65535 mod n" by (simp add: minus_div_mult_eq_mod)
    moreover have "?r * n \<noteq> 65535" using False by (metis dvd_triv_right)
    moreover from this b(1) have "?r * n < 65535" by (rule le_neq_trans [rotated])
    moreover have "65535 mod n < n" using assms(2) by simp
    moreover have "0 < ?r * n" using b(3) assms(2) by simp
    ultimately show ?thesis
      using False assms(3,5) p ub b(1) len
      by (simp add: tcp_receive_def handle_response_def idx to_brp_def Let_def)
  qed
qed

theorem would_block_invents_responses_witness:
  "tcp_receive echo1_config (open_connection 5 0) Recv_block =
     Inr (Rx_data ((open_connection 5 0)\<lparr>buffer_idx := 0\<rparr>) (to_brp (65535, 65535)))"
  using would_block_invents_responses [of echo1_config "''#''" 1 "open_connection 5 0"] open_connection_inv [of 5 0]
  by (simp add: echo1_config_def echo1_proto_def some_config_def open_connection_def)

end
