(* ===== verification/Tcp_Safety.thy ===== *)
theory Tcp_Safety
  imports Tcp_Runs
begin

section \<open>The symmetric agent cannot fail\<close>

text \<open>
  The state invariant of \<open>symmetric_tcp_main\<close>, and that every step of it returns and keeps the
  invariant as long as the server's reports are acceptable, time moves forward and the kernel
  takes the requests.
\<close>

subsection \<open>Taking time stamps off a ring\<close>

lemma match_responses_ok:
  "tx_inv n p \<Longrightarrow> waiting_q p = [] \<Longrightarrow> r \<le> length (completed_q p) \<Longrightarrow>
   \<exists>info' p'. match_responses (int n) r q info (p, st, e) = Inr (info', q, p', st, e) \<and>
     (0 < r \<longrightarrow> (\<exists>i. info' = Some i \<and> time i = completed_q p ! (r - 1))) \<and> (r = 0 \<longrightarrow> info' = info) \<and>
     tx_inv n p' \<and> waiting_q p' = [] \<and> completed_q p' = drop r (completed_q p) \<and> head p' = head p"
proof (induction r arbitrary: p info)
  case 0
  then show ?case by simp
next
  case (Suc r)
  then obtain t ts where ts: "completed_q p = t # ts" by (cases "completed_q p") simp_all
  with pop_pending_refines [OF Suc.prems(1)] obtain i p1 where
    p1: "pop_pending_tx_timestamps (int n) p = Inr (Some i, p1)" "time i = t" "tx_inv n p1"
      "completed_q p1 = ts" "waiting_q p1 = waiting_q p" "head p1 = head p" by auto
  have "waiting_q p1 = []" "r \<le> length (completed_q p1)"
    using Suc.prems ts p1(4,5) by simp_all
  from Suc.IH [OF p1(3) this, of "Some i"] obtain info' p' where
    r: "match_responses (int n) r q (Some i) (p1, st, e) = Inr (info', q, p', st, e)"
      "0 < r \<longrightarrow> (\<exists>i. info' = Some i \<and> time i = completed_q p1 ! (r - 1))" "r = 0 \<longrightarrow> info' = Some i"
      "tx_inv n p'" "waiting_q p' = []" "completed_q p' = drop r (completed_q p1)" "head p' = head p1" by blast
  have "\<exists>i. info' = Some i \<and> time i = completed_q p ! r"
    using r(2,3) p1(2,4) ts by (cases r) auto
  with r p1 ts show ?case by (intro exI [of _ info'] exI [of _ p']) simp
qed

subsection \<open>The invariant\<close>

definition sym_conn_ok :: "nat \<Rightarrow> nat \<Rightarrow> tcp_connection \<Rightarrow> pending_tx_timestamps \<Rightarrow> bool" where
  "sym_conn_ok n i c p \<longleftrightarrow> conn_inv c \<and> unat (idx c) = i \<and> tx_inv n p \<and> waiting_q p = [] \<and>
     length (completed_q p) = unat (pending_reqs c)"

definition sym_inv :: "agent_config \<Rightarrow> tcp_thread \<Rightarrow> bool" where
  "sym_inv cfg t \<longleftrightarrow>
     0 < get_max_pending_reqs cfg \<and> get_max_pending_reqs cfg < 2 ^ 16 \<and>
     conn_per_thread cfg = Inr (int (length (connections t))) \<and> 0 < length (connections t) \<and>
     length (connections t) < 2 ^ 31 \<and> length (per_conn_tx_timestamps t) = length (connections t) \<and>
     (\<forall>i < length (connections t).
        sym_conn_ok (nat (get_max_pending_reqs cfg)) i (connections t ! i) (per_conn_tx_timestamps t ! i))"

lemma sym_inv_same:
  "sym_inv cfg (t\<lparr>stats := st\<rparr>) = sym_inv cfg t" "sym_inv cfg (t\<lparr>renv := e\<rparr>) = sym_inv cfg t"
  "sym_inv cfg (t\<lparr>to_send := r\<rparr>) = sym_inv cfg t" "sym_inv cfg (t\<lparr>next_tx := s\<rparr>) = sym_inv cfg t"
  "sym_inv cfg (t\<lparr>conn_idx := k\<rparr>) = sym_inv cfg t"
  by (simp_all add: sym_inv_def)

lemma sym_inv_replace:
  assumes "sym_inv cfg t" and "i < length (connections t)"
    and "sym_conn_ok (nat (get_max_pending_reqs cfg)) i c p"
    and "connections t' = (connections t)[i := c]" and "per_conn_tx_timestamps t' = (per_conn_tx_timestamps t)[i := p]"
  shows "sym_inv cfg t'"
  using assms by (auto simp: sym_inv_def nth_list_update)

text \<open>A connection changed in its buffer only, or closed.\<close>

lemma sym_inv_conn:
  assumes "sym_inv cfg t" and "i < length (connections t)" and "conn_inv c"
    and "idx c = idx (connections t ! i)" and "pending_reqs c = pending_reqs (connections t ! i)"
  shows "sym_inv cfg (update_conn i (\<lambda>_. c) t)"
  using assms
  by (intro sym_inv_replace [OF assms(1,2), of c "per_conn_tx_timestamps t ! i"])
    (auto simp: sym_inv_def sym_conn_ok_def update_conn_def)

subsection \<open>Receiving\<close>

text \<open>
  What the outside promises about a read of connection \<open>i\<close>: it is an error, the end of the
  stream, or bytes for which the protocol's report is acceptable and counts no more responses
  than are due, received later than every request due was sent.
\<close>

definition sym_read_ok :: "agent_config \<Rightarrow> os_answers \<Rightarrow> nat \<Rightarrow> tcp_thread \<Rightarrow> bool" where
  "sym_read_ok cfg os i t \<longleftrightarrow>
     (case received os of
        Recv_error \<Rightarrow> True
      | Recv_block \<Rightarrow> False
      | Recv avail \<Rightarrow>
          let c = connections t ! i in
          avail = [] \<or>
          (\<exists>b r. report_ok cfg (with_data c (take (MAX_PAYLOAD - unat (buffer_idx c)) avail)) b r \<and>
             r \<le> unat (pending_reqs c))) \<and>
     (should_measure (acb os) \<longrightarrow> (\<exists>k. sampling_period (acb os) = Inr k)) \<and>
     (\<forall>s \<in> set (completed_q (per_conn_tx_timestamps t ! i)).
        \<exists>l. timespec_diff (Some (clock os)) (Some s) = Some l \<and> 0 < latency_ns l)"

lemma add_latency_sample_ok:
  "0 < d \<Longrightarrow> (should_measure a \<longrightarrow> (\<exists>k. sampling_period a = Inr k)) \<Longrightarrow>
   \<exists>st'. add_latency_sample a d s st = Inr st'"
  by (auto simp: add_latency_sample_def Let_def)

lemma measure_responses_ok:
  assumes "sym_inv cfg t" and "i < length (connections t)" and "0 < r"
    and "r \<le> unat (pending_reqs (connections t ! i))" and "unat (brp_reqs brp) = r"
    and "should_measure (acb os) \<longrightarrow> (\<exists>k. sampling_period (acb os) = Inr k)"
    and "\<forall>s \<in> set (completed_q (per_conn_tx_timestamps t ! i)).
      \<exists>l. timespec_diff (Some (clock os)) (Some s) = Some l \<and> 0 < latency_ns l"
  shows "\<exists>t'. measure_responses cfg os i brp (clock os) t = Inr t' \<and> sym_inv cfg t'"
proof -
  let ?n = "nat (get_max_pending_reqs cfg)" and ?c = "connections t ! i" and ?p = "per_conn_tx_timestamps t ! i"
  let ?c' = "count_responses brp ?c"
  have n: "get_max_pending_reqs cfg = int ?n" and len: "length (per_conn_tx_timestamps t) = length (connections t)"
    and ok: "sym_conn_ok ?n i ?c ?p"
    using assms(1,2) by (simp_all add: sym_inv_def)
  then have tx: "tx_inv ?n ?p" "waiting_q ?p = []" "length (completed_q ?p) = unat (pending_reqs ?c)"
    and idx: "unat (idx ?c) = i" and inv: "conn_inv ?c"
    by (simp_all add: sym_conn_ok_def)
  have "r \<le> length (completed_q ?p)" using assms(4) tx(3) by simp
  from match_responses_ok [OF tx(1,2) this, of "errqueue os" None "stats t" "renv t"] assms(3)
  obtain s p' where m: "match_responses (int ?n) r (errqueue os) None (?p, stats t, renv t) =
      Inr (Some s, errqueue os, p', stats t, renv t)" "time s = completed_q ?p ! (r - 1)"
    "tx_inv ?n p'" "waiting_q p' = []" "completed_q p' = drop r (completed_q ?p)" by auto
  have "time s \<in> set (completed_q ?p)" using m(2) assms(3,4) tx(3) by simp
  with assms(7) obtain l where l: "timespec_diff (Some (clock os)) (Some (time s)) = Some l" "0 < latency_ns l"
    by blast
  from add_latency_sample_ok [OF l(2) assms(6)] obtain st' where
    st': "add_latency_sample (acb os) (latency_ns l) (Some (time s)) (stats t) = Inr st'" by blast
  let ?t' = "book_received os brp ((update_conn i (count_responses brp) t)
      \<lparr>per_conn_tx_timestamps := (per_conn_tx_timestamps t)[i := p'], renv := renv t, stats := st'\<rparr>)"
  have run: "measure_responses cfg os i brp (clock os) t = Inr ?t'"
    using assms(2,5) n len idx m(1) l(1) st'
    by (simp add: measure_responses_def Let_def update_conn_def count_responses_def)
  have u: "unat (pending_reqs ?c') = unat (pending_reqs ?c) - r"
  proof -
    have "unat (pending_reqs ?c) < 2 ^ LENGTH(16)" by (rule unsigned_less)
    then have "unat (ucast (brp_reqs brp) :: u16) = r"
      using assms(4,5) by (simp add: unsigned_ucast_eq take_bit_nat_eq_self)
    then show ?thesis
      using assms(4) by (simp add: count_responses_def unat_sub word_le_nat_alt)
  qed
  have "sym_conn_ok ?n i ?c' p'"
    using m(3-5) tx(3) idx inv u by (simp add: sym_conn_ok_def count_responses_def conn_inv_def)
  then have "sym_inv cfg ?t'"
    by (intro sym_inv_replace [OF assms(1,2)]) (simp_all add: book_received_def update_conn_def)
  with run show ?thesis by blast
qed

lemma receive_on_ok:
  assumes "sym_inv cfg t" and "i < length (connections t)" and "sym_read_ok cfg os i t"
  shows "(\<exists>obs go_on t'. receive_on cfg i (received os) t = Inr (Inl (obs, go_on, t')) \<and> sym_inv cfg t') \<or>
    (\<exists>b r t'. receive_on cfg i (received os) t = Inr (Inr (to_brp (b, r), t')) \<and> sym_inv cfg t' \<and>
       r < 2 ^ 16 \<and> length (connections t') = length (connections t) \<and>
       per_conn_tx_timestamps t' = per_conn_tx_timestamps t \<and>
       r \<le> unat (pending_reqs (connections t' ! i)))"
proof -
  let ?c = "connections t ! i"
  have inv: "conn_inv ?c" using assms(1,2) by (simp add: sym_inv_def sym_conn_ok_def)
  consider "received os = Recv_error" | "received os = Recv []"
    | avail b r where "received os = Recv avail" "avail \<noteq> []"
      "report_ok cfg (with_data ?c (take (MAX_PAYLOAD - unat (buffer_idx ?c)) avail)) b r"
      "r \<le> unat (pending_reqs ?c)"
    using assms(3) by (auto simp: sym_read_ok_def Let_def split: recv_ret.splits)
  then show ?thesis
  proof cases
    case 1
    with assms show ?thesis by (simp add: receive_on_def tcp_receive_def) blast
  next
    case 2
    have "sym_inv cfg (update_conn i (\<lambda>_. ?c\<lparr>closed := 1\<rparr>) t)"
      using inv assms(1,2) by (intro sym_inv_conn) (simp_all add: conn_inv_def)
    with 2 assms(2) show ?thesis by (simp add: receive_on_def tcp_receive_def) blast
  next
    case 3
    from tcp_receive_ok [OF inv 3(2) refl 3(3)] obtain c' where c':
      "tcp_receive cfg ?c (Recv avail) = Inr (Rx_data c' (to_brp (b, r)))" "conn_inv c'"
      "pending_reqs c' = pending_reqs ?c" "idx c' = idx ?c" by blast
    have "unat (pending_reqs ?c) < 2 ^ LENGTH(16)" by (rule unsigned_less)
    then have r: "r < 2 ^ 16" using 3(4) by simp
    have "sym_inv cfg (update_conn i (\<lambda>_. c') t)"
      using c'(2-4) assms(1,2) by (intro sym_inv_conn)
    with 3(1,4) c'(1,3) r assms(2) show ?thesis
      by (intro disjI2 exI [of _ b] exI [of _ r] exI [of _ "update_conn i (\<lambda>_. c') t"])
        (simp add: receive_on_def update_conn_def)
  qed
qed
subsection \<open>Sending\<close>

text \<open>
  What the outside promises about a sending step: the protocol has a request, the answers to the
  writes are enough for all of it (those after an error are not used), the next inter-arrival time
  can be drawn, and no connection has sent \<open>2 ^ 32 - 1\<close> requests before.
\<close>

definition sym_send_ok :: "agent_config \<Rightarrow> os_answers \<Rightarrow> tcp_thread \<Rightarrow> bool" where
  "sym_send_ok cfg os t \<longleftrightarrow>
     (\<exists>r e. prepare_request cfg (renv t) (to_send t) = Inr (r, e) \<and> request_ok r \<and> 0 < bytes_to_send r \<and>
        bytes_to_send r \<le> taken (writes os)) \<and>
     (\<forall>e. \<exists>ia e'. get_ia (acb os) e = Inr (ia, e')) \<and>
     (\<forall>p \<in> set (per_conn_tx_timestamps t). Suc (unat (head p)) < 2 ^ 32)"

lemma sends_window_ends:
  assumes "sends_window res ws wire data" and "length data \<le> taken ws"
  shows "\<exists>s wire'. res = Inr (s, wire') \<and> s \<noteq> Still_sending"
  using assms unfolding sends_window_def by (fastforce split: send_state.splits)

lemma usable_unat:
  "conn_usable cfg c \<Longrightarrow> get_max_pending_reqs cfg = int n \<Longrightarrow> unat (pending_reqs c) < n"
  by (simp add: conn_usable_def uint_nat del: of_nat_unat)

lemma symmetric_issue_ok:
  assumes "sym_inv cfg t" and "i < length (connections t)" and "conn_usable cfg (connections t ! i)"
    and "sym_send_ok cfg os t"
  shows "\<exists>obs pt t'. symmetric_issue cfg os i t = Inr (obs, pt, t') \<and> sym_inv cfg t'"
proof -
  let ?n = "nat (get_max_pending_reqs cfg)" and ?c = "connections t ! i" and ?p = "per_conn_tx_timestamps t ! i"
  have n: "get_max_pending_reqs cfg = int ?n" "?n < 2 ^ 16" and ok: "sym_conn_ok ?n i ?c ?p"
    and len: "length (per_conn_tx_timestamps t) = length (connections t)"
    using assms(1,2) by (auto simp: sym_inv_def)
  then have tx: "tx_inv ?n ?p" "waiting_q ?p = []" "length (completed_q ?p) = unat (pending_reqs ?c)"
    and idx: "unat (idx ?c) = i" and inv: "conn_inv ?c"
    by (simp_all add: sym_conn_ok_def)
  from assms(4) obtain r e where r: "prepare_request cfg (renv t) (to_send t) = Inr (r, e)" "request_ok r"
    "0 < bytes_to_send r" "bytes_to_send r \<le> taken (writes os)"
    and ia: "\<forall>e. \<exists>ia e'. get_ia (acb os) e = Inr (ia, e')"
    and head: "Suc (unat (head ?p)) < 2 ^ 32"
    using assms(2) len by (auto simp: sym_send_ok_def)
  from sends_window_ends [OF send_request_contract [of "iovs r" 0 "iov_cnt r" "writes os" "[]"]] r(2-4)
  obtain s wire where s: "send_request (writes os) 0 (iov_cnt r) (iovs r) [] = Inr (s, wire)" "s \<noteq> Still_sending"
    by (auto simp: window_ok_def request_ok_def iovs_bytes_def request_payload_def [symmetric]
        length_request_payload [unfolded request_ok_def])
  have room: "unat (head ?p) < unat (consumed ?p) + ?n"
  proof -
    have "length (completed_q ?p) < ?n" using usable_unat [OF assms(3) n(1)] tx(3) by simp
    then show ?thesis
      using tx(2) tx_invD(3,4) [OF tx(1)] length_queues [of ?p] by simp
  qed
  from push_complete_refines [OF tx(1,2) room head, of "clock os" e "stats t"] obtain p' st' e' where
    p': "push_complete_tx_timestamp (int ?n) ?p (clock os) e (stats t) = Inr (p', st', e')" "tx_inv ?n p'"
      "completed_q p' = completed_q ?p @ [clock os]" "waiting_q p' = []" by blast
  let ?t2 = "update_conn i count_request (t\<lparr>to_send := r, per_conn_tx_timestamps :=
      (per_conn_tx_timestamps t)[i := p'], stats := st', renv := e'\<rparr>)"
  from ia obtain d e'' where d: "get_ia (acb os) (renv ?t2) = Inr (d, e'')" by blast
  obtain t' where t': "book_sent os (s32 (int (bytes_to_send r))) ?t2 = Inr t'"
    "connections t' = connections ?t2" "per_conn_tx_timestamps t' = per_conn_tx_timestamps ?t2"
    using d by (simp add: book_sent_def)
  have run: "symmetric_issue cfg os i t = Inr ([Request_sent i wire (now os)], At_send, t')"
    using r(1) s p'(1) t'(1) assms(2) idx len n(1)
    by (simp add: symmetric_issue_def take_request_def Let_def update_conn_def)
  have "unat (pending_reqs ?c + 1) = Suc (unat (pending_reqs ?c))"
  proof (rule unat_Suc_nowrap)
    show "Suc (unat (pending_reqs ?c)) < 2 ^ LENGTH(16)"
      using usable_unat [OF assms(3) n(1)] n(2) by simp
  qed
  then have "sym_conn_ok ?n i (count_request ?c) p'"
    using p'(2-4) tx(3) idx inv by (simp add: sym_conn_ok_def count_request_def conn_inv_def)
  then have "sym_inv cfg t'"
    by (rule sym_inv_replace [OF assms(1,2)]) (simp_all add: t'(2,3) update_conn_def)
  with run show ?thesis by blast
qed

subsection \<open>Every step\<close>

fun sym_answers_ok :: "agent_config \<Rightarrow> os_answers \<Rightarrow> tcp_state \<Rightarrow> bool" where
  "sym_answers_ok cfg os (At_send, t) \<longleftrightarrow> sym_send_ok cfg os t"
| "sym_answers_ok cfg os (At_events (ev # evs), t) \<longleftrightarrow>
     ev_in ev \<and> ev_conn ev < length (connections t) \<and> sym_read_ok cfg os (ev_conn ev) t"
| "sym_answers_ok cfg os s \<longleftrightarrow> True"

lemma take_conn_ok:
  assumes "sym_inv cfg t"
  shows "\<exists>c k. take_conn cfg t = Inr (c, t\<lparr>conn_idx := k\<rparr>) \<and>
    (\<forall>i. c = Some i \<longrightarrow> i < length (connections t) \<and> conn_usable cfg (connections t ! i))"
  using assms pick_conn_eq [of cfg "length (connections t)" "connections t" "conn_idx t"]
  by (auto simp: sym_inv_def take_conn_def)

lemma symmetric_event_ok:
  assumes "sym_inv cfg t" and "sym_answers_ok cfg os (At_events (ev # evs), t)"
  shows "\<exists>obs pt t'. symmetric_event cfg os ev evs t = Inr (obs, pt, t') \<and> sym_inv cfg t'"
proof -
  let ?i = "ev_conn ev"
  have a: "ev_in ev" "?i < length (connections t)" "sym_read_ok cfg os ?i t" using assms(2) by simp_all
  from receive_on_ok [OF assms(1) a(2,3)] show ?thesis
  proof (elim disjE exE conjE)
    fix obs go_on t' assume "receive_on cfg ?i (received os) t = Inr (Inl (obs, go_on, t'))" "sym_inv cfg t'"
    with a(1) show ?thesis by (simp add: symmetric_event_def)
  next
    fix b r t' assume r: "receive_on cfg ?i (received os) t = Inr (Inr (to_brp (b, r), t'))" "sym_inv cfg t'"
      "r < 2 ^ 16" "length (connections t') = length (connections t)"
      "per_conn_tx_timestamps t' = per_conn_tx_timestamps t" "r \<le> unat (pending_reqs (connections t' ! ?i))"
    have u: "unat (of_nat r :: u64) = r" using r(3) by (intro unat_of_nat_id) simp
    show ?thesis
    proof (cases "r = 0")
      case True
      with r(1,2) a(1) show ?thesis by (simp add: symmetric_event_def to_brp_def)
    next
      case False
      have "\<exists>t2. measure_responses cfg os ?i (to_brp (b, r)) (clock os) t' = Inr t2 \<and> sym_inv cfg t2"
        using False r a(2,3) u
        by (intro measure_responses_ok [OF r(2) _ _ r(6)]) (simp_all add: sym_read_ok_def)
      moreover have "(of_nat r :: u64) \<noteq> 0" using False u by (metis unat_0)
      ultimately show ?thesis using r(1) a(1) by (auto simp: symmetric_event_def)
    qed
  qed
qed

lemma echo1_sym_inv: "sym_inv echo1_config echo1_start"
  using init_pending_inv [of 1] open_connection_inv [of 5 0]
  by (simp add: sym_inv_def sym_conn_ok_def echo1_simps init_pending_def completed_q_def waiting_q_def)


subsection \<open>The start of the loop\<close>

lemma open_sockets_ok:
  assumes "target_count cfg = int (length (targets cfg))" and "targets cfg \<noteq> []"
  shows "(\<forall>j < n. snd (sockets (i + j)) = None) \<Longrightarrow>
    open_sockets cfg calls mk sockets i n =
      Inr (map (\<lambda>j. targets cfg ! ((i + j) mod length (targets cfg))) [0..<n],
           Some (map (\<lambda>j. mk (fst (sockets (i + j))) (i + j)) [0..<n]))"
proof (induction n arbitrary: i)
  case 0
  then show ?case by simp
next
  case (Suc n)
  have "snd (sockets (i + 0)) = None" using Suc.prems by blast
  then obtain s where s: "sockets i = (s, None)" by (cases "sockets i") simp
  have "\<forall>j < n. snd (sockets (Suc i + j)) = None" using Suc.prems by auto
  from Suc.IH [OF this] have rest: "open_sockets cfg calls mk sockets (Suc i) n =
      Inr (map (\<lambda>j. targets cfg ! ((Suc i + j) mod length (targets cfg))) [0..<n],
           Some (map (\<lambda>j. mk (fst (sockets (Suc i + j))) (Suc i + j)) [0..<n]))" .
  have dest: "connection_target cfg i = Inr (targets cfg ! (i mod length (targets cfg)))"
    using assms by (simp add: connection_target_def zmod_int [symmetric])
  show ?case
    using s rest dest by (simp add: map_upt_Suc del: upt_Suc)
qed

text \<open>
  Property C21. When every system call succeeds, a thread's connections go to the configured targets in
  turn, and the symmetric agent enters its loop in a state that satisfies its invariant.
\<close>

theorem symmetric_agent_starts:
  assumes "atype cfg = SYMMETRIC_AGENT" and "conn_per_thread cfg = Inr (int m)" and "0 < m" and "m \<le> 2 ^ 16"
    and "0 < get_max_pending_reqs cfg" and "get_max_pending_reqs cfg < 2 ^ 16"
    and "target_count cfg = int (length (targets cfg))" and "targets cfg \<noteq> []"
    and "\<forall>i < m. snd (sockets i) = None"
  shows "\<exists>t. throughput_start cfg True sockets s0 e =
      Inr (map (\<lambda>i. targets cfg ! (i mod length (targets cfg))) [0..<m], Some t) \<and>
    sym_inv cfg t \<and> next_tx t = s0"
proof -
  let ?cs = "map (\<lambda>i. open_connection (fst (sockets i)) i) [0..<m]"
  let ?rs = "replicate m (init_pending (get_max_pending_reqs cfg))"
  let ?t = "start_thread ?cs ?rs s0 e" and ?n = "nat (get_max_pending_reqs cfg)"
  have "throughput_open_connections cfg True sockets =
      Inr (map (\<lambda>i. targets cfg ! (i mod length (targets cfg))) [0..<m], Some (?cs, ?rs))"
    using open_sockets_ok [OF assms(7,8), of m sockets 0 "throughput_calls cfg" open_connection] assms(1,2,5,9)
    by (simp add: throughput_open_connections_def)
  then have run: "throughput_start cfg True sockets s0 e =
      Inr (map (\<lambda>i. targets cfg ! (i mod length (targets cfg))) [0..<m], Some ?t)"
    by (simp add: throughput_start_def)
  have n: "get_max_pending_reqs cfg = int ?n" "0 < ?n" "?n < 2 ^ 31" using assms(5,6) by simp_all
  have ring: "tx_inv ?n (init_pending (get_max_pending_reqs cfg))"
    "completed_q (init_pending (get_max_pending_reqs cfg)) = []" "waiting_q (init_pending (get_max_pending_reqs cfg)) = []"
    using init_pending_inv [OF n(2,3)] n(1) by (simp_all add: tx_abs_of_def empty_tx_abs_def)
  have "sym_conn_ok ?n i (open_connection (fst (sockets i)) i) (init_pending (get_max_pending_reqs cfg))"
    if "i < m" for i
    using ring open_connection_inv [of "fst (sockets i)" i] that assms(4)
    by (simp add: sym_conn_ok_def open_connection_def unat_of_nat_id)
  then have "sym_inv cfg ?t"
    using assms(2-6) by (simp add: sym_inv_def start_thread_def)
  with run show ?thesis by (auto simp: start_thread_def)
qed

theorem symmetric_agent_starts_witness:
  "\<exists>t. throughput_start (some_config echo1_proto 1 3 4) True (\<lambda>i. (of_nat i + 5, None)) 100 start_env =
      Inr (map (\<lambda>i. \<lparr>ip = 0, port = 0\<rparr>) [0..<3], Some t) \<and> sym_inv (some_config echo1_proto 1 3 4) t \<and> next_tx t = 100"
proof -
  have "\<exists>t. throughput_start (some_config echo1_proto 1 3 4) True (\<lambda>i. (of_nat i + 5, None)) 100 start_env =
      Inr (map (\<lambda>i. targets (some_config echo1_proto 1 3 4) ! (i mod length (targets (some_config echo1_proto 1 3 4))))
        [0..<3], Some t) \<and> sym_inv (some_config echo1_proto 1 3 4) t \<and> next_tx t = 100"
    by (rule symmetric_agent_starts) (simp_all add: some_config_def conn_per_thread_def get_max_pending_reqs_def)
  then show ?thesis by (simp add: some_config_def)
qed

end
