(* ===== verification/Tls.thy ===== *)
theory Tls
  imports Tcp_Safety
begin

section \<open>The TLS transport (\<open>agents/tp_ssl.c\<close>)\<close>

text \<open>
  Only the symmetric agent is implemented. A TLS connection is a TCP connection whose bytes go
  through the SSL library: a write gives the library a whole request, a read gets decrypted bytes.
  While the library keeps its promises every step of the TLS loop is a step of the TCP loop.
\<close>

text \<open>\<open>wbuf_size\<close> is the size of the local buffer into which a request is copied.\<close>

record tls_thread =
  tls_tcp :: tcp_thread
  wbuf_size :: u64

type_synonym tls_result = "(observation list \<times> loop_point \<times> tls_thread) result"

subsection \<open>The SSL library\<close>

text \<open>The settings of the context that all connections share; \<open>None\<close> is the -1 of a context that cannot be made.\<close>

record ssl_context =
  min_tls12 :: bool
  verify_peer :: bool
  session_cache :: bool

definition ssl_init :: "bool \<Rightarrow> ssl_context option" where
  "ssl_init makes_ctx =
     (if makes_ctx then Some \<lparr>min_tls12 = True, verify_peer = False, session_cache = False\<rparr> else None)"

text \<open>What the library answers when a connection is made.\<close>

record ssl_answers =
  ssl_new :: bool
  ssl_set_fd :: int
  ssl_connect :: int
  ssl_is_init_finished :: int

definition ssl_init_connection :: "ssl_answers \<Rightarrow> int result" where
  "ssl_init_connection a =
     bindE (assertE (ssl_new a)) (\<lambda>_.
     bindE (assertE (ssl_set_fd a = 1)) (\<lambda>_.
       if ssl_connect a \<le> 0 then Inr (- 1)
       else bindE (assertE (ssl_is_init_finished a = 1)) (\<lambda>_. Inr 0)))"

subsection \<open>Opening the connections\<close>

text \<open>The calls after the handshake, which is made on the still blocking socket.\<close>

definition tls_calls :: "agent_config \<Rightarrow> setup_call list" where
  "tls_calls cfg =
     [Set_nonblocking, Set_sndbuf, Set_rcvbuf] @
     (if atype cfg = SYMMETRIC_NIC_TIMESTAMP_AGENT then [Bind_to_device, Enable_timestamping] else []) @
     [Set_nodelay, Set_linger, Epoll_add]"

text \<open>The loop over the connections; \<open>answers\<close> are those of the kernel, \<open>ssl\<close> those of the library.\<close>

fun tls_open_sockets ::
  "agent_config \<Rightarrow> (nat \<Rightarrow> ssl_answers) \<Rightarrow> socket_answers \<Rightarrow> nat \<Rightarrow> nat \<Rightarrow>
   (host_tuple list \<times> tcp_connection list option) result" where
  "tls_open_sockets cfg ssl answers i 0 = Inr ([], Some [])"
| "tls_open_sockets cfg ssl answers i (Suc n) =
     (let (sock, failing) = answers i in
      if failing = Some Socket then Inr ([], None)
      else bindE (connection_target cfg i) (\<lambda>dest.
        if failing = Some Connect then Inr ([dest], None)
        else bindE (ssl_init_connection (ssl i)) (\<lambda>r.
          if r \<noteq> 0 then Inr ([dest], None)
          else if failing = Some Set_linger then Inl ExitFail
          else if \<exists>c \<in> set (tls_calls cfg). failing = Some c then Inr ([dest], None)
          else bindE (tls_open_sockets cfg ssl answers (Suc i) n) (\<lambda>(dests, conns).
            Inr (dest # dests, map_option (\<lambda>cs. open_connection sock i # cs) conns)))))"

definition tls_open_connections ::
  "agent_config \<Rightarrow> bool \<Rightarrow> (nat \<Rightarrow> ssl_answers) \<Rightarrow> socket_answers \<Rightarrow>
   (host_tuple list \<times> (tcp_connection list \<times> pending_tx_timestamps list) option) result" where
  "tls_open_connections cfg epoll_ok ssl answers =
     (if \<not> epoll_ok then Inr ([], None)
      else
        bindE (conn_per_thread cfg) (\<lambda>n.
        bindE (assertE (0 \<le> n)) (\<lambda>_.
        let stamped = atype cfg \<in> {SYMMETRIC_NIC_TIMESTAMP_AGENT, SYMMETRIC_AGENT} in
        bindE (assertE (stamped \<and> 0 < n \<longrightarrow> 0 \<le> get_max_pending_reqs cfg)) (\<lambda>_.
        let rings = if stamped then replicate (nat n) (init_pending (get_max_pending_reqs cfg)) else [] in
        bindE (tls_open_sockets cfg ssl answers 0 (nat n)) (\<lambda>(dests, conns).
          Inr (dests, map_option (\<lambda>cs. (cs, rings)) conns))))))"

text \<open>The functions of the other agents are not implemented and end in an assertion. \<open>None\<close>: the function returns.\<close>

definition tls_start ::
  "agent_config \<Rightarrow> bool \<Rightarrow> (nat \<Rightarrow> ssl_answers) \<Rightarrow> socket_answers \<Rightarrow> int \<Rightarrow> rand_env \<Rightarrow> (host_tuple list \<times> tls_thread option) result" where
  "tls_start cfg epoll_ok ssl answers time_ns e =
     bindE (tls_open_connections cfg epoll_ok ssl answers) (\<lambda>(dests, opened).
       Inr (dests, map_option (\<lambda>(conns, rings).
         \<lparr>tls_tcp = start_thread conns rings time_ns e, wbuf_size = 512\<rparr>) opened))"

definition tls_main ::
  "agent_config \<Rightarrow> bool \<Rightarrow> (nat \<Rightarrow> ssl_answers) \<Rightarrow> socket_answers \<Rightarrow> int \<Rightarrow> rand_env \<Rightarrow>
   (host_tuple list \<times> tls_thread option) result" where
  "tls_main cfg epoll_ok ssl answers time_ns e =
     (if atype cfg = SYMMETRIC_AGENT then tls_start cfg epoll_ok ssl answers time_ns e else Inl AssertFail)"

text \<open>The table of the transport; a context that cannot be made gives a null pointer.\<close>

definition init_tls ::
  "bool \<Rightarrow> bool \<Rightarrow>
   (agent_config \<Rightarrow> bool \<Rightarrow> (nat \<Rightarrow> ssl_answers) \<Rightarrow> socket_answers \<Rightarrow> int \<Rightarrow> rand_env \<Rightarrow>
    (host_tuple list \<times> tls_thread option) result) option" where
  "init_tls malloc_ok makes_ctx =
     (if \<not> malloc_ok then None else case ssl_init makes_ctx of None \<Rightarrow> None | Some ctx \<Rightarrow> Some tls_main)"

subsection \<open>Sending\<close>

text \<open>
  The buffer grows to the request's size; the comparison is unsigned. A negative sum asks
  \<open>malloc\<close> for a size it cannot give.
\<close>

definition fit_wbuf :: "int \<Rightarrow> u64 \<Rightarrow> u64 result" where
  "fit_wbuf want sz =
     (if want < 0 then Inl NullDeref
      else Inr (if sz < of_int want then of_int want else sz))"

text \<open>\<open>SSL_write\<close> takes all of the request or the assertion fails; an error counts as none.\<close>

definition ssl_write :: "os_answers \<Rightarrow> bytes \<Rightarrow> bytes result" where
  "ssl_write os data =
     (case writes os of
        [] \<Rightarrow> Inl Diverges
      | Wr n # _ \<Rightarrow> bindE (assertE (length data \<le> n)) (\<lambda>_. Inr data)
      | _ \<Rightarrow> Inl AssertFail)"

definition tls_issue :: "agent_config \<Rightarrow> os_answers \<Rightarrow> nat \<Rightarrow> tls_thread \<Rightarrow> tls_result" where
  "tls_issue cfg os i s =
     bindE (take_request cfg (tls_tcp s)) (\<lambda>(r, t).
     let want = s32 (int (bytes_to_send r)); wbuf = iovs_bytes (iovs r) 0 (iov_cnt r) in
     bindE (fit_wbuf want (wbuf_size s)) (\<lambda>sz.
     if unat sz < length wbuf then Inl OutOfBounds
     else
       bindE (assertE (int (length wbuf) = want)) (\<lambda>_.
       bindE (ssl_write os wbuf) (\<lambda>wire.
       let k = unat (idx (connections t ! i)) in
       if length (per_conn_tx_timestamps t) \<le> k then Inl OutOfBounds
       else
         bindE (push_complete_tx_timestamp (get_max_pending_reqs cfg) (per_conn_tx_timestamps t ! k)
                  (clock os) (renv t) (stats t)) (\<lambda>(p, st, e).
         let t = t\<lparr>per_conn_tx_timestamps := (per_conn_tx_timestamps t)[k := p], stats := st, renv := e\<rparr> in
         bindE (book_sent os want (update_conn i count_request t)) (\<lambda>t.
           Inr ([Request_sent i wire (now os)], At_send, \<lparr>tls_tcp = t, wbuf_size = sz\<rparr>)))))))"

subsection \<open>Receiving\<close>

text \<open>
  \<open>SSL_read\<close>: \<open>None\<close> is \<open>SSL_ERROR_WANT_READ\<close>, and the loop goes on with the next event; no bytes
  is the end of the stream; a negative size is an error.
\<close>

definition tls_receive :: "agent_config \<Rightarrow> tcp_connection \<Rightarrow> recv_ret \<Rightarrow> rx_outcome option result" where
  "tls_receive cfg conn r =
     (case r of
        Recv_error \<Rightarrow> Inr (Some Rx_return)
      | Recv_block \<Rightarrow> Inr None
      | Recv avail \<Rightarrow>
          let off = unat (buffer_idx conn); room = int MAX_PAYLOAD - int off; data = take (nat room) avail in
          if room < 0 then Inr (Some Rx_return)
          else if data = [] then Inr (Some (Rx_closed (conn\<lparr>closed := 1\<rparr>)))
          else if length (buffer conn) < off + length data then Inl OutOfBounds
          else
            let conn = conn\<lparr>buffer := take off (buffer conn) @ data @ drop (off + length data) (buffer conn),
                            buffer_idx := buffer_idx conn + of_nat (length data)\<rparr> in
            bindE (handle_response cfg conn) (\<lambda>(conn, brp). Inr (Some (Rx_data conn brp))))"

text \<open>Every response must have its time stamp in the ring already; the last one is measured.\<close>

fun pop_stamps ::
  "int \<Rightarrow> nat \<Rightarrow> timestamp_info option \<Rightarrow> pending_tx_timestamps \<Rightarrow>
   (timestamp_info option \<times> pending_tx_timestamps) result" where
  "pop_stamps m 0 info p = Inr (info, p)"
| "pop_stamps m (Suc n) info p =
     bindE (pop_pending_tx_timestamps m p) (\<lambda>(i, p).
     bindE (assertE (i \<noteq> None)) (\<lambda>_. pop_stamps m n i p))"

definition tls_measure ::
  "agent_config \<Rightarrow> os_answers \<Rightarrow> nat \<Rightarrow> byte_req_pair \<Rightarrow> tcp_thread \<Rightarrow> tcp_thread result" where
  "tls_measure cfg os i brp t =
     (let t = update_conn i (count_responses brp) t; k = unat (idx (connections t ! i)) in
      if length (per_conn_tx_timestamps t) \<le> k then Inl OutOfBounds
      else
        bindE (pop_stamps (get_max_pending_reqs cfg) (unat (brp_reqs brp)) None (per_conn_tx_timestamps t ! k)) (\<lambda>(info, p).
        let t = t\<lparr>per_conn_tx_timestamps := (per_conn_tx_timestamps t)[k := p]\<rparr> in
        case info of
          None \<Rightarrow> Inl NullDeref
        | Some info \<Rightarrow>
            (case timespec_diff (Some (clock os)) (Some (time info)) of
               None \<Rightarrow> Inl AssertFail
             | Some latency \<Rightarrow>
                 bindE (add_latency_sample (acb os) (latency_ns latency) (Some (time info)) (stats t)) (\<lambda>st.
                   Inr (book_received os brp (t\<lparr>stats := st\<rparr>))))))"

definition tls_event ::
  "agent_config \<Rightarrow> os_answers \<Rightarrow> epoll_event \<Rightarrow> epoll_event list \<Rightarrow> tls_thread \<Rightarrow> tls_result" where
  "tls_event cfg os ev evs s =
     (let i = ev_conn ev; t = tls_tcp s in
      if length (connections t) \<le> i then Inl OutOfBounds
      else if \<not> ev_in ev then Inl AssertFail
      else bindE (tls_receive cfg (connections t ! i) (received os)) (\<lambda>out.
        case out of
          None \<Rightarrow> Inr ([], At_events evs, s)
        | Some Rx_return \<Rightarrow> Inr ([], Returned, s)
        | Some (Rx_closed c) \<Rightarrow>
            Inr ([Connection_closed i], At_events evs, s\<lparr>tls_tcp := update_conn i (\<lambda>_. c) t\<rparr>)
        | Some (Rx_data c brp) \<Rightarrow>
            let t = update_conn i (\<lambda>_. c) t in
            if brp_reqs brp = 0 then Inr ([], At_events evs, s\<lparr>tls_tcp := t\<rparr>)
            else bindE (tls_measure cfg os i brp t) (\<lambda>t.
              Inr ([Responses i brp], At_events evs, s\<lparr>tls_tcp := t\<rparr>))))"

subsection \<open>The loops\<close>

fun symmetric_ssl_step :: "agent_config \<Rightarrow> os_answers \<Rightarrow> loop_point \<times> tls_thread \<Rightarrow> tls_result" where
  "symmetric_ssl_step cfg os (At_head, s) =
     bindE (loop_head os (tls_tcp s)) (\<lambda>(obs, pt, t). Inr (obs, pt, s\<lparr>tls_tcp := t\<rparr>))"
| "symmetric_ssl_step cfg os (At_send, s) =
     (if next_tx (tls_tcp s) \<le> now os then
        bindE (take_conn cfg (tls_tcp s)) (\<lambda>(c, t).
          case c of None \<Rightarrow> Inr ([], At_poll, s\<lparr>tls_tcp := t\<rparr>) | Some i \<Rightarrow> tls_issue cfg os i (s\<lparr>tls_tcp := t\<rparr>))
      else Inr ([], At_poll, s))"
| "symmetric_ssl_step cfg os (At_poll, s) = Inr ([], At_events (polled os), s)"
| "symmetric_ssl_step cfg os (At_events [], s) = Inr ([], At_head, s)"
| "symmetric_ssl_step cfg os (At_events (ev # evs), s) = tls_event cfg os ev evs s"
| "symmetric_ssl_step cfg os (pt, s) = Inr ([], pt, s)"

text \<open>The table of \<open>init_tls\<close>: the other three loops are not implemented and fail an assertion.\<close>

definition tls_step :: "agent_config \<Rightarrow> os_answers \<Rightarrow> loop_point \<times> tls_thread \<Rightarrow> tls_result" where
  "tls_step cfg os s =
     (case atype cfg of
        SYMMETRIC_AGENT \<Rightarrow> symmetric_ssl_step cfg os s
      | _ \<Rightarrow> Inl AssertFail)"

subsection \<open>A TLS step is a TCP step\<close>

lemma pop_stamps_match:
  "pop_stamps m n info p = Inr (info', p') \<Longrightarrow> match_responses m n q info (p, st, e) = Inr (info', q, p', st, e)"
proof (induction n arbitrary: info p)
  case (Suc n)
  then obtain i p1 where "pop_pending_tx_timestamps m p = Inr (Some i, p1)" "pop_stamps m n (Some i) p1 = Inr (info', p')"
    by (auto simp: bindE_eq_Inr)
  with Suc.IH show ?case by simp
qed simp

lemma match_pop_stamps:
  "tx_inv n p \<Longrightarrow> r \<le> length (completed_q p) \<Longrightarrow> \<exists>info' p'. pop_stamps (int n) r info p = Inr (info', p')"
proof (induction r arbitrary: p info)
  case (Suc r)
  then obtain t ts where ts: "completed_q p = t # ts" by (cases "completed_q p") simp_all
  with pop_pending_refines [OF Suc.prems(1)] obtain i p1 where
    p1: "pop_pending_tx_timestamps (int n) p = Inr (Some i, p1)" "tx_inv n p1" "completed_q p1 = ts" by auto
  have "r \<le> length (completed_q p1)" using Suc.prems(2) ts p1(3) by simp
  from Suc.IH [OF p1(2) this, of "Some i"] p1(1) show ?case by auto
qed simp

text \<open>With a time stamp for every response, the TCP loop has nothing to wait for.\<close>

lemma tls_measure_tcp:
  assumes "i < length (connections t)" and "unat (idx (connections t ! i)) < length (per_conn_tx_timestamps t)"
    and "pop_stamps (get_max_pending_reqs cfg) (unat (brp_reqs brp)) None
      (per_conn_tx_timestamps t ! unat (idx (connections t ! i))) = Inr (info, p)"
  shows "tls_measure cfg os i brp t = measure_responses cfg os i brp (clock os) t"
proof -
  define u where "u = update_conn i (count_responses brp) t"
  have u: "idx (connections u ! i) = idx (connections t ! i)" "per_conn_tx_timestamps u = per_conn_tx_timestamps t"
    using assms(1) by (simp_all add: u_def update_conn_def count_responses_def)
  have id: "u\<lparr>per_conn_tx_timestamps := x, stats := stats u, renv := renv u\<rparr> = u\<lparr>per_conn_tx_timestamps := x\<rparr>" for x
    by (cases u) simp
  show ?thesis
    using assms(2,3) pop_stamps_match [OF assms(3), of "errqueue os" "stats u" "renv u"]
    by (cases info)
      (simp_all add: tls_measure_def measure_responses_def Let_def u_def [symmetric] u id split: option.splits)
qed

lemma tls_receive_tcp:
  assumes "conn_inv c" and "r \<noteq> Recv_block"
  shows "tls_receive cfg c r = bindE (tcp_receive cfg c r) (\<lambda>out. Inr (Some out))"
proof (cases r)
  case (Recv avail)
  have "unat (buffer_idx c) < MAX_PAYLOAD" using assms(1) by (simp add: conn_inv_def)
  then have n: "nat (int MAX_PAYLOAD - int (unat (buffer_idx c))) = size_of_int (int MAX_PAYLOAD - int (unat (buffer_idx c)))"
    "\<not> int MAX_PAYLOAD - int (unat (buffer_idx c)) < 0"
    using room_eq [of "unat (buffer_idx c)"] by (simp_all add: nat_diff_distrib del: of_nat_unat)
  show ?thesis
    using Recv n by (simp add: tls_receive_def tcp_receive_def Let_def bindE_assoc split_def del: of_nat_unat)
qed (use assms in \<open>simp_all add: tls_receive_def tcp_receive_def\<close>)
definition in_tls :: "tls_thread \<Rightarrow> tcp_result \<Rightarrow> tls_result" where
  "in_tls s res = bindE res (\<lambda>(obs, pt, t). Inr (obs, pt, s\<lparr>tls_tcp := t\<rparr>))"

lemma tls_event_tcp:
  assumes "sym_inv cfg (tls_tcp s)" and "ev_in ev" and "ev_conn ev < length (connections (tls_tcp s))"
    and "sym_read_ok cfg os (ev_conn ev) (tls_tcp s)"
  shows "tls_event cfg os ev evs s = in_tls s (symmetric_event cfg os ev evs (tls_tcp s))"
proof -
  let ?i = "ev_conn ev" and ?t = "tls_tcp s"
  let ?c = "connections ?t ! ?i" and ?n = "nat (get_max_pending_reqs cfg)"
  have inv: "conn_inv ?c" and nb: "received os \<noteq> Recv_block"
    using assms(1,3,4) by (auto simp: sym_inv_def sym_conn_ok_def sym_read_ok_def)
  note rcv = tls_receive_tcp [OF inv nb, of cfg]
  from receive_on_ok [OF assms(1,3,4)] show ?thesis
  proof (elim disjE exE conjE)
    fix obs go_on t' assume r: "receive_on cfg ?i (received os) ?t = Inr (Inl (obs, go_on, t'))"
    then obtain out where "tcp_receive cfg ?c (received os) = Inr out"
      by (auto simp: receive_on_def bindE_eq_Inr split: if_splits)
    with r show ?thesis
      using assms(2,3) rcv
      by (cases out) (simp_all add: tls_event_def symmetric_event_def in_tls_def Let_def receive_on_def)
  next
    fix b r t' assume r: "receive_on cfg ?i (received os) ?t = Inr (Inr (to_brp (b, r), t'))" "sym_inv cfg t'"
      "r < 2 ^ 16" "length (connections t') = length (connections ?t)"
      "per_conn_tx_timestamps t' = per_conn_tx_timestamps ?t" "r \<le> unat (pending_reqs (connections t' ! ?i))"
    then obtain out where out: "tcp_receive cfg ?c (received os) = Inr out"
      by (auto simp: receive_on_def bindE_eq_Inr split: if_splits)
    with r(1) assms(3) obtain c where c: "tcp_receive cfg ?c (received os) = Inr (Rx_data c (to_brp (b, r)))"
      "t' = update_conn ?i (\<lambda>_. c) ?t"
      by (cases out) (auto simp: receive_on_def)
    have ok: "sym_conn_ok ?n ?i (connections t' ! ?i) (per_conn_tx_timestamps t' ! ?i)" "get_max_pending_reqs cfg = int ?n"
      "length (per_conn_tx_timestamps t') = length (connections t')"
      using r(2,4) assms(3) by (auto simp: sym_inv_def)
    have u: "unat (brp_reqs (to_brp (b, r))) = r" using r(3) by (simp add: to_brp_def unat_of_nat_id)
    from match_pop_stamps [of ?n "per_conn_tx_timestamps t' ! ?i" r None] ok(1) r(6)
    obtain info p where "pop_stamps (int ?n) r None (per_conn_tx_timestamps t' ! ?i) = Inr (info, p)"
      by (auto simp: sym_conn_ok_def)
    then have m: "tls_measure cfg os ?i (to_brp (b, r)) t' = measure_responses cfg os ?i (to_brp (b, r)) (clock os) t'"
      using ok r(4) assms(3) u by (intro tls_measure_tcp) (auto simp: sym_conn_ok_def)
    show ?thesis
      using r(1) assms(2,3) rcv c m
      by (simp add: tls_event_def symmetric_event_def in_tls_def Let_def bindE_assoc)
  qed
qed
text \<open>When the library makes every connection the TLS agent opens those the TCP agent would.\<close>

lemma ssl_init_connection_finished:
  "ssl_init_connection a = Inr 0 \<longleftrightarrow>
     ssl_new a \<and> ssl_set_fd a = 1 \<and> 0 < ssl_connect a \<and> ssl_is_init_finished a = 1"
  by (auto simp: ssl_init_connection_def bindE_eq_Inr split: if_splits)

lemma tls_open_sockets_tcp:
  assumes "tls_open_sockets cfg ssl answers i n = Inr (dests, Some conns)"
  shows "open_sockets cfg (throughput_calls cfg) open_connection answers i n = Inr (dests, Some conns) \<and>
    (\<forall>k < n. ssl_init_connection (ssl (i + k)) = Inr 0)"
  using assms
proof (induction n arbitrary: i dests conns)
  case (Suc n)
  obtain sock failing where a: "answers i = (sock, failing)" by (cases "answers i")
  with Suc.prems obtain dest ds cs where
    d: "connection_target cfg i = Inr dest" "ssl_init_connection (ssl i) = Inr 0" "failing \<noteq> Some Set_linger"
      "\<forall>c \<in> set (tls_calls cfg). failing \<noteq> Some c" "failing \<noteq> Some Socket" "failing \<noteq> Some Connect"
    and t: "tls_open_sockets cfg ssl answers (Suc i) n = Inr (ds, Some cs)"
    and r: "dests = dest # ds" "conns = open_connection sock i # cs"
    by (auto simp: bindE_eq_Inr split: if_splits)
  have "\<forall>c \<in> set (throughput_calls cfg). failing \<noteq> Some c" using d(4,6) by (auto simp: tls_calls_def throughput_calls_def)
  then have "open_sockets cfg (throughput_calls cfg) open_connection answers i (Suc n) = Inr (dests, Some conns)"
    using Suc.IH [OF t] a d r by (auto dest: set_takeWhileD)
  moreover have "\<forall>k < Suc n. ssl_init_connection (ssl (i + k)) = Inr 0"
    using Suc.IH [OF t] d(2) by (auto simp: less_Suc_eq_0_disj)
  ultimately show ?case by blast
qed simp

lemma tls_open_connections_tcp:
  assumes "tls_open_connections cfg ok ssl answers = Inr (dests, Some r)"
  shows "throughput_open_connections cfg ok answers = Inr (dests, Some r)"
proof -
  let ?stamped = "atype cfg \<in> {SYMMETRIC_NIC_TIMESTAMP_AGENT, SYMMETRIC_AGENT}"
  from assms have ok: "ok" by (simp add: tls_open_connections_def split: if_splits)
  with assms obtain n cs where n: "conn_per_thread cfg = Inr n" "0 \<le> n" "?stamped \<and> 0 < n \<longrightarrow> 0 \<le> get_max_pending_reqs cfg"
    and t: "tls_open_sockets cfg ssl answers 0 (nat n) = Inr (dests, Some cs)"
    and r: "r = (cs, if ?stamped then replicate (nat n) (init_pending (get_max_pending_reqs cfg)) else [])"
    unfolding tls_open_connections_def Let_def
    by (simp only: bindE_eq_Inr assertE_eq if_False not_True_eq_False split_paired_Ex prod.case option.map_disc_iff) auto
  show ?thesis
    unfolding throughput_open_connections_def Let_def using ok n r tls_open_sockets_tcp [OF t] by (simp add: assertE_def)
qed

lemma tls_start_tcp:
  assumes "tls_start cfg ok ssl answers s0 e = Inr (dests, Some s)"
  shows "throughput_start cfg ok answers s0 e = Inr (dests, Some (tls_tcp s)) \<and> wbuf_size s = 512"
proof -
  from assms obtain conns rings where
    "tls_open_connections cfg ok ssl answers = Inr (dests, Some (conns, rings))"
    and s: "s = \<lparr>tls_tcp = start_thread conns rings s0 e, wbuf_size = 512\<rparr>"
    by (auto simp: tls_start_def bindE_eq_Inr)
  from tls_open_connections_tcp [OF this(1)] s show ?thesis by (simp add: throughput_start_def)
qed

text \<open>What \<open>SSL_write\<close> promises: it takes the whole request.\<close>

definition tls_write_ok :: "agent_config \<Rightarrow> os_answers \<Rightarrow> tcp_thread \<Rightarrow> bool" where
  "tls_write_ok cfg os t \<longleftrightarrow>
     (\<exists>r e n. prepare_request cfg (renv t) (to_send t) = Inr (r, e) \<and> bytes_to_send r < 2 ^ 31 \<and>
        writes os = [Wr n] \<and> bytes_to_send r \<le> n)"

lemma fit_wbuf_fits:
  "n < 2 ^ 31 \<Longrightarrow> \<exists>sz'. fit_wbuf (int n) sz = Inr sz' \<and> n \<le> unat sz' \<and> sz \<le> sz'"
  by (auto simp: fit_wbuf_def word_less_nat_alt word_le_nat_alt unat_of_nat_id not_less)

lemma tls_issue_tcp:
  assumes "sym_send_ok cfg os (tls_tcp s)" and "tls_write_ok cfg os (tls_tcp s)"
  shows "\<exists>sz. wbuf_size s \<le> sz \<and>
    tls_issue cfg os i s = in_tls (s\<lparr>wbuf_size := sz\<rparr>) (symmetric_issue cfg os i (tls_tcp s))"
proof -
  let ?t = "tls_tcp s"
  from assms obtain r e n where r: "prepare_request cfg (renv ?t) (to_send ?t) = Inr (r, e)" "request_ok r"
    "0 < bytes_to_send r" "bytes_to_send r < 2 ^ 31" "writes os = [Wr n]" "bytes_to_send r \<le> n"
    unfolding sym_send_ok_def tls_write_ok_def by fastforce
  let ?data = "iovs_bytes (iovs r) 0 (iov_cnt r)"
  have len: "length ?data = bytes_to_send r" and win: "window_ok (iovs r) 0 (iov_cnt r)"
    using length_request_payload [OF r(2)] r(2)
    by (simp_all add: iovs_bytes_def request_payload_def window_ok_def request_ok_def)
  from sends_window_complete [OF send_request_contract [OF win], of "writes os" "[]"] r(3,5,6) len
  obtain m where m: "send_request [Wr n] 0 (iov_cnt r) (iovs r) [] = Inr (Sent_all m, ?data)"
    by (auto simp: taken_def)
  have s32: "s32 (int (bytes_to_send r)) = int (bytes_to_send r)" using r(4) by (simp add: s32_id)
  from fit_wbuf_fits [OF r(4), of "wbuf_size s"] obtain sz where
    sz: "fit_wbuf (int (bytes_to_send r)) (wbuf_size s) = Inr sz" "bytes_to_send r \<le> unat sz" "wbuf_size s \<le> sz" by blast
  have rec: "s\<lparr>wbuf_size := sz, tls_tcp := t\<rparr> = \<lparr>tls_tcp = t, wbuf_size = sz\<rparr>" for t
    by (cases s) simp
  have "tls_issue cfg os i s = in_tls (s\<lparr>wbuf_size := sz\<rparr>) (symmetric_issue cfg os i ?t)"
    using r s32 len sz(1,2) m bytes_to_send_def [of r, symmetric]
    by (simp add: tls_issue_def symmetric_issue_def take_request_def Let_def ssl_write_def in_tls_def bindE_assoc split_def rec)
  with sz(3) show ?thesis by blast
qed

text \<open>The promises of the outside for a step of the loop.\<close>

fun tls_answers_ok :: "agent_config \<Rightarrow> os_answers \<Rightarrow> loop_point \<times> tls_thread \<Rightarrow> bool" where
  "tls_answers_ok cfg os (At_send, s) \<longleftrightarrow> sym_send_ok cfg os (tls_tcp s) \<and> tls_write_ok cfg os (tls_tcp s)"
| "tls_answers_ok cfg os (At_events (ev # evs), s) \<longleftrightarrow>
     ev_in ev \<and> ev_conn ev < length (connections (tls_tcp s)) \<and>
     (received os = Recv_block \<or> sym_read_ok cfg os (ev_conn ev) (tls_tcp s))"
| "tls_answers_ok cfg os s \<longleftrightarrow> True"


lemma echo1_tls_opens:
  "tls_start echo1_config True (\<lambda>_. \<lparr>ssl_new = True, ssl_set_fd = 1, ssl_connect = 1, ssl_is_init_finished = 1\<rparr>) (\<lambda>_. (5, None)) 100 start_env =
     Inr ([\<lparr>ip = 0, port = 0\<rparr>], Some \<lparr>tls_tcp = echo1_start, wbuf_size = 512\<rparr>)"
  by (simp add: tls_start_def tls_open_connections_def ssl_init_connection_def echo1_start_def echo1_config_def some_config_def
      conn_per_thread_def connection_target_def get_max_pending_reqs_def numeral_eq_Suc)


end
