(* ===== verification/Udp.thy ===== *)
theory Udp
  imports Example_Agent
begin

section \<open>The UDP transport (\<open>agents/tp_udp.c\<close>)\<close>

text \<open>
  One request per socket is in flight at most: a socket is taken when a request is sent on it and
  free again when a datagram arrives. The four loops are step functions as for TCP; every
  datagram must be exactly one batch of whole responses.
\<close>

abbreviation UDP_MAX_PAYLOAD :: nat where "UDP_MAX_PAYLOAD \<equiv> 1500"

record udp_socket =
  sock_fd :: u32
  taken_flag :: u32
  tx_time :: timespec
  rx_time :: timespec
  sock_buffer :: bytes

record udp_thread = loop_thread +
  sockets :: "udp_socket list"
  socket_idx :: u32

type_synonym udp_result = "udp_thread loop_result"
type_synonym udp_state = "loop_point \<times> udp_thread"

subsection \<open>Sockets\<close>

text \<open>\<open>calloc\<close>, then the descriptor; \<open>taken = 0\<close> is stored explicitly.\<close>

definition open_udp_socket :: "u32 \<Rightarrow> nat \<Rightarrow> udp_socket" where
  "open_udp_socket sock i =
     \<lparr>sock_fd = sock, taken_flag = 0, tx_time = zero_ts, rx_time = zero_ts,
      sock_buffer = replicate UDP_MAX_PAYLOAD NUL\<rparr>"

definition udp_latency_calls :: "setup_call list" where
  "udp_latency_calls = [Set_busy_poll, Set_rcvtimeo, Connect]"

definition udp_throughput_calls :: "agent_config \<Rightarrow> setup_call list" where
  "udp_throughput_calls cfg =
     [Set_nonblocking, Set_rcvtimeo] @
     (if atype cfg = SYMMETRIC_NIC_TIMESTAMP_AGENT then [Bind_to_device, Enable_timestamping] else []) @
     [Connect, Epoll_add]"

definition create_latency_sockets ::
  "agent_config \<Rightarrow> socket_answers \<Rightarrow> (host_tuple list \<times> udp_socket list option) result" where
  "create_latency_sockets cfg answers =
     bindE (conn_per_thread cfg) (\<lambda>n.
     bindE (assertE (0 \<le> n)) (\<lambda>_.
       open_sockets cfg udp_latency_calls open_udp_socket answers 0 (nat n)))"

definition create_throughput_socket ::
  "agent_config \<Rightarrow> bool \<Rightarrow> socket_answers \<Rightarrow> (host_tuple list \<times> udp_socket list option) result" where
  "create_throughput_socket cfg epoll_ok answers =
     (if \<not> epoll_ok then Inr ([], None)
      else
        bindE (conn_per_thread cfg) (\<lambda>n.
        bindE (assertE (0 \<le> n)) (\<lambda>_.
          open_sockets cfg (udp_throughput_calls cfg) open_udp_socket answers 0 (nat n))))"

definition udp_thread_at :: "udp_socket list \<Rightarrow> int \<Rightarrow> rand_env \<Rightarrow> udp_thread" where
  "udp_thread_at socks time_ns e =
     \<lparr>next_tx = time_ns, stats = init_per_thread_stats, renv = e, to_send = empty_request, rx_timestamp = None,
      sockets = socks, socket_idx = 0\<rparr>"

text \<open>The state at the head of the loop; \<open>None\<close>: a socket could not be opened and the function returned.\<close>

definition udp_latency_start ::
  "agent_config \<Rightarrow> socket_answers \<Rightarrow> int \<Rightarrow> rand_env \<Rightarrow> (host_tuple list \<times> udp_thread option) result" where
  "udp_latency_start cfg answers time_ns e =
     bindE (create_latency_sockets cfg answers) (\<lambda>(dests, socks).
       Inr (dests, map_option (\<lambda>ss. udp_thread_at ss time_ns e) socks))"

definition udp_throughput_start ::
  "agent_config \<Rightarrow> bool \<Rightarrow> socket_answers \<Rightarrow> int \<Rightarrow> rand_env \<Rightarrow> (host_tuple list \<times> udp_thread option) result" where
  "udp_throughput_start cfg epoll_ok answers time_ns e =
     bindE (create_throughput_socket cfg epoll_ok answers) (\<lambda>(dests, socks).
       Inr (dests, map_option (\<lambda>ss. udp_thread_at ss time_ns e) socks))"

definition update_socket :: "nat \<Rightarrow> (udp_socket \<Rightarrow> udp_socket) \<Rightarrow> udp_thread \<Rightarrow> udp_thread" where
  "update_socket i f t = t\<lparr>sockets := (sockets t)[i := f (sockets t ! i)]\<rparr>"

text \<open>A socket that is not taken is taken; \<open>None\<close> is the null pointer.\<close>

definition get_socket :: "agent_config \<Rightarrow> udp_thread \<Rightarrow> (nat option \<times> udp_thread) result" where
  "get_socket cfg t =
     bindE (conn_per_thread cfg) (\<lambda>n.
       if (of_int n :: u32) = 0 then Inl DivByZero
       else
         let i = unat (socket_idx t mod of_int n); t = t\<lparr>socket_idx := socket_idx t + 1\<rparr> in
         if length (sockets t) \<le> i then Inl OutOfBounds
         else if taken_flag (sockets t ! i) = 0
           then Inr (Some i, update_socket i (\<lambda>s. s\<lparr>taken_flag := 1\<rparr>) t)
         else Inr (None, t))"

subsection \<open>Shared parts\<close>

text \<open>
  A request as one datagram: \<open>None\<close> when the call failed and the function returns, otherwise what
  was sent. A socket that would block fails the assertion.
\<close>

definition send_datagram :: "os_answers \<Rightarrow> request \<Rightarrow> (bytes option) result" where
  "send_datagram os r =
     (let left = s32 (int (bytes_to_send r)) in
      bindE (assertE (left \<le> int UDP_MAX_PAYLOAD)) (\<lambda>_.
      case writes os of
        [] \<Rightarrow> Inl Diverges
      | Wr_error # _ \<Rightarrow> Inr None
      | Wr_block # _ \<Rightarrow> Inl AssertFail
      | Wr n # _ \<Rightarrow>
          let wire = take n (iovs_bytes (iovs r) 0 (iov_cnt r)) in
          bindE (assertE (int (length wire) = left)) (\<lambda>_. Inr (Some wire))))"

text \<open>
  What \<open>recv\<close> leaves in the socket and returns; \<open>None\<close> when the function returns. A receive that
  would block returns -1, which is not an error in the asynchronous loops.
\<close>

definition udp_recv :: "udp_socket \<Rightarrow> recv_ret \<Rightarrow> (udp_socket \<times> int) option" where
  "udp_recv s r =
     (case r of
        Recv_error \<Rightarrow> None
      | Recv_block \<Rightarrow> Some (s, - 1)
      | Recv avail \<Rightarrow>
          let data = take UDP_MAX_PAYLOAD avail in
          Some (s\<lparr>sock_buffer := data @ drop (length data) (sock_buffer s)\<rparr>, int (length data)))"

text \<open>The comparison of \<open>read_res.bytes\<close> with the \<open>int\<close> is unsigned.\<close>

definition udp_process :: "agent_config \<Rightarrow> udp_socket \<Rightarrow> int \<Rightarrow> byte_req_pair result" where
  "udp_process cfg s ret =
     bindE (process_response cfg (sock_buffer s) ret) (\<lambda>brp.
     bindE (assertE (brp_bytes brp = of_int ret)) (\<lambda>_. Inr brp))"

text \<open>A latency sample when both time stamps of the socket are known.\<close>

definition udp_sample ::
  "os_answers \<Rightarrow> udp_socket \<Rightarrow> thread_stats \<Rightarrow> thread_stats result" where
  "udp_sample os s st =
     (case timespec_diff (Some (rx_time s)) (Some (tx_time s)) of
        None \<Rightarrow> Inr st
      | Some latency \<Rightarrow> add_latency_sample (acb os) (latency_ns latency) (Some (tx_time s)) st)"

definition release :: "udp_socket \<Rightarrow> udp_socket" where
  "release s = s\<lparr>taken_flag := 0\<rparr>"

subsection \<open>\<open>throughput_udp_main\<close>\<close>

definition throughput_udp_issue :: "agent_config \<Rightarrow> os_answers \<Rightarrow> nat \<Rightarrow> udp_thread \<Rightarrow> udp_result" where
  "throughput_udp_issue cfg os i t =
     bindE (take_request cfg t) (\<lambda>(r, t).
     bindE (assertE (s32 (int (bytes_to_send r)) \<le> int UDP_MAX_PAYLOAD)) (\<lambda>_.
     let t = sample_tx (clock os) t in
     bindE (send_datagram os r) (\<lambda>sent.
     case sent of
       None \<Rightarrow> Inr ([], Returned, t)
     | Some wire \<Rightarrow>
         bindE (book_sent os (int (length wire)) t) (\<lambda>t. Inr ([Request_sent i wire (now os)], At_send, t)))))"

definition throughput_udp_event ::
  "agent_config \<Rightarrow> os_answers \<Rightarrow> epoll_event \<Rightarrow> epoll_event list \<Rightarrow> udp_thread \<Rightarrow> udp_result" where
  "throughput_udp_event cfg os ev evs t =
     (let i = ev_conn ev in
      if length (sockets t) \<le> i then Inl OutOfBounds
      else if \<not> ev_in ev then Inl AssertFail
      else case udp_recv (sockets t ! i) (received os) of
        None \<Rightarrow> Inr ([], Returned, t)
      | Some (s, ret) \<Rightarrow>
          bindE (udp_process cfg s ret) (\<lambda>brp.
            Inr ([Responses i brp], At_events evs, book_received os brp (update_socket i (\<lambda>_. release s) t))))"

fun throughput_udp_step :: "agent_config \<Rightarrow> os_answers \<Rightarrow> udp_state \<Rightarrow> udp_result" where
  "throughput_udp_step cfg os (At_head, t) = loop_head os t"
| "throughput_udp_step cfg os (At_send, t) =
     (if next_tx t \<le> now os then
        bindE (get_socket cfg t) (\<lambda>(c, t).
          case c of None \<Rightarrow> Inr ([], At_poll, t) | Some i \<Rightarrow> throughput_udp_issue cfg os i t)
      else Inr ([], At_poll, t))"
| "throughput_udp_step cfg os (At_poll, t) = Inr ([], At_events (polled os), t)"
| "throughput_udp_step cfg os (At_events [], t) = Inr ([], At_head, t)"
| "throughput_udp_step cfg os (At_events (ev # evs), t) = throughput_udp_event cfg os ev evs t"
| "throughput_udp_step cfg os (pt, t) = Inr ([], pt, t)"

subsection \<open>\<open>symmetric_udp_main\<close>\<close>

text \<open>The send time is stored before the call; the loop sends at most one request between polls.\<close>

definition symmetric_udp_issue :: "agent_config \<Rightarrow> os_answers \<Rightarrow> nat \<Rightarrow> udp_thread \<Rightarrow> udp_result" where
  "symmetric_udp_issue cfg os i t =
     bindE (take_request cfg t) (\<lambda>(r, t).
     bindE (assertE (s32 (int (bytes_to_send r)) \<le> int UDP_MAX_PAYLOAD)) (\<lambda>_.
     let t = update_socket i (\<lambda>s. s\<lparr>tx_time := clock os\<rparr>) t in
     bindE (send_datagram os r) (\<lambda>sent.
     case sent of
       None \<Rightarrow> Inr ([], Returned, t)
     | Some wire \<Rightarrow>
         let t = sample_tx (clock os)
           (t\<lparr>stats := add_throughput_tx_sample (acb os) (BRP (of_nat (length wire)) 1) (stats t)\<rparr>) in
         bindE (get_ia (acb os) (renv t)) (\<lambda>(ia, e).
           Inr ([Request_sent i wire (now os)], At_poll, t\<lparr>next_tx := next_tx t + ia, renv := e\<rparr>)))))"

definition symmetric_udp_event ::
  "agent_config \<Rightarrow> os_answers \<Rightarrow> epoll_event \<Rightarrow> epoll_event list \<Rightarrow> udp_thread \<Rightarrow> udp_result" where
  "symmetric_udp_event cfg os ev evs t =
     (let i = ev_conn ev in
      if length (sockets t) \<le> i then Inl OutOfBounds
      else if \<not> ev_in ev then Inl AssertFail
      else case udp_recv (sockets t ! i) (received os) of
        None \<Rightarrow> Inr ([], Returned, t)
      | Some (s, ret) \<Rightarrow>
          let s = s\<lparr>rx_time := clock os\<rparr> in
          bindE (udp_process cfg s ret) (\<lambda>brp.
          bindE (udp_sample os s (stats t)) (\<lambda>st.
            Inr ([Responses i brp], At_events evs,
                 book_received os brp (update_socket i (\<lambda>_. release s) (t\<lparr>stats := st\<rparr>))))))"

fun symmetric_udp_step :: "agent_config \<Rightarrow> os_answers \<Rightarrow> udp_state \<Rightarrow> udp_result" where
  "symmetric_udp_step cfg os (At_head, t) = loop_head os t"
| "symmetric_udp_step cfg os (At_send, t) =
     (if next_tx t \<le> now os then
        bindE (get_socket cfg t) (\<lambda>(c, t).
          case c of None \<Rightarrow> Inr ([], At_poll, t) | Some i \<Rightarrow> symmetric_udp_issue cfg os i t)
      else Inr ([], At_poll, t))"
| "symmetric_udp_step cfg os (At_poll, t) = Inr ([], At_events (polled os), t)"
| "symmetric_udp_step cfg os (At_events [], t) = Inr ([], At_head, t)"
| "symmetric_udp_step cfg os (At_events (ev # evs), t) = symmetric_udp_event cfg os ev evs t"
| "symmetric_udp_step cfg os (pt, t) = Inr ([], pt, t)"

subsection \<open>\<open>symmetric_nic_udp_main\<close>\<close>

definition nic_udp_issue :: "agent_config \<Rightarrow> os_answers \<Rightarrow> nat \<Rightarrow> udp_thread \<Rightarrow> udp_result" where
  "nic_udp_issue cfg os i t =
     bindE (take_request cfg t) (\<lambda>(r, t).
     bindE (send_datagram os r) (\<lambda>sent.
     case sent of
       None \<Rightarrow> Inr ([], Returned, t)
     | Some wire \<Rightarrow>
         bindE (book_sent os (int (length wire)) t) (\<lambda>t. Inr ([Request_sent i wire (now os)], At_poll, t))))"

text \<open>The message at the head of the socket's error queue, if any.\<close>

definition next_error :: "os_answers \<Rightarrow> recvmsg_ret" where
  "next_error os = (case errqueue os of [] \<Rightarrow> Recvmsg_block | m # _ \<Rightarrow> m)"

text \<open>
  The local \<open>rx_timestamp\<close> is written by a read that returns bytes, and its seconds are cleared once it was used;
  so are those of the socket's two time stamps.
\<close>

definition clear_sec :: "timespec \<Rightarrow> timespec" where
  "clear_sec t = Timespec 0 (tv_nsec t)"

definition nic_udp_event ::
  "agent_config \<Rightarrow> os_answers \<Rightarrow> epoll_event \<Rightarrow> epoll_event list \<Rightarrow> udp_thread \<Rightarrow> udp_result" where
  "nic_udp_event cfg os ev evs t =
     (let i = ev_conn ev;
          next_event = (\<lambda>t. if 0 < later os - next_tx t then At_head else At_events evs) in
      if length (sockets t) \<le> i then Inl OutOfBounds
      else if ev_in ev then
        (case udp_recv (sockets t ! i) (received os) of
           None \<Rightarrow> Inr ([], Returned, t)
         | Some (s, ret) \<Rightarrow>
             let msg = (if ret = - 1 then Recvmsg_block else Recvmsg (take (nat ret) (sock_buffer s)) (controls os)) in
             bindE (timestamp_recv msg (rx_timestamp t)) (\<lambda>(_, rx).
             case rx of
               None \<Rightarrow> Inl Uninit
             | Some info \<Rightarrow>
                 bindE (assertE (tv_sec (time info) \<noteq> 0)) (\<lambda>_.
                 let s = s\<lparr>rx_time := time info\<rparr> in
                 bindE (udp_process cfg s ret) (\<lambda>brp.
                 bindE (if tv_sec (tx_time s) = 0
                        then bindE (udp_get_tx_timestamp (next_error os) (Some (tx_time s))) (\<lambda>(_, d).
                          Inr (s\<lparr>tx_time := the d\<rparr>))
                        else Inr s) (\<lambda>s.
                 bindE (udp_sample os s (stats t)) (\<lambda>st.
                   let t = book_received os brp (update_socket i (\<lambda>_. release
                         (s\<lparr>tx_time := clear_sec (tx_time s), rx_time := clear_sec (rx_time s)\<rparr>))
                         (t\<lparr>stats := st, rx_timestamp := Some (info\<lparr>time := clear_sec (time info)\<rparr>)\<rparr>)) in
                   Inr ([Responses i brp], next_event t, t)))))))
      else if ev_err ev then
        bindE (udp_get_tx_timestamp (next_error os) None) (\<lambda>(ret, d).
        case (ret = 1 \<and> taken_flag (sockets t ! i) \<noteq> 0, d) of
          (True, Some tx) \<Rightarrow>
            let t = sample_tx tx (update_socket i (\<lambda>s. s\<lparr>tx_time := tx\<rparr>) t) in Inr ([], next_event t, t)
        | _ \<Rightarrow> Inr ([], next_event t, t))
      else Inl AssertFail)"

fun nic_udp_step :: "agent_config \<Rightarrow> os_answers \<Rightarrow> udp_state \<Rightarrow> udp_result" where
  "nic_udp_step cfg os (At_head, t) = loop_head os t"
| "nic_udp_step cfg os (At_send, t) =
     (if next_tx t \<le> now os then
        bindE (get_socket cfg t) (\<lambda>(c, t).
          case c of None \<Rightarrow> Inr ([], At_poll, t) | Some i \<Rightarrow> nic_udp_issue cfg os i t)
      else Inr ([], At_poll, t))"
| "nic_udp_step cfg os (At_poll, t) = Inr ([], At_events (polled os), t)"
| "nic_udp_step cfg os (At_events [], t) = Inr ([], At_head, t)"
| "nic_udp_step cfg os (At_events (ev # evs), t) = nic_udp_event cfg os ev evs t"
| "nic_udp_step cfg os (pt, t) = Inr ([], pt, t)"

subsection \<open>\<open>latency_udp_main\<close>\<close>

text \<open>
  A request, then the blocking receive of its response. Here every failed call ends the function,
  also one that would block (the receive times out after two seconds). As for TCP, \<open>later\<close> is the
  clock read before the request is sent, and the one read after the response was processed.
\<close>

definition latency_udp_issue :: "agent_config \<Rightarrow> os_answers \<Rightarrow> nat \<Rightarrow> udp_thread \<Rightarrow> udp_result" where
  "latency_udp_issue cfg os i t =
     bindE (take_request cfg t) (\<lambda>(r, t).
     bindE (assertE (s32 (int (bytes_to_send r)) \<le> int UDP_MAX_PAYLOAD)) (\<lambda>_.
     if take 1 (writes os) = [Wr_block] then Inr ([], Returned, t)
     else bindE (send_datagram os r) (\<lambda>sent.
     case sent of
       None \<Rightarrow> Inr ([], Returned, t)
     | Some wire \<Rightarrow>
         let t = t\<lparr>stats := add_throughput_tx_sample (acb os) (BRP (of_nat (length wire)) 1) (stats t)\<rparr> in
         Inr ([Request_sent i wire (now os)], At_recv i (later os), t))))"

definition latency_udp_receive :: "agent_config \<Rightarrow> os_answers \<Rightarrow> nat \<Rightarrow> int \<Rightarrow> udp_thread \<Rightarrow> udp_result" where
  "latency_udp_receive cfg os i start t =
     (if length (sockets t) \<le> i then Inl OutOfBounds
      else case udp_recv (sockets t ! i) (received os) of
        None \<Rightarrow> Inr ([], Returned, t)
      | Some (s, ret) \<Rightarrow>
          if ret < 0 then Inr ([], Returned, t)
          else
            bindE (udp_process cfg s ret) (\<lambda>brp.
            let t = book_received os brp t in
            bindE (add_latency_sample (acb os) (later os - start) None (stats t)) (\<lambda>st.
            bindE (get_ia (acb os) (renv t)) (\<lambda>(ia, e).
              Inr ([Responses i brp], At_head,
                   (update_socket i (\<lambda>_. release s) t)\<lparr>stats := st, next_tx := next_tx t + ia, renv := e\<rparr>)))))"

fun latency_udp_step :: "agent_config \<Rightarrow> os_answers \<Rightarrow> udp_state \<Rightarrow> udp_result" where
  "latency_udp_step cfg os (At_head, t) =
     (if \<not> should_load (acb os) then Inr ([], At_head, t\<lparr>next_tx := now os\<rparr>)
      else if now os < next_tx t then Inr ([], At_head, t)
      else bindE (get_socket cfg t) (\<lambda>(c, t).
        case c of None \<Rightarrow> Inr ([], At_head, t) | Some i \<Rightarrow> latency_udp_issue cfg os i t))"
| "latency_udp_step cfg os (At_recv i start, t) = latency_udp_receive cfg os i start t"
| "latency_udp_step cfg os (pt, t) = Inr ([], pt, t)"

text \<open>The table of \<open>init_udp\<close>: the loop the configured agent runs.\<close>

definition udp_step :: "agent_config \<Rightarrow> os_answers \<Rightarrow> udp_state \<Rightarrow> udp_result" where
  "udp_step cfg os s =
     (case atype cfg of
        THROUGHPUT_AGENT \<Rightarrow> throughput_udp_step cfg os s
      | LATENCY_AGENT \<Rightarrow> latency_udp_step cfg os s
      | SYMMETRIC_NIC_TIMESTAMP_AGENT \<Rightarrow> nic_udp_step cfg os s
      | SYMMETRIC_AGENT \<Rightarrow> symmetric_udp_step cfg os s)"

subsection \<open>A socket carries one request at a time\<close>

text \<open>Which sockets are taken, and what a step's observation says about them.\<close>

definition takens :: "udp_thread \<Rightarrow> bool list" where
  "takens t = map (\<lambda>s. taken_flag s \<noteq> 0) (sockets t)"

lemma takens_same [simp]:
  "takens (t\<lparr>stats := st\<rparr>) = takens t" "takens (t\<lparr>renv := e\<rparr>) = takens t"
  "takens (t\<lparr>to_send := r\<rparr>) = takens t" "takens (t\<lparr>next_tx := n\<rparr>) = takens t"
  "takens (t\<lparr>socket_idx := k\<rparr>) = takens t" "takens (t\<lparr>rx_timestamp := rx\<rparr>) = takens t"
  "takens (book_received os brp t) = takens t"
  by (simp_all add: takens_def book_received_def)

lemma takens_sample_tx [simp]: "takens (sample_tx ts t) = takens t"
  by (simp add: sample_tx_def split: prod.split)

lemma takens_update:
  "i < length (sockets t) \<Longrightarrow> takens (update_socket i f t) = (takens t)[i := taken_flag (f (sockets t ! i)) \<noteq> 0]"
  by (simp add: takens_def update_socket_def map_update)

lemma length_takens [simp]: "length (takens t) = length (sockets t)"
  by (simp add: takens_def)

lemma update_socket_sel [simp]:
  "next_tx (update_socket i f t) = next_tx t" "length (sockets (update_socket i f t)) = length (sockets t)"
  by (simp_all add: update_socket_def)

lemma udp_take_request_same: "take_request cfg t = Inr (r, t') \<Longrightarrow> takens t' = takens t \<and> sockets t' = sockets t"
  by (auto simp: take_request_def bindE_eq_Inr)

lemma udp_book_sent_same:
  "book_sent os n t = Inr t' \<Longrightarrow> takens t' = takens t"
  by (auto simp: book_sent_def Let_def bindE_eq_Inr)

lemma udp_recv_taken: "udp_recv s r = Some (s', ret) \<Longrightarrow> taken_flag s' = taken_flag s"
  by (auto simp: udp_recv_def Let_def split: recv_ret.splits)

text \<open>
  A step that sends a request turns a free socket into a taken one, a datagram frees its socket,
  and a step that ends the function leaves at most the chosen socket taken.
\<close>

definition taken_effect :: "observation list \<Rightarrow> loop_point \<Rightarrow> bool list \<Rightarrow> bool list \<Rightarrow> bool" where
  "taken_effect obs pt b b' \<longleftrightarrow>
     (case obs of
        [] \<Rightarrow> b' = b \<or> pt = Returned
      | [Request_sent i w s] \<Rightarrow> i < length b \<and> \<not> b ! i \<and> b' = b[i := True]
      | [Responses i brp] \<Rightarrow> i < length b \<and> b' = b[i := False]
      | _ \<Rightarrow> False)"

lemma get_socket_effect:
  assumes "get_socket cfg t = Inr (c, t')"
  shows "next_tx t' = next_tx t \<and> length (sockets t') = length (sockets t) \<and>
    (case c of None \<Rightarrow> takens t' = takens t
     | Some i \<Rightarrow> i < length (sockets t) \<and> \<not> takens t ! i \<and> takens t' = (takens t)[i := True])"
  using assms
  by (auto simp: get_socket_def Let_def result_iffs takens_update split: if_splits)
    (auto simp: takens_def update_socket_def)

definition udp_step_effect :: "os_answers \<Rightarrow> observation list \<Rightarrow> loop_point \<Rightarrow> udp_thread \<Rightarrow> udp_thread \<Rightarrow> bool" where
  "udp_step_effect os obs pt t t' \<longleftrightarrow> taken_effect obs pt (takens t) (takens t') \<and> schedule_effect os obs t t'"

lemma udp_idle:
  "takens t' = takens t \<Longrightarrow> next_tx t' = next_tx t \<or> \<not> should_load (acb os) \<Longrightarrow> udp_step_effect os [] pt t t'"
  by (simp add: udp_step_effect_def taken_effect_def schedule_effect_def)

lemma udp_returned: "next_tx t' = next_tx t \<Longrightarrow> udp_step_effect os [] Returned t t'"
  by (simp add: udp_step_effect_def taken_effect_def schedule_effect_def)

lemma udp_response:
  "i < length (sockets t) \<Longrightarrow> takens t' = (takens t)[i := False] \<Longrightarrow> next_tx t' = next_tx t \<Longrightarrow>
   udp_step_effect os [Responses i brp] pt t t'"
  by (simp add: udp_step_effect_def taken_effect_def schedule_effect_def)

lemma udp_loop_head: "loop_head os t = Inr (obs, pt, t') \<Longrightarrow> udp_step_effect os obs pt t t'"
  by (auto simp: loop_head_def split: if_splits intro!: udp_idle)

text \<open>Sending: what the three loops do with the socket they took.\<close>

definition issue_effect :: "os_answers \<Rightarrow> nat \<Rightarrow> observation list \<Rightarrow> loop_point \<Rightarrow> udp_thread \<Rightarrow> udp_thread \<Rightarrow> bool" where
  "issue_effect os i obs pt t t' \<longleftrightarrow>
     (obs = [] \<and> pt = Returned \<and> next_tx t' = next_tx t) \<or>
     (\<exists>w e ia e'. obs = [Request_sent i w (now os)] \<and> takens t' = takens t \<and>
        get_ia (acb os) e = Inr (ia, e') \<and> next_tx t' = next_tx t + ia)"

lemma issue_returned: "next_tx t' = next_tx t \<Longrightarrow> issue_effect os i [] Returned t t'"
  by (simp add: issue_effect_def)

lemma issue_sent:
  "get_ia (acb os) e = Inr (ia, e') \<Longrightarrow> takens t' = takens t \<Longrightarrow> next_tx t' = next_tx t + ia \<Longrightarrow>
   issue_effect os i [Request_sent i w (now os)] pt t t'"
  unfolding issue_effect_def by (rule disjI2) blast

lemma issue_booked:
  assumes "book_sent os n t1 = Inr t'" and "takens t1 = takens t" and "next_tx t1 = next_tx t"
  shows "issue_effect os i [Request_sent i w (now os)] pt t t'"
proof -
  from book_sent_next_tx [OF assms(1)] obtain ia e
    where "get_ia (acb os) (renv t1) = Inr (ia, e)" "next_tx t' = next_tx t1 + ia" by blast
  with assms udp_book_sent_same [OF assms(1)] show ?thesis by (auto intro: issue_sent)
qed

lemma udp_sending:
  assumes "get_socket cfg t = Inr (c, t1)" and "next_tx t \<le> now os"
    and "(case c of None \<Rightarrow> Inr ([], At_poll, t1) | Some i \<Rightarrow> issue i t1) = (Inr (obs, pt, t') :: udp_result)"
    and "\<And>i. issue i t1 = Inr (obs, pt, t') \<Longrightarrow> i < length (sockets t1) \<Longrightarrow> issue_effect os i obs pt t1 t'"
  shows "udp_step_effect os obs pt t t'"
proof (cases c)
  case None
  with get_socket_effect [OF assms(1)] assms(3) show ?thesis by (auto intro: udp_idle)
next
  case (Some i)
  note g = get_socket_effect [OF assms(1), unfolded Some option.case]
  from assms(3) Some have "issue i t1 = Inr (obs, pt, t')" by simp
  from assms(4) [OF this] g consider "obs = []" "pt = Returned" "next_tx t' = next_tx t"
    | w e ia e' where "obs = [Request_sent i w (now os)]" "takens t' = takens t1"
      "get_ia (acb os) e = Inr (ia, e')" "next_tx t' = next_tx t + ia" by (auto simp: issue_effect_def)
  then show ?thesis
  proof cases
    case 1
    then show ?thesis by (simp add: udp_returned)
  next
    case 2
    with g assms(2) show ?thesis
      by (auto simp: udp_step_effect_def taken_effect_def schedule_effect_def)
  qed
qed

lemma throughput_udp_issue_effect:
  assumes "throughput_udp_issue cfg os i t = Inr (obs, pt, t')"
  shows "issue_effect os i obs pt t t'"
proof -
  from assms obtain r t1 sent where r: "take_request cfg t = Inr (r, t1)" "send_datagram os r = Inr sent"
    and rest: "(case sent of
       None \<Rightarrow> Inr ([], Returned, sample_tx (clock os) t1)
     | Some wire \<Rightarrow>
         bindE (book_sent os (int (length wire)) (sample_tx (clock os) t1))
           (\<lambda>t. Inr ([Request_sent i wire (now os)], At_send, t))) = Inr (obs, pt, t')"
    by (auto simp: throughput_udp_issue_def Let_def bindE_eq_Inr)
  show ?thesis
    using rest take_request_next_tx [OF r(1)] udp_take_request_same [OF r(1)]
    by (cases sent) (auto simp: bindE_eq_Inr intro: issue_returned issue_booked)
qed

lemma nic_udp_issue_effect:
  assumes "nic_udp_issue cfg os i t = Inr (obs, pt, t')"
  shows "issue_effect os i obs pt t t'"
proof -
  from assms obtain r t1 sent where r: "take_request cfg t = Inr (r, t1)" "send_datagram os r = Inr sent"
    and rest: "(case sent of
       None \<Rightarrow> Inr ([], Returned, t1)
     | Some wire \<Rightarrow>
         bindE (book_sent os (int (length wire)) t1)
           (\<lambda>t. Inr ([Request_sent i wire (now os)], At_poll, t))) = Inr (obs, pt, t')"
    by (auto simp: nic_udp_issue_def bindE_eq_Inr)
  show ?thesis
    using rest take_request_next_tx [OF r(1)] udp_take_request_same [OF r(1)]
    by (cases sent) (auto simp: bindE_eq_Inr intro: issue_returned issue_booked)
qed

lemma symmetric_udp_issue_effect:
  assumes "symmetric_udp_issue cfg os i t = Inr (obs, pt, t')" and "i < length (sockets t)"
  shows "issue_effect os i obs pt t t'"
proof -
  from assms(1) obtain r t1 sent where r: "take_request cfg t = Inr (r, t1)" "send_datagram os r = Inr sent"
    by (auto simp: symmetric_udp_issue_def bindE_eq_Inr Let_def)
  note same = take_request_next_tx [OF r(1)] udp_take_request_same [OF r(1)]
  have "takens (update_socket i (\<lambda>s. s\<lparr>tx_time := clock os\<rparr>) t1) = takens t"
    using same assms(2) by (simp add: takens_update) (simp add: takens_def list_update_same_conv)
  with assms(1) r same show ?thesis
    by (cases sent) (auto simp: symmetric_udp_issue_def Let_def bindE_eq_Inr intro: issue_returned issue_sent)
qed
text \<open>Receiving: what the loops do with the datagram of an event.\<close>

lemma throughput_udp_event_effect:
  "throughput_udp_event cfg os ev evs t = Inr (obs, pt, t') \<Longrightarrow> udp_step_effect os obs pt t t'"
  by (auto simp: throughput_udp_event_def Let_def result_iffs takens_update release_def
      split: if_splits option.splits prod.splits intro!: udp_returned udp_response)

lemma symmetric_udp_event_effect:
  "symmetric_udp_event cfg os ev evs t = Inr (obs, pt, t') \<Longrightarrow> udp_step_effect os obs pt t t'"
  by (auto simp: symmetric_udp_event_def Let_def result_iffs takens_update release_def
      split: if_splits option.splits prod.splits intro!: udp_returned udp_response)

lemma update_socket_same_taken:
  assumes "i < length (sockets t)" and "taken_flag (f (sockets t ! i)) = taken_flag (sockets t ! i)"
  shows "takens (update_socket i f t) = takens t"
  using assms by (simp add: takens_update) (simp add: takens_def list_update_same_conv)

lemma nic_udp_event_effect:
  assumes "nic_udp_event cfg os ev evs t = Inr (obs, pt, t')"
  shows "udp_step_effect os obs pt t t'"
proof (cases "ev_in ev")
  case True
  with assms show ?thesis
    by (auto simp: nic_udp_event_def Let_def result_iffs takens_update release_def
      split: if_splits option.splits prod.splits intro!: udp_returned udp_response)
next
  case False
  with assms show ?thesis
    by (auto simp: nic_udp_event_def Let_def result_iffs update_socket_same_taken
      split: if_splits option.splits prod.splits bool.splits intro!: udp_idle)
qed

text \<open>Every step of the open loops has both effects.\<close>

lemma throughput_udp_step_effect:
  "throughput_udp_step cfg os (pt, t) = Inr (obs, pt', t') \<Longrightarrow> udp_step_effect os obs pt' t t'"
  by (cases "(cfg, os, pt, t)" rule: throughput_udp_step.cases)
    (auto simp: bindE_eq_Inr udp_loop_head throughput_udp_event_effect split: if_splits
      intro: udp_idle elim!: udp_sending dest: throughput_udp_issue_effect)

lemma symmetric_udp_step_effect:
  "symmetric_udp_step cfg os (pt, t) = Inr (obs, pt', t') \<Longrightarrow> udp_step_effect os obs pt' t t'"
  by (cases "(cfg, os, pt, t)" rule: symmetric_udp_step.cases)
    (auto simp: bindE_eq_Inr udp_loop_head symmetric_udp_event_effect split: if_splits
      intro: udp_idle elim!: udp_sending dest: symmetric_udp_issue_effect)

lemma nic_udp_step_effect:
  "nic_udp_step cfg os (pt, t) = Inr (obs, pt', t') \<Longrightarrow> udp_step_effect os obs pt' t t'"
  by (cases "(cfg, os, pt, t)" rule: nic_udp_step.cases)
    (auto simp: bindE_eq_Inr udp_loop_head nic_udp_event_effect split: if_splits
      intro: udp_idle elim!: udp_sending dest: nic_udp_issue_effect)

lemma latency_udp_issue_effect:
  assumes "latency_udp_issue cfg os i t = Inr (obs, pt, t')"
  shows "obs = [] \<and> pt = Returned \<or> takens t' = takens t \<and> (\<exists>w. obs = [Request_sent i w (now os)])"
proof -
  from assms obtain r t1 where r: "take_request cfg t = Inr (r, t1)" "s32 (int (bytes_to_send r)) \<le> int UDP_MAX_PAYLOAD"
    by (auto simp: latency_udp_issue_def bindE_eq_Inr)
  from assms r show ?thesis
  proof (cases "take 1 (writes os) = [Wr_block]")
    case False
    with assms r obtain sent where "send_datagram os r = Inr sent"
      by (auto simp: latency_udp_issue_def bindE_eq_Inr)
    with assms r False udp_take_request_same [OF r(1)] show ?thesis
      by (cases sent) (auto simp: latency_udp_issue_def Let_def)
  qed (simp add: latency_udp_issue_def)
qed

lemma latency_udp_receive_effect:
  assumes "latency_udp_receive cfg os i start t = Inr (obs, pt, t')"
  shows "taken_effect obs pt (takens t) (takens t')"
  using assms
  by (auto simp: latency_udp_receive_def Let_def result_iffs takens_update release_def taken_effect_def
      book_received_def split: if_splits option.splits)

lemma latency_udp_step_effect:
  "latency_udp_step cfg os (pt, t) = Inr (obs, pt', t') \<Longrightarrow> taken_effect obs pt' (takens t) (takens t')"
proof (cases "(cfg, os, pt, t)" rule: latency_udp_step.cases)
  case (1 cfg' os' t0)
  assume step: "latency_udp_step cfg os (pt, t) = Inr (obs, pt', t')"
  show ?thesis
  proof (cases "should_load (acb os) \<and> next_tx t \<le> now os")
    case True
    with step 1 obtain c t1 where g: "get_socket cfg t = Inr (c, t1)"
      and c: "(case c of None \<Rightarrow> Inr ([], At_head, t1) | Some i \<Rightarrow> latency_udp_issue cfg os i t1) = Inr (obs, pt', t')"
      by (auto simp: bindE_eq_Inr)
    from get_socket_effect [OF g] c show ?thesis
      by (cases c) (auto simp: taken_effect_def dest!: latency_udp_issue_effect)
  next
    case False
    with step 1 show ?thesis by (auto simp: taken_effect_def split: if_splits)
  qed
qed (simp_all add: latency_udp_receive_effect, simp_all add: taken_effect_def)

subsection \<open>Requests and responses alternate\<close>

text \<open>Whether a request on socket \<open>i\<close> is unanswered after a trace.\<close>

fun outstanding_from :: "nat \<Rightarrow> bool \<Rightarrow> observation list \<Rightarrow> bool" where
  "outstanding_from i b [] = b"
| "outstanding_from i b (Request_sent j w s # tr) = outstanding_from i (b \<or> j = i) tr"
| "outstanding_from i b (Responses j brp # tr) = outstanding_from i (b \<and> j \<noteq> i) tr"
| "outstanding_from i b (Connection_closed j # tr) = outstanding_from i b tr"

abbreviation outstanding :: "nat \<Rightarrow> observation list \<Rightarrow> bool" where
  "outstanding i \<equiv> outstanding_from i False"

lemma outstanding_append:
  "outstanding_from i b (tr @ tr') = outstanding_from i (outstanding_from i b tr) tr'"
  by (induction i b tr rule: outstanding_from.induct) simp_all

text \<open>No request is sent on a socket while an earlier one is unanswered.\<close>

fun one_at_a_time :: "nat \<Rightarrow> bool \<Rightarrow> observation list \<Rightarrow> bool" where
  "one_at_a_time i b [] = True"
| "one_at_a_time i b (Request_sent j w s # tr) \<longleftrightarrow> \<not> (b \<and> j = i) \<and> one_at_a_time i (b \<or> j = i) tr"
| "one_at_a_time i b (Responses j brp # tr) = one_at_a_time i (b \<and> j \<noteq> i) tr"
| "one_at_a_time i b (Connection_closed j # tr) = one_at_a_time i b tr"

lemma one_at_a_time_append:
  "one_at_a_time i b (tr @ tr') \<longleftrightarrow> one_at_a_time i b tr \<and> one_at_a_time i (outstanding_from i b tr) tr'"
  by (induction i b tr rule: one_at_a_time.induct) simp_all

text \<open>
  A loop whose steps take and free sockets in this way, and that does nothing after it returned.
\<close>

locale datagram_loop =
  fixes step :: "os_answers \<Rightarrow> udp_state \<Rightarrow> udp_result"
  assumes takes: "step os (pt, t) = Inr (obs, pt', t') \<Longrightarrow> taken_effect obs pt' (takens t) (takens t')"
    and final: "step os (Returned, t) = Inr (obs, pt', t') \<Longrightarrow> obs = [] \<and> pt' = Returned"
begin

definition exclusive :: "nat \<Rightarrow> observation list \<Rightarrow> udp_state \<Rightarrow> bool" where
  "exclusive n tr s \<longleftrightarrow> (\<forall>i < n. one_at_a_time i False tr) \<and>
     (fst s \<noteq> Returned \<longrightarrow> length (takens (snd s)) = n \<and> (\<forall>i < n. takens (snd s) ! i = outstanding i tr))"

lemma exclusive_step:
  assumes "exclusive n tr s" and "step os s = Inr (obs, s')"
  shows "exclusive n (tr @ obs) s'"
proof (cases "fst s = Returned")
  case True
  with assms final [of os "snd s" obs "fst s'" "snd s'"] have "obs = []" "fst s' = Returned"
    by (cases s; simp)+
  with assms(1) show ?thesis by (simp add: exclusive_def)
next
  case False
  from takes [of os "fst s" "snd s" obs "fst s'" "snd s'"] assms(2)
  have "taken_effect obs (fst s') (takens (snd s)) (takens (snd s'))" by simp
  with assms(1) False show ?thesis
    by (auto simp: exclusive_def taken_effect_def one_at_a_time_append outstanding_append
        nth_list_update simp del: length_takens split: list.splits observation.splits)
qed

lemma alternate:
  assumes "loop_run step (\<lambda>_. True) (pt0, t0) tr (pt, t)" and "\<forall>s \<in> set (sockets t0). taken_flag s = 0"
  shows "(\<forall>i < length (sockets t0). one_at_a_time i False tr) \<and>
    (pt \<noteq> Returned \<longrightarrow> (\<forall>i < length (sockets t0). taken_flag (sockets t ! i) \<noteq> 0 \<longleftrightarrow> outstanding i tr))"
proof -
  have "exclusive (length (sockets t0)) tr (pt, t)"
  proof (rule loop_run_invariant [OF assms(1)])
    show "exclusive (length (sockets t0)) [] (pt0, t0)"
      using assms(2) by (simp add: exclusive_def takens_def)
  qed (rule exclusive_step)
  then show ?thesis by (auto simp: exclusive_def takens_def)
qed

end

interpretation throughput_udp: datagram_loop "throughput_udp_step cfg" for cfg
  by unfold_locales (use throughput_udp_step_effect in \<open>auto simp: udp_step_effect_def\<close>)

interpretation symmetric_udp: datagram_loop "symmetric_udp_step cfg" for cfg
  by unfold_locales (use symmetric_udp_step_effect in \<open>auto simp: udp_step_effect_def\<close>)

interpretation nic_udp: datagram_loop "nic_udp_step cfg" for cfg
  by unfold_locales (use nic_udp_step_effect in \<open>auto simp: udp_step_effect_def\<close>)

interpretation latency_udp: datagram_loop "latency_udp_step cfg" for cfg
  by unfold_locales (use latency_udp_step_effect in auto)

text \<open>The open loops also keep to the schedule.\<close>

lemma taken_effect_length: "taken_effect obs pt b b' \<Longrightarrow> length obs \<le> 1"
  by (auto simp: taken_effect_def split: list.splits observation.splits)

interpretation throughput_udp: open_loop "throughput_udp_step cfg" for cfg
  by unfold_locales (use throughput_udp_step_effect taken_effect_length in \<open>unfold udp_step_effect_def, blast\<close>)

interpretation symmetric_udp: open_loop "symmetric_udp_step cfg" for cfg
  by unfold_locales (use symmetric_udp_step_effect taken_effect_length in \<open>unfold udp_step_effect_def, blast\<close>)

interpretation nic_udp: open_loop "nic_udp_step cfg" for cfg
  by unfold_locales (use nic_udp_step_effect taken_effect_length in \<open>unfold udp_step_effect_def, blast\<close>)

subsection \<open>Properties of the UDP agents\<close>

definition udp_open_loops :: "agent_config \<Rightarrow> (os_answers \<Rightarrow> udp_state \<Rightarrow> udp_result) set" where
  "udp_open_loops cfg = {throughput_udp_step cfg, symmetric_udp_step cfg, nic_udp_step cfg}"

lemma udp_start_sockets:
  assumes "udp_throughput_start cfg ok answers s0 e = Inr (dests, Some t0) \<or>
    udp_latency_start cfg answers s0 e = Inr (dests, Some t0)"
  shows "(\<forall>s \<in> set (sockets t0). taken_flag s = 0) \<and> next_tx t0 = s0"
proof -
  from assms obtain calls i n ds cs where "open_sockets cfg calls open_udp_socket answers i n = Inr (ds, Some cs)"
    and t0: "t0 = udp_thread_at cs s0 e"
    by (auto simp: udp_throughput_start_def udp_latency_start_def create_throughput_socket_def
        create_latency_sockets_def result_iffs split: if_splits)
  from open_sockets_made [OF this(1)] have "\<forall>s \<in> set cs. taken_flag s = 0"
    by (auto simp: in_set_conv_nth open_udp_socket_def)
  with t0 show ?thesis by (simp add: udp_thread_at_def)
qed

text \<open>
  Property C11. A UDP agent has at most one request in flight on a socket: in every run of each of
  the four loops from freshly opened sockets, whatever the server, the clocks and the kernel do, a
  request is sent on a socket only when it has had a response to the request before it, and the
  \<open>taken\<close> flag of a socket says exactly whether a request on it is unanswered.
\<close>

theorem udp_requests_alternate:
  assumes "udp_throughput_start cfg ok answers s0 e = Inr (dests, Some t0) \<or>
      udp_latency_start cfg answers s0 e = Inr (dests, Some t0)"
    and "loop_run step (\<lambda>_. True) (At_head, t0) tr (pt, t)"
    and "step \<in> insert (latency_udp_step cfg) (udp_open_loops cfg)" and "i < length (sockets t0)"
  shows "one_at_a_time i False tr \<and>
    (pt \<noteq> Returned \<longrightarrow> (taken_flag (sockets t ! i) \<noteq> 0 \<longleftrightarrow> outstanding i tr))"
proof -
  note free = conjunct1 [OF udp_start_sockets [OF assms(1)]]
  from assms(3) consider "step = throughput_udp_step cfg" | "step = symmetric_udp_step cfg"
    | "step = nic_udp_step cfg" | "step = latency_udp_step cfg"
    by (auto simp: udp_open_loops_def)
  then show ?thesis
    using assms(2,4) throughput_udp.alternate [OF _ free, of cfg] symmetric_udp.alternate [OF _ free, of cfg]
      nic_udp.alternate [OF _ free, of cfg] latency_udp.alternate [OF _ free, of cfg]
    by cases blast+
qed

text \<open>A small UDP agent: one socket, one-byte echo messages.\<close>

lemmas echo1_udp_simps = echo1_config_def echo1_proto_def echo1_os_def some_config_def
  conn_per_thread_def take_request_def prepare_request_def create_request_def echo_create_request_def
  bytes_to_send_def s32_def iovs_bytes_def book_sent_def get_socket_def update_socket_def
  open_udp_socket_def send_datagram_def udp_thread_at_def

definition echo1_udp_start :: udp_thread where
  "echo1_udp_start = udp_thread_at [open_udp_socket 5 0] 100 start_env"

lemma echo1_udp_opens:
  "udp_throughput_start echo1_config True (\<lambda>_. (5, None)) 100 start_env =
     Inr ([\<lparr>ip = 0, port = 0\<rparr>], Some echo1_udp_start)"
  by (simp add: udp_throughput_start_def create_throughput_socket_def echo1_udp_start_def echo1_config_def
      some_config_def conn_per_thread_def connection_target_def numeral_eq_Suc)

lemma echo1_udp_sends:
  assumes "\<And>ev. env (echo1_os 130 [Wr 1] Recv_block zero_ts)"
  shows "\<exists>t. loop_run (throughput_udp_step echo1_config) env
     (At_head, echo1_udp_start) [Request_sent 0 ''#'' 130] (At_send, t) \<and> taken_flag (sockets t ! 0) = 1"
proof -
  let ?step = "throughput_udp_step echo1_config" and ?s0 = "(At_head, echo1_udp_start)"
  let ?os = "echo1_os 130 [Wr 1] Recv_block zero_ts"
  have "?step ?os ?s0 = Inr ([], At_send, echo1_udp_start)"
    by (simp add: loop_head_def echo1_os_def echo1_load)
  from run_step [OF run_start [of ?step env] assms this]
  have r: "loop_run ?step env ?s0 [] (At_send, echo1_udp_start)" by simp
  have "\<exists>t. ?step ?os (At_send, echo1_udp_start) = Inr ([Request_sent 0 ''#'' 130], At_send, t) \<and>
      taken_flag (sockets t ! 0) = 1"
    by (simp add: throughput_udp_issue_def echo1_udp_start_def echo1_udp_simps echo1_ia sample_tx_def Let_def
        split: prod.splits)
  then obtain t where t: "?step ?os (At_send, echo1_udp_start) = Inr ([Request_sent 0 ''#'' 130], At_send, t)"
    "taken_flag (sockets t ! 0) = 1" by blast
  from run_step [OF r assms t(1)] t(2) show ?thesis by auto
qed
theorem udp_requests_alternate_witness:
  "\<exists>t. loop_run (throughput_udp_step echo1_config) (\<lambda>_. True) (At_head, echo1_udp_start)
      [Request_sent 0 ''#'' 130] (At_send, t) \<and>
    one_at_a_time 0 False [Request_sent 0 ''#'' 130] \<and> taken_flag (sockets t ! 0) \<noteq> 0"
proof -
  from echo1_udp_sends [of "\<lambda>_. True"] obtain t where
    t: "loop_run (throughput_udp_step echo1_config) (\<lambda>_. True) (At_head, echo1_udp_start)
      [Request_sent 0 ''#'' 130] (At_send, t)" by auto
  have "one_at_a_time 0 False [Request_sent 0 ''#'' 130] \<and>
    (At_send \<noteq> Returned \<longrightarrow> (taken_flag (sockets t ! 0) \<noteq> 0 \<longleftrightarrow> outstanding 0 [Request_sent 0 ''#'' 130]))"
    by (rule udp_requests_alternate [OF disjI1 [OF echo1_udp_opens] t])
      (simp_all add: udp_open_loops_def echo1_udp_start_def udp_thread_at_def)
  with t show ?thesis by auto
qed

text \<open>When every socket is taken nothing is sent, and without a datagram none becomes free.\<close>

definition stalled :: "udp_state \<Rightarrow> bool" where
  "stalled s \<longleftrightarrow> fst s \<in> {At_head, At_send, At_poll, At_events []} \<and> (\<forall>k \<in> set (sockets (snd s)). taken_flag k \<noteq> 0)"

lemma get_socket_stalled:
  "get_socket cfg t = Inr (c, t') \<Longrightarrow> \<forall>k \<in> set (sockets t). taken_flag k \<noteq> 0 \<Longrightarrow> c = None \<and> sockets t' = sockets t"
  by (auto simp: get_socket_def Let_def result_iffs not_le split: if_splits)

lemma stalled_send:
  assumes "bindE (get_socket cfg t) (\<lambda>(c, t). case c of None \<Rightarrow> Inr ([], At_poll, t) | Some i \<Rightarrow> issue i t) =
      Inr (obs, pt, t')"
    and "\<forall>k \<in> set (sockets t). taken_flag k \<noteq> 0"
  shows "obs = [] \<and> pt = At_poll \<and> sockets t' = sockets t"
  using assms by (auto simp: bindE_eq_Inr dest!: get_socket_stalled)

lemma stalled_step:
  assumes "stalled s" and "step os s = Inr (obs, s')" and "polled os = []" and "step \<in> udp_open_loops cfg"
  shows "obs = [] \<and> stalled s'"
proof -
  obtain pt t pt' t' where s: "s = (pt, t)" "s' = (pt', t')" by (cases s, cases s')
  from assms(1) have t: "\<forall>k \<in> set (sockets t). taken_flag k \<noteq> 0" by (simp add: s stalled_def)
  from assms(1) consider "pt = At_head" | "pt = At_send" | "pt = At_poll" | "pt = At_events []"
    by (auto simp: stalled_def s)
  then show ?thesis
    using assms(2,3,4) t
    by cases (auto simp: stalled_def s udp_open_loops_def loop_head_def dest!: stalled_send split: if_splits)
qed

text \<open>
  Property C39. A lost datagram blocks its socket for good: none of the open UDP loops has a
  timeout. Once every socket waits for a response and none arrives any more, the loops still turn
  but send nothing ever again, however late the next request is.
\<close>

theorem udp_lost_datagrams_stall:
  assumes "loop_run step (\<lambda>os. polled os = []) (At_head, t) tr (pt, t')" and "step \<in> udp_open_loops cfg"
    and "\<forall>s \<in> set (sockets t). taken_flag s \<noteq> 0"
  shows "tr = [] \<and> pt \<noteq> Returned"
proof -
  have "tr = [] \<and> stalled (pt, t')"
  proof (rule loop_run_invariant [OF assms(1)])
    show "[] = [] \<and> stalled (At_head, t)" using assms(3) by (simp add: stalled_def)
  qed (use stalled_step [OF _ _ _ assms(2)] in auto)
  then show ?thesis by (auto simp: stalled_def)
qed

theorem udp_lost_datagrams_stall_witness:
  "\<exists>t'. loop_run (throughput_udp_step echo1_config) (\<lambda>os. polled os = [])
      (At_head, udp_thread_at [(open_udp_socket 5 0)\<lparr>taken_flag := 1\<rparr>] 100 start_env) [] (At_poll, t') \<and>
    next_tx t' < 10000"
proof -
  let ?step = "throughput_udp_step echo1_config" and ?env = "\<lambda>os. polled os = []"
  let ?t = "udp_thread_at [(open_udp_socket 5 0)\<lparr>taken_flag := 1\<rparr>] 100 start_env"
  let ?os = "(echo1_os 10000 [] Recv_block zero_ts)\<lparr>polled := []\<rparr>"
  have "?step ?os (At_head, ?t) = Inr ([], At_send, ?t)"
    by (simp add: loop_head_def echo1_os_def echo1_load)
  from run_step [OF run_start [of ?step ?env] _ this]
  have r: "loop_run ?step ?env (At_head, ?t) [] (At_send, ?t)" by simp
  have "?step ?os (At_send, ?t) = Inr ([], At_poll, ?t\<lparr>socket_idx := 1\<rparr>)"
    by (simp add: echo1_udp_simps)
  from run_step [OF r _ this] have r: "loop_run ?step ?env (At_head, ?t) [] (At_poll, ?t\<lparr>socket_idx := 1\<rparr>)" by simp
  have "[] = ([] :: observation list) \<and> At_poll \<noteq> Returned"
    by (rule udp_lost_datagrams_stall [OF r, where cfg = echo1_config]) (simp_all add: udp_open_loops_def udp_thread_at_def)
  with r show ?thesis by (auto simp: udp_thread_at_def)
qed

end
