(* ===== verification/R2p2.thy ===== *)
theory R2p2
  imports Example_Agent
begin

section \<open>The R2P2 transport (\<open>agents/tp_r2p2.c\<close>)\<close>

text \<open>
  The transport of the build with \<open>ENABLE_R2P2\<close> and \<open>R2P2_NIC_TS\<close>. It hands its requests to a library,
  together with a context that says which function to call when the response has arrived, and polls
  the library, which calls those functions. The library is not in the repository: what the code
  uses of it is the record \<open>r2p2_lib\<close> and the answers of a step. The proofs show who owns the contexts, that
  the loops keep the schedule, and what two of the counters count.
\<close>

subsection \<open>The library\<close>

text \<open>
  \<open>r2p2_prepare_msg\<close> makes the datagrams of a request; the header of a datagram is read by
  \<open>ntohs\<close> on its request id, which is stored back, and by \<open>is_last\<close>; \<open>FIXED_ROUTE\<close> is a constant.
\<close>

record r2p2_lib =
  prepare_msg :: "iovec list \<Rightarrow> int \<Rightarrow> u16 \<Rightarrow> bytes list"
  header_to_host :: "bytes \<Rightarrow> bytes"
  header_rid :: "bytes \<Rightarrow> u16"
  header_is_last :: "bytes \<Rightarrow> bool"
  header_size :: nat
  fixed_route :: u64

text \<open>
  The functions the library calls from \<open>r2p2_poll\<close>, with their arguments: the context, and for a response
  its handle, its vectors and the two hardware time stamps that the library stored in the context.
\<close>

datatype r2p2_event =
    Resp_success nat nat "iovec list" timespec timespec
  | Resp_error nat int
  | Resp_timeout nat

fun event_ctx :: "r2p2_event \<Rightarrow> nat" where
  "event_ctx (Resp_success c h vs rx tx) = c"
| "event_ctx (Resp_error c err) = c"
| "event_ctx (Resp_timeout c) = c"

text \<open>
  The next call made by \<open>r2p2_poll\<close> (\<open>None\<close>: it returns), and whether \<open>malloc\<close> succeeds.
\<close>

record r2p2_answers = os_answers +
  lib_event :: "r2p2_event option"
  malloc_ok :: bool

subsection \<open>Contexts and the state of a thread\<close>

datatype success_fn = Success_cb | Success_timestamping_cb | Success_nic_timestamping_cb

text \<open>
  \<open>struct r2p2_ctx\<close>, as far as the transport uses it; \<open>arg\<close> is the context itself, and the symmetric
  agent keeps the time of sending behind the structure (\<open>sent_at\<close>).
\<close>

record r2p2_ctx =
  success_cb :: success_fn
  destination :: host_tuple
  ctx_timeout :: int
  routing_policy :: int
  nic_rx :: timespec
  nic_tx :: timespec
  sent_at :: timespec

text \<open>
  The allocated contexts, by a number for every allocation; \<open>spare\<close> is the context the agent with
  hardware time stamps has allocated for its next request. \<open>resp_done\<close> are the handles given back to the
  library. The other fields are the locals of the latency agent.
\<close>

record r2p2_thread = loop_thread +
  ctxs :: "nat \<Rightarrow> r2p2_ctx option"
  next_ctx :: nat
  spare :: "nat option"
  resp_done :: "nat list"
  polling :: "u32 list"
  cur_rid :: u16
  got_bytes :: int
  dgram :: bytes

type_synonym r2p2_result = "r2p2_thread loop_result"
type_synonym r2p2_state = "loop_point \<times> r2p2_thread"

text \<open>\<open>malloc\<close>, storing into the new block, and \<open>free\<close>; a block that is not allocated must not be freed.\<close>

definition add_ctx :: "r2p2_ctx \<Rightarrow> r2p2_thread \<Rightarrow> r2p2_thread" where
  "add_ctx x t = t\<lparr>ctxs := (ctxs t)(next_ctx t := Some x), next_ctx := next_ctx t + 1\<rparr>"

definition free_ctx :: "nat \<Rightarrow> r2p2_thread \<Rightarrow> r2p2_thread result" where
  "free_ctx c t =
     (case ctxs t c of None \<Rightarrow> Inl OutOfBounds | Some x \<Rightarrow> Inr (t\<lparr>ctxs := (ctxs t)(c := None)\<rparr>))"

definition recv_resp_done :: "nat \<Rightarrow> r2p2_thread \<Rightarrow> r2p2_thread" where
  "recv_resp_done h t = t\<lparr>resp_done := h # resp_done t\<rparr>"

subsection \<open>Callbacks\<close>

definition resp_bytes :: "iovec list \<Rightarrow> u64" where
  "resp_bytes vs = of_nat (sum_list (map iov_len vs))"

text \<open>\<open>read_res\<close> is not initialised here: the bytes are added to what it holds, \<open>garbage\<close>.\<close>

definition lancet_success_cb ::
  "u64 \<Rightarrow> r2p2_answers \<Rightarrow> nat \<Rightarrow> nat \<Rightarrow> iovec list \<Rightarrow> r2p2_thread \<Rightarrow> (byte_req_pair \<times> r2p2_thread) result" where
  "lancet_success_cb garbage os h c vs t =
     (let brp = BRP (garbage + resp_bytes vs) 1 in
      bindE (free_ctx c (book_received os brp t)) (\<lambda>t. Inr (brp, recv_resp_done h t)))"

definition lancet_success_timestamping_cb ::
  "r2p2_answers \<Rightarrow> nat \<Rightarrow> nat \<Rightarrow> r2p2_ctx \<Rightarrow> iovec list \<Rightarrow> r2p2_thread \<Rightarrow> (byte_req_pair \<times> r2p2_thread) result" where
  "lancet_success_timestamping_cb os h c ctx vs t =
     (let brp = BRP (resp_bytes vs) 1; t = book_received os brp t in
      bindE (case timespec_diff (Some (clock os)) (Some (sent_at ctx)) of
               None \<Rightarrow> Inr (stats t)
             | Some d \<Rightarrow> add_latency_sample (acb os) (latency_ns d) (Some (sent_at ctx)) (stats t)) (\<lambda>st.
      bindE (free_ctx c (t\<lparr>stats := st\<rparr>)) (\<lambda>t. Inr (brp, recv_resp_done h t))))"

definition lancet_success_nic_timestamping_cb ::
  "r2p2_answers \<Rightarrow> nat \<Rightarrow> nat \<Rightarrow> timespec \<Rightarrow> timespec \<Rightarrow> iovec list \<Rightarrow> r2p2_thread \<Rightarrow>
   (byte_req_pair \<times> r2p2_thread) result" where
  "lancet_success_nic_timestamping_cb os h c rx tx vs t =
     (let brp = BRP (resp_bytes vs) 1; t = book_received os brp t in
      bindE (case timespec_diff (Some rx) (Some tx) of
               None \<Rightarrow> Inr t
             | Some d \<Rightarrow>
                 let t = sample_tx tx t in
                 bindE (add_latency_sample (acb os) (latency_ns d) (Some tx) (stats t)) (\<lambda>st.
                   Inr (t\<lparr>stats := st\<rparr>))) (\<lambda>t.
      bindE (free_ctx c t) (\<lambda>t. Inr (brp, recv_resp_done h t))))"

text \<open>\<open>lancet_error_cb\<close> and \<open>lancet_timeout_cb\<close> only free the context.\<close>

definition lancet_error_cb :: "nat \<Rightarrow> r2p2_thread \<Rightarrow> r2p2_thread result" where
  "lancet_error_cb c t = free_ctx c t"

definition lancet_timeout_cb :: "nat \<Rightarrow> r2p2_thread \<Rightarrow> r2p2_thread result" where
  "lancet_timeout_cb c t = free_ctx c t"

text \<open>
  \<open>r2p2_poll\<close>, one call at a time: the library reads the function from the context.
\<close>

definition r2p2_poll :: "u64 \<Rightarrow> r2p2_answers \<Rightarrow> r2p2_thread \<Rightarrow> r2p2_result" where
  "r2p2_poll garbage os t =
     (case lib_event os of
        None \<Rightarrow> Inr ([], At_head, t)
      | Some (Resp_success c h vs rx tx) \<Rightarrow>
          (case ctxs t c of
             None \<Rightarrow> Inl OutOfBounds
           | Some ctx \<Rightarrow>
               bindE (case success_cb ctx of
                        Success_cb \<Rightarrow> lancet_success_cb garbage os h c vs t
                      | Success_timestamping_cb \<Rightarrow> lancet_success_timestamping_cb os h c ctx vs t
                      | Success_nic_timestamping_cb \<Rightarrow> lancet_success_nic_timestamping_cb os h c rx tx vs t) (\<lambda>(brp, t).
                 Inr ([Responses c brp], At_poll, t)))
      | Some (Resp_error c err) \<Rightarrow> bindE (lancet_error_cb c t) (\<lambda>t. Inr ([], At_poll, t))
      | Some (Resp_timeout c) \<Rightarrow> bindE (lancet_timeout_cb c t) (\<lambda>t. Inr ([], At_poll, t)))"

subsection \<open>Sending\<close>

text \<open>\<open>targets[0]\<close> of an empty list is the zeroed array; otherwise \<open>targets[rand() % target_count]\<close>.\<close>

definition pick_target :: "agent_config \<Rightarrow> bool \<Rightarrow> rand_env \<Rightarrow> (host_tuple \<times> rand_env) result" where
  "pick_target cfg first e =
     (if first then Inr (case targets cfg of [] \<Rightarrow> \<lparr>ip = 0, port = 0\<rparr> | h # _ \<Rightarrow> h, e)
      else if target_count cfg = 0 then Inl DivByZero
      else
        let (r, e) = env_rand e; k = nat (int r mod \<bar>target_count cfg\<bar>) in
        if k < length (targets cfg) then Inr (targets cfg ! k, e) else Inl OutOfBounds)"

text \<open>\<open>(int)(unsigned long)to_send->meta\<close>.\<close>

definition policy_of :: "u64 \<Rightarrow> int" where
  "policy_of m = s32 (uint m)"

definition throughput_r2p2_issue :: "r2p2_lib \<Rightarrow> agent_config \<Rightarrow> r2p2_answers \<Rightarrow> r2p2_thread \<Rightarrow> r2p2_result" where
  "throughput_r2p2_issue lib cfg os t =
     bindE (take_request cfg t) (\<lambda>(r, t).
     bindE (assertE (malloc_ok os)) (\<lambda>_.
     bindE (pick_target cfg (meta r = fixed_route lib) (renv t)) (\<lambda>(dest, e).
     let c = next_ctx t;
         t = add_ctx \<lparr>success_cb = Success_cb, destination = dest, ctx_timeout = 5000000,
           routing_policy = policy_of (meta r), nic_rx = zero_ts, nic_tx = zero_ts, sent_at = zero_ts\<rparr> (t\<lparr>renv := e\<rparr>);
         t = sample_tx (clock os) t in
     bindE (book_sent os (int (bytes_to_send r)) t) (\<lambda>t.
       Inr ([Request_sent c (request_payload r) (now os)], At_poll, t)))))"

definition symmetric_r2p2_issue :: "r2p2_lib \<Rightarrow> agent_config \<Rightarrow> r2p2_answers \<Rightarrow> r2p2_thread \<Rightarrow> r2p2_result" where
  "symmetric_r2p2_issue lib cfg os t =
     bindE (take_request cfg t) (\<lambda>(r, t).
     bindE (assertE (malloc_ok os)) (\<lambda>_.
     bindE (pick_target cfg (meta r = fixed_route lib) (renv t)) (\<lambda>(dest, e).
     let c = next_ctx t;
         t = add_ctx \<lparr>success_cb = Success_timestamping_cb, destination = dest, ctx_timeout = 5000000,
           routing_policy = policy_of (meta r), nic_rx = zero_ts, nic_tx = zero_ts, sent_at = clock os\<rparr> (t\<lparr>renv := e\<rparr>);
         t = sample_tx (clock os)
           (t\<lparr>stats := add_throughput_tx_sample (acb os) (BRP (of_nat (bytes_to_send r)) 1) (stats t)\<rparr>) in
     bindE (get_ia (acb os) (renv t)) (\<lambda>(ia, e).
       Inr ([Request_sent c (request_payload r) (now os)], At_poll, t\<lparr>next_tx := next_tx t + ia, renv := e\<rparr>)))))"

text \<open>
  The context of a request was allocated when the one before it was sent. Here any route but the
  null pointer goes to the first target.
\<close>

definition new_spare :: "bool \<Rightarrow> r2p2_thread \<Rightarrow> r2p2_thread" where
  "new_spare ok t =
     (if ok then
        (add_ctx \<lparr>success_cb = Success_nic_timestamping_cb, destination = \<lparr>ip = 0, port = 0\<rparr>, ctx_timeout = 0,
           routing_policy = 0, nic_rx = zero_ts, nic_tx = zero_ts, sent_at = zero_ts\<rparr> t)\<lparr>spare := Some (next_ctx t)\<rparr>
      else t\<lparr>spare := None\<rparr>)"

definition nic_r2p2_issue :: "agent_config \<Rightarrow> r2p2_answers \<Rightarrow> r2p2_thread \<Rightarrow> r2p2_result" where
  "nic_r2p2_issue cfg os t =
     bindE (get_ia (acb os) (renv t)) (\<lambda>(ia, e).
     let t = t\<lparr>next_tx := next_tx t + ia, renv := e\<rparr> in
     bindE (take_request cfg t) (\<lambda>(r, t).
     case spare t of
       None \<Rightarrow> Inl AssertFail
     | Some c \<Rightarrow>
         bindE (pick_target cfg (meta r \<noteq> 0) (renv t)) (\<lambda>(dest, e).
         let t = t\<lparr>renv := e,
               ctxs := (ctxs t)(c := Some \<lparr>success_cb = Success_nic_timestamping_cb, destination = dest,
                 ctx_timeout = 1000000, routing_policy = policy_of (meta r), nic_rx = zero_ts, nic_tx = zero_ts,
                 sent_at = zero_ts\<rparr>),
               stats := add_throughput_tx_sample (acb os) (BRP (of_nat (bytes_to_send r)) 1) (stats t)\<rparr> in
         Inr ([Request_sent c (request_payload r) (now os)], At_poll, new_spare (malloc_ok os) t))))"

subsection \<open>The three loops over \<open>r2p2_poll\<close>\<close>

fun throughput_r2p2_step :: "u64 \<Rightarrow> r2p2_lib \<Rightarrow> agent_config \<Rightarrow> r2p2_answers \<Rightarrow> r2p2_state \<Rightarrow> r2p2_result" where
  "throughput_r2p2_step g lib cfg os (At_head, t) = loop_head os t"
| "throughput_r2p2_step g lib cfg os (At_send, t) =
     (if next_tx t \<le> now os then throughput_r2p2_issue lib cfg os t else Inr ([], At_poll, t))"
| "throughput_r2p2_step g lib cfg os (At_poll, t) = r2p2_poll g os t"
| "throughput_r2p2_step g lib cfg os (pt, t) = Inr ([], pt, t)"

fun symmetric_r2p2_step :: "u64 \<Rightarrow> r2p2_lib \<Rightarrow> agent_config \<Rightarrow> r2p2_answers \<Rightarrow> r2p2_state \<Rightarrow> r2p2_result" where
  "symmetric_r2p2_step g lib cfg os (At_head, t) = loop_head os t"
| "symmetric_r2p2_step g lib cfg os (At_send, t) =
     (if next_tx t \<le> now os then symmetric_r2p2_issue lib cfg os t else Inr ([], At_poll, t))"
| "symmetric_r2p2_step g lib cfg os (At_poll, t) = r2p2_poll g os t"
| "symmetric_r2p2_step g lib cfg os (pt, t) = Inr ([], pt, t)"

fun nic_r2p2_step :: "u64 \<Rightarrow> agent_config \<Rightarrow> r2p2_answers \<Rightarrow> r2p2_state \<Rightarrow> r2p2_result" where
  "nic_r2p2_step g cfg os (At_head, t) = loop_head os t"
| "nic_r2p2_step g cfg os (At_send, t) =
     (if next_tx t \<le> now os then nic_r2p2_issue cfg os t else Inr ([], At_poll, t))"
| "nic_r2p2_step g cfg os (At_poll, t) = r2p2_poll g os t"
| "nic_r2p2_step g cfg os (pt, t) = Inr ([], pt, t)"

text \<open>
  The state in which a loop starts, when \<open>r2p2_init_per_core\<close> succeeds; otherwise the function
  returns (\<open>None\<close>). The agent with hardware time stamps allocates its first context.
\<close>

definition r2p2_thread_at :: "u32 list \<Rightarrow> int \<Rightarrow> rand_env \<Rightarrow> r2p2_thread" where
  "r2p2_thread_at socks time_ns e =
     \<lparr>next_tx = time_ns, stats = init_per_thread_stats, renv = e, to_send = empty_request, rx_timestamp = None,
      ctxs = \<lambda>_. None, next_ctx = 0, spare = None, resp_done = [], polling = socks, cur_rid = 0, got_bytes = 0,
      dgram = replicate 1500 NUL\<rparr>"

definition r2p2_start :: "bool \<Rightarrow> int \<Rightarrow> rand_env \<Rightarrow> r2p2_thread option" where
  "r2p2_start init_ok time_ns e = (if init_ok then Some (r2p2_thread_at [] time_ns e) else None)"

definition nic_r2p2_start :: "bool \<Rightarrow> bool \<Rightarrow> int \<Rightarrow> rand_env \<Rightarrow> r2p2_thread option" where
  "nic_r2p2_start init_ok alloc_ok time_ns e = map_option (new_spare alloc_ok) (r2p2_start init_ok time_ns e)"

subsection \<open>\<open>latency_r2p2_main\<close>\<close>

text \<open>
  \<open>create_polling_sockets\<close>: \<open>assert(s)\<close> does not catch the -1 of a failed \<open>socket\<close>, but the option that
  is set next fails on it. \<open>None\<close> is the null pointer, on which \<open>main\<close> asserts.
\<close>

fun polling_sockets :: "socket_answers \<Rightarrow> nat \<Rightarrow> nat \<Rightarrow> u32 list option result" where
  "polling_sockets answers i 0 = Inr (Some [])"
| "polling_sockets answers i (Suc n) =
     (let (s, failing) = answers i in
      if failing = Some Socket then Inr None
      else if s = 0 then Inl AssertFail
      else if failing = Some Set_busy_poll \<or> failing = Some Set_rcvtimeo then Inr None
      else bindE (polling_sockets answers (Suc i) n) (\<lambda>r. Inr (map_option ((#) s) r)))"

definition create_polling_sockets :: "agent_config \<Rightarrow> socket_answers \<Rightarrow> u32 list option result" where
  "create_polling_sockets cfg answers =
     bindE (conn_per_thread cfg) (\<lambda>n.
     bindE (assertE (0 \<le> n)) (\<lambda>_. polling_sockets answers 0 (nat n)))"

definition latency_r2p2_start ::
  "agent_config \<Rightarrow> bool \<Rightarrow> socket_answers \<Rightarrow> int \<Rightarrow> rand_env \<Rightarrow> r2p2_thread option result" where
  "latency_r2p2_start cfg init_ok answers time_ns e =
     (if \<not> init_ok then Inr None
      else bindE (create_polling_sockets cfg answers) (\<lambda>r.
        case r of None \<Rightarrow> Inl AssertFail | Some socks \<Rightarrow> Inr (Some (r2p2_thread_at socks time_ns e))))"

text \<open>One \<open>sendto\<close> for every datagram; each must be taken whole.\<close>

fun send_buffers :: "bytes list \<Rightarrow> write_ret list \<Rightarrow> unit result" where
  "send_buffers [] ws = Inr ()"
| "send_buffers (p # ps) [] = Inl Diverges"
| "send_buffers (p # ps) (w # ws) =
     (case w of Wr n \<Rightarrow> bindE (assertE (length p \<le> n)) (\<lambda>_. send_buffers ps ws) | _ \<Rightarrow> Inl AssertFail)"

text \<open>\<open>later\<close> is the clock read before the first datagram is sent, and after the last one is received.\<close>

definition latency_r2p2_issue :: "r2p2_lib \<Rightarrow> agent_config \<Rightarrow> r2p2_answers \<Rightarrow> r2p2_thread \<Rightarrow> r2p2_result" where
  "latency_r2p2_issue lib cfg os t =
     bindE (take_request cfg t) (\<lambda>(r, t).
     let policy = policy_of (meta r); (rid, e) = env_rand (renv t);
         msg = prepare_msg lib (take (iov_cnt r) (iovs r)) policy (of_nat rid) in
     bindE (conn_per_thread cfg) (\<lambda>n.
     let (k, e) = env_rand e in
     if n = 0 then Inl DivByZero
     else
       let k = nat (int k mod n) in
       if length (polling t) \<le> k then Inl OutOfBounds
       else bindE (pick_target cfg (policy = policy_of (fixed_route lib)) e) (\<lambda>(dest, e).
       bindE (send_buffers msg (writes os)) (\<lambda>_.
         Inr ([Request_sent k (concat msg) (now os)], At_recv k (later os),
           t\<lparr>renv := e, cur_rid := of_nat rid, got_bytes := 0,
             stats := add_throughput_tx_sample (acb os) (BRP (of_nat (bytes_to_send r)) 1) (stats t)\<rparr>)))))"

text \<open>The end of the blocking loop; \<open>byte_count - sizeof(struct r2p2_header)\<close> is a \<open>size_t\<close>.\<close>

definition latency_r2p2_done :: "r2p2_lib \<Rightarrow> r2p2_answers \<Rightarrow> nat \<Rightarrow> int \<Rightarrow> r2p2_thread \<Rightarrow> r2p2_result" where
  "latency_r2p2_done lib os i start t =
     bindE (add_latency_sample (acb os) (later os - start) None (stats t)) (\<lambda>st.
     let brp = BRP (of_int (got_bytes t) - of_nat (header_size lib)) 1;
         t = book_received os brp (t\<lparr>stats := st\<rparr>) in
     bindE (get_ia (acb os) (renv t)) (\<lambda>(ia, e).
       Inr ([Responses i brp], At_head, t\<lparr>next_tx := next_tx t + ia, renv := e\<rparr>)))"

text \<open>One \<open>read\<close>: another datagram is awaited unless this one failed, has another id, or is the last.\<close>

definition latency_r2p2_receive :: "r2p2_lib \<Rightarrow> r2p2_answers \<Rightarrow> nat \<Rightarrow> int \<Rightarrow> r2p2_thread \<Rightarrow> r2p2_result" where
  "latency_r2p2_receive lib os i start t =
     (case received os of
        Recv avail \<Rightarrow>
          let data = take 1500 avail;
              bf = header_to_host lib (data @ drop (length data) (dgram t));
              t = t\<lparr>dgram := bf, got_bytes := got_bytes t + int (length data)\<rparr> in
          if header_rid lib bf \<noteq> cur_rid t \<or> header_is_last lib bf then latency_r2p2_done lib os i start t
          else Inr ([], At_recv i start, t)
      | _ \<Rightarrow> latency_r2p2_done lib os i start t)"

fun latency_r2p2_step :: "r2p2_lib \<Rightarrow> agent_config \<Rightarrow> r2p2_answers \<Rightarrow> r2p2_state \<Rightarrow> r2p2_result" where
  "latency_r2p2_step lib cfg os (At_head, t) =
     (if \<not> should_load (acb os) then Inr ([], At_head, t\<lparr>next_tx := now os\<rparr>)
      else if now os < next_tx t then Inr ([], At_head, t)
      else latency_r2p2_issue lib cfg os t)"
| "latency_r2p2_step lib cfg os (At_recv i start, t) = latency_r2p2_receive lib os i start t"
| "latency_r2p2_step lib cfg os (pt, t) = Inr ([], pt, t)"

text \<open>The table of \<open>init_r2p2\<close>.\<close>

definition r2p2_step :: "u64 \<Rightarrow> r2p2_lib \<Rightarrow> agent_config \<Rightarrow> r2p2_answers \<Rightarrow> r2p2_state \<Rightarrow> r2p2_result" where
  "r2p2_step g lib cfg os s =
     (case atype cfg of
        THROUGHPUT_AGENT \<Rightarrow> throughput_r2p2_step g lib cfg os s
      | LATENCY_AGENT \<Rightarrow> latency_r2p2_step lib cfg os s
      | SYMMETRIC_NIC_TIMESTAMP_AGENT \<Rightarrow> nic_r2p2_step g cfg os s
      | SYMMETRIC_AGENT \<Rightarrow> symmetric_r2p2_step g lib cfg os s)"

subsection \<open>Who owns a context\<close>

text \<open>
  The contexts a thread has allocated and handed to the library: all but the spare one. An allocation
  never has the number of one that is still there.
\<close>

definition handed_over :: "r2p2_thread \<Rightarrow> nat set" where
  "handed_over t = {c. ctxs t c \<noteq> None \<and> spare t \<noteq> Some c}"

definition ctx_inv :: "r2p2_thread \<Rightarrow> bool" where
  "ctx_inv t \<longleftrightarrow> (\<forall>c. ctxs t c \<noteq> None \<longrightarrow> c < next_ctx t) \<and> (\<forall>c. spare t = Some c \<longrightarrow> ctxs t c \<noteq> None)"

text \<open>The contexts a trace of observations hands over.\<close>

definition sent_ctxs :: "observation list \<Rightarrow> nat set" where
  "sent_ctxs obs = {c. \<exists>w s. Request_sent c w s \<in> set obs}"

text \<open>The context of the library's call, if the step polls.\<close>

definition called_back :: "loop_point \<Rightarrow> r2p2_answers \<Rightarrow> nat set" where
  "called_back pt os = (if pt = At_poll then event_ctx ` set_option (lib_event os) else {})"

text \<open>
  The system of a thread and the library, which holds the contexts \<open>held\<close>: it calls back for a context it
  holds, and for none twice.
\<close>

inductive r2p2_system ::
  "(r2p2_answers \<Rightarrow> r2p2_state \<Rightarrow> r2p2_result) \<Rightarrow> r2p2_thread \<Rightarrow> observation list \<Rightarrow> r2p2_state \<Rightarrow> nat set \<Rightarrow> bool"
  for step t0 where
  system_start: "r2p2_system step t0 [] (At_head, t0) {}"
| system_step: "r2p2_system step t0 tr (pt, t) held \<Longrightarrow> called_back pt os \<subseteq> held \<Longrightarrow>
    step os (pt, t) = Inr (obs, s') \<Longrightarrow>
    r2p2_system step t0 (tr @ obs) s' ((held - called_back pt os) \<union> sent_ctxs obs)"

text \<open>
  The contract of a loop with the library: a step hands over the context of the request it sends, which the
  library does not hold yet, and takes back that of the call.
\<close>

definition ctx_effect :: "loop_point \<Rightarrow> r2p2_answers \<Rightarrow> observation list \<Rightarrow> r2p2_thread \<Rightarrow> r2p2_thread \<Rightarrow> bool" where
  "ctx_effect pt os obs t t' \<longleftrightarrow> ctx_inv t' \<and> sent_ctxs obs \<inter> handed_over t = {} \<and>
     handed_over t' = (handed_over t - called_back pt os) \<union> sent_ctxs obs"

locale callback_loop =
  fixes step :: "r2p2_answers \<Rightarrow> r2p2_state \<Rightarrow> r2p2_result"
  assumes effect: "step os (pt, t) = Inr (obs, pt', t') \<Longrightarrow> ctx_inv t \<Longrightarrow> called_back pt os \<subseteq> handed_over t \<Longrightarrow>
    ctx_effect pt os obs t t'"
begin

lemma held_is_handed_over:
  "r2p2_system step t0 tr s held \<Longrightarrow> ctx_inv t0 \<Longrightarrow> handed_over t0 = {} \<Longrightarrow>
   ctx_inv (snd s) \<and> handed_over (snd s) = held"
proof (induction rule: r2p2_system.induct)
  case (system_step tr pt t held os obs s')
  then have "ctx_effect pt os obs t (snd s')"
    using effect [of os pt t obs "fst s'" "snd s'"] by simp
  with system_step show ?case by (simp add: ctx_effect_def)
qed simp

end

text \<open>What leaves the contexts alone.\<close>

definition same_ctxs :: "r2p2_thread \<Rightarrow> r2p2_thread \<Rightarrow> bool" where
  "same_ctxs t t' \<longleftrightarrow> ctxs t' = ctxs t \<and> spare t' = spare t \<and> next_ctx t' = next_ctx t"

lemma same_ctxs_basic [simp]:
  "same_ctxs t t" "same_ctxs t (sample_tx ts t)" "same_ctxs t (book_received os brp t)" "same_ctxs t (recv_resp_done h t)"
  by (simp_all add: same_ctxs_def sample_tx_def book_received_def recv_resp_done_def split: prod.split)

lemma same_ctxs_calls:
  "take_request cfg t = Inr (r, t') \<Longrightarrow> same_ctxs t t'"
  "book_sent os n t = Inr t' \<Longrightarrow> same_ctxs t t'"
  "loop_head os t = Inr (obs, pt, t') \<Longrightarrow> same_ctxs t t'"
  by (auto simp: same_ctxs_def take_request_def book_sent_def loop_head_def Let_def bindE_eq_Inr split: if_splits)

lemma same_ctxs_trans: "same_ctxs t t' \<Longrightarrow> same_ctxs t' t'' \<Longrightarrow> same_ctxs t t''"
  by (simp add: same_ctxs_def)

lemma same_ctxs_inv: "same_ctxs t t' \<Longrightarrow> ctx_inv t' = ctx_inv t \<and> handed_over t' = handed_over t"
  by (simp add: same_ctxs_def ctx_inv_def handed_over_def)

lemma quiet_effect:
  assumes "same_ctxs t t'" and "ctx_inv t" and "sent_ctxs obs = {}" and "called_back pt os = {}"
  shows "ctx_effect pt os obs t t'"
  using assms same_ctxs_inv [OF assms(1)] by (simp add: ctx_effect_def)

lemma sent_ctxs_simps [simp]:
  "sent_ctxs [] = {}" "sent_ctxs [Request_sent c w s] = {c}" "sent_ctxs [Responses i brp] = {}"
  by (auto simp: sent_ctxs_def)

text \<open>A request in a new context, and in the spare one.\<close>

lemma add_ctx_effect:
  assumes "same_ctxs t t1" and "same_ctxs (add_ctx x t1) t'" and "ctx_inv t" and "pt \<noteq> At_poll"
  shows "ctx_effect pt os [Request_sent (next_ctx t1) w s] t t'"
proof -
  have n: "next_ctx t1 = next_ctx t" "ctxs t' = (ctxs t)(next_ctx t := Some x)" "spare t' = spare t"
    "next_ctx t' = next_ctx t + 1"
    using assms(1,2) by (simp_all add: same_ctxs_def add_ctx_def)
  have new: "ctxs t (next_ctx t) = None" using assms(3) by (force simp: ctx_inv_def)
  have "spare t \<noteq> Some (next_ctx t)" using assms(3) new by (auto simp: ctx_inv_def)
  with n new assms(3,4) show ?thesis
    by (auto simp: ctx_effect_def ctx_inv_def handed_over_def called_back_def intro: less_SucI)
qed

lemma free_ctx_effect:
  assumes "same_ctxs t t1" and "free_ctx c t1 = Inr t2" and "same_ctxs t2 t'" and "ctx_inv t"
    and "event_ctx ev = c" and "lib_event os = Some ev" and "called_back At_poll os \<subseteq> handed_over t" and "sent_ctxs obs = {}"
  shows "ctx_effect At_poll os obs t t'"
proof -
  have c: "c \<in> handed_over t" using assms(5-7) by (auto simp: called_back_def)
  have n: "ctxs t' = (ctxs t)(c := None)" "spare t' = spare t" "next_ctx t' = next_ctx t"
    using assms(1-3) by (auto simp: same_ctxs_def free_ctx_def split: option.splits)
  have "called_back At_poll os = {c}" using assms(5,6) by (simp add: called_back_def)
  then show ?thesis
    using c n assms(4,8) by (auto simp: ctx_effect_def ctx_inv_def handed_over_def)
qed

lemma callbacks_free:
  "lancet_success_cb g os h c vs t = Inr (brp, t') \<Longrightarrow> \<exists>t1 t2. same_ctxs t t1 \<and> free_ctx c t1 = Inr t2 \<and> same_ctxs t2 t'"
  "lancet_success_timestamping_cb os h c ctx vs t = Inr (brp, t') \<Longrightarrow>
   \<exists>t1 t2. same_ctxs t t1 \<and> free_ctx c t1 = Inr t2 \<and> same_ctxs t2 t'"
  "lancet_success_nic_timestamping_cb os h c rx tx vs t = Inr (brp, t') \<Longrightarrow>
   \<exists>t1 t2. same_ctxs t t1 \<and> free_ctx c t1 = Inr t2 \<and> same_ctxs t2 t'"
proof -
  assume "lancet_success_cb g os h c vs t = Inr (brp, t')"
  then show "\<exists>t1 t2. same_ctxs t t1 \<and> free_ctx c t1 = Inr t2 \<and> same_ctxs t2 t'"
    by (auto simp: lancet_success_cb_def Let_def bindE_eq_Inr) (metis same_ctxs_basic(3,4))
next
  assume "lancet_success_timestamping_cb os h c ctx vs t = Inr (brp, t')"
  then obtain st t2 b where f: "free_ctx c ((book_received os b t)\<lparr>stats := st\<rparr>) = Inr t2" "t' = recv_resp_done h t2"
    by (auto simp: lancet_success_timestamping_cb_def Let_def bindE_eq_Inr)
  have "same_ctxs t ((book_received os b t)\<lparr>stats := st\<rparr>)" by (simp add: same_ctxs_def book_received_def)
  with f show "\<exists>t1 t2. same_ctxs t t1 \<and> free_ctx c t1 = Inr t2 \<and> same_ctxs t2 t'"
    using same_ctxs_basic(4) by blast
next
  assume "lancet_success_nic_timestamping_cb os h c rx tx vs t = Inr (brp, t')"
  then obtain b t1 t2 where f: "free_ctx c t1 = Inr t2" "t' = recv_resp_done h t2"
    and m: "(case timespec_diff (Some rx) (Some tx) of None \<Rightarrow> Inr (book_received os b t)
      | Some d \<Rightarrow> let t = sample_tx tx (book_received os b t) in
          bindE (add_latency_sample (acb os) (latency_ns d) (Some tx) (stats t)) (\<lambda>st. Inr (t\<lparr>stats := st\<rparr>))) = Inr t1"
    by (auto simp: lancet_success_nic_timestamping_cb_def Let_def bindE_eq_Inr)
  have "same_ctxs t t1"
    using m by (auto simp: same_ctxs_def book_received_def sample_tx_def Let_def bindE_eq_Inr split: option.splits prod.splits)
  with f show "\<exists>t1 t2. same_ctxs t t1 \<and> free_ctx c t1 = Inr t2 \<and> same_ctxs t2 t'"
    using same_ctxs_basic(4) by blast
qed

lemma r2p2_poll_effect:
  assumes "r2p2_poll g os t = Inr (obs, pt', t')" and "ctx_inv t" and "called_back At_poll os \<subseteq> handed_over t"
  shows "ctx_effect At_poll os obs t t'"
proof (cases "lib_event os")
  case None
  with assms show ?thesis by (auto simp: r2p2_poll_def called_back_def intro: quiet_effect)
next
  case (Some ev)
  have "\<exists>t1 t2. same_ctxs t t1 \<and> free_ctx (event_ctx ev) t1 = Inr t2 \<and> same_ctxs t2 t' \<and> sent_ctxs obs = {}"
  proof (cases ev)
    case (Resp_success c h vs rx tx)
    with Some assms(1) obtain ctx where ctx: "ctxs t c = Some ctx" by (auto simp: r2p2_poll_def split: option.splits)
    show ?thesis
      using assms(1) Some Resp_success ctx callbacks_free [where t = t and t' = t']
      by (cases "success_cb ctx") (auto simp: r2p2_poll_def bindE_eq_Inr)
  qed (use assms(1) Some in \<open>auto simp: r2p2_poll_def lancet_error_cb_def lancet_timeout_cb_def bindE_eq_Inr intro: same_ctxs_basic\<close>)
  with assms(2,3) Some show ?thesis by (blast intro: free_ctx_effect)
qed

lemma throughput_r2p2_issue_effect:
  assumes "throughput_r2p2_issue lib cfg os t = Inr (obs, pt', t')" and "ctx_inv t" and "pt \<noteq> At_poll"
  shows "ctx_effect pt os obs t t'"
proof -
  from assms(1) obtain r t1 dest e x t2 where t1: "take_request cfg t = Inr (r, t1)"
    and t2: "book_sent os (int (bytes_to_send r)) (sample_tx (clock os) (add_ctx x (t1\<lparr>renv := e\<rparr>))) = Inr t2"
    and o: "obs = [Request_sent (next_ctx t1) (request_payload r) (now os)]" "t' = t2"
    by (auto simp: throughput_r2p2_issue_def Let_def bindE_eq_Inr)
  have "same_ctxs t (t1\<lparr>renv := e\<rparr>)" using same_ctxs_calls(1) [OF t1] by (simp add: same_ctxs_def)
  moreover have "same_ctxs (add_ctx x (t1\<lparr>renv := e\<rparr>)) t'"
    using same_ctxs_calls(2) [OF t2] same_ctxs_basic(2) same_ctxs_trans o(2) by blast
  ultimately show ?thesis using add_ctx_effect assms(2,3) unfolding o(1) by fastforce
qed

lemma symmetric_r2p2_issue_effect:
  assumes "symmetric_r2p2_issue lib cfg os t = Inr (obs, pt', t')" and "ctx_inv t" and "pt \<noteq> At_poll"
  shows "ctx_effect pt os obs t t'"
proof -
  from assms(1) obtain r t1 e x ia e' st where t1: "take_request cfg t = Inr (r, t1)"
    and o: "obs = [Request_sent (next_ctx t1) (request_payload r) (now os)]"
    and t': "t' = (sample_tx (clock os) ((add_ctx x (t1\<lparr>renv := e\<rparr>))\<lparr>stats := st\<rparr>))\<lparr>next_tx := ia, renv := e'\<rparr>"
    by (auto simp: symmetric_r2p2_issue_def Let_def bindE_eq_Inr)
  have "same_ctxs t (t1\<lparr>renv := e\<rparr>)" using same_ctxs_calls(1) [OF t1] by (simp add: same_ctxs_def)
  moreover have "same_ctxs (add_ctx x (t1\<lparr>renv := e\<rparr>)) t'"
    unfolding t' by (simp add: same_ctxs_def sample_tx_def split: prod.split)
  ultimately show ?thesis using add_ctx_effect assms(2,3) unfolding o by fastforce
qed

lemma nic_r2p2_issue_effect:
  assumes "nic_r2p2_issue cfg os t = Inr (obs, pt', t')" and "ctx_inv t" and "pt \<noteq> At_poll"
  shows "ctx_effect pt os obs t t'"
proof -
  from assms(1) obtain ia e r t1 c e' x st where t1: "take_request cfg (t\<lparr>next_tx := next_tx t + ia, renv := e\<rparr>) = Inr (r, t1)"
    and c: "spare t1 = Some c" and o: "obs = [Request_sent c (request_payload r) (now os)]"
    and t': "t' = new_spare (malloc_ok os) (t1\<lparr>renv := e', ctxs := (ctxs t1)(c := Some x), stats := st\<rparr>)"
    by (auto simp: nic_r2p2_issue_def Let_def bindE_eq_Inr split: option.splits)
  have s: "ctxs t1 = ctxs t" "spare t1 = spare t" "next_ctx t1 = next_ctx t"
    using same_ctxs_calls(1) [OF t1] by (simp_all add: same_ctxs_def)
  with assms(2) c have c': "ctxs t c \<noteq> None" "c < next_ctx t" "ctxs t (next_ctx t) = None"
    by (auto simp: ctx_inv_def)
  have sp: "spare t = Some c" "c \<noteq> next_ctx t" using c s(2) c'(2) by simp_all
  show ?thesis
    using assms(2,3) s sp c'(2,3) unfolding t' o
    by (cases "malloc_ok os") (auto simp: ctx_effect_def ctx_inv_def handed_over_def new_spare_def add_ctx_def called_back_def intro: less_SucI)
qed

lemma r2p2_head_effect: "loop_head os t = Inr (obs, pt', t') \<Longrightarrow> ctx_inv t \<Longrightarrow> pt \<noteq> At_poll \<Longrightarrow> ctx_effect pt os obs t t'"
  using same_ctxs_calls(3) [of os t obs pt' t'] loop_head_schedule [of os t obs pt' t']
  by (auto simp: called_back_def intro: quiet_effect)

lemma stay_effect: "ctx_inv t \<Longrightarrow> pt \<noteq> At_poll \<Longrightarrow> ctx_effect pt os [] t t"
  by (simp add: quiet_effect called_back_def)

lemmas r2p2_effects = r2p2_poll_effect throughput_r2p2_issue_effect symmetric_r2p2_issue_effect nic_r2p2_issue_effect
  r2p2_head_effect stay_effect

interpretation throughput_r2p2: callback_loop "throughput_r2p2_step g lib cfg" for g lib cfg
proof unfold_locales
  fix os pt t obs pt' t'
  assume "throughput_r2p2_step g lib cfg os (pt, t) = Inr (obs, pt', t')" "ctx_inv t" "called_back pt os \<subseteq> handed_over t"
  then show "ctx_effect pt os obs t t'" by (cases pt) (auto split: if_splits intro: r2p2_effects)
qed

interpretation symmetric_r2p2: callback_loop "symmetric_r2p2_step g lib cfg" for g lib cfg
proof unfold_locales
  fix os pt t obs pt' t'
  assume "symmetric_r2p2_step g lib cfg os (pt, t) = Inr (obs, pt', t')" "ctx_inv t" "called_back pt os \<subseteq> handed_over t"
  then show "ctx_effect pt os obs t t'" by (cases pt) (auto split: if_splits intro: r2p2_effects)
qed

interpretation nic_r2p2: callback_loop "nic_r2p2_step g cfg" for g cfg
proof unfold_locales
  fix os pt t obs pt' t'
  assume "nic_r2p2_step g cfg os (pt, t) = Inr (obs, pt', t')" "ctx_inv t" "called_back pt os \<subseteq> handed_over t"
  then show "ctx_effect pt os obs t t'" by (cases pt) (auto split: if_splits intro: r2p2_effects)
qed
text \<open>The three loops with the states they start in.\<close>

definition r2p2_loops ::
  "u64 \<Rightarrow> r2p2_lib \<Rightarrow> agent_config \<Rightarrow> int \<Rightarrow> rand_env \<Rightarrow> ((r2p2_answers \<Rightarrow> r2p2_state \<Rightarrow> r2p2_result) \<times> r2p2_thread) set" where
  "r2p2_loops g lib cfg s0 e =
     {(throughput_r2p2_step g lib cfg, t0) | t0. r2p2_start True s0 e = Some t0} \<union>
     {(symmetric_r2p2_step g lib cfg, t0) | t0. r2p2_start True s0 e = Some t0} \<union>
     {(nic_r2p2_step g cfg, t0) | t0 ok. nic_r2p2_start True ok s0 e = Some t0}"

lemma r2p2_start_inv:
  "ctx_inv (r2p2_thread_at socks s0 e)" "handed_over (r2p2_thread_at socks s0 e) = {}"
  "ctx_inv (new_spare ok (r2p2_thread_at socks s0 e))" "handed_over (new_spare ok (r2p2_thread_at socks s0 e)) = {}"
  by (auto simp: r2p2_thread_at_def ctx_inv_def handed_over_def new_spare_def add_ctx_def)

text \<open>
  Property C13. Contexts are neither leaked nor freed twice. In every run of the three polling loops with a library that
  calls back for contexts it holds, and for none twice, the allocated contexts are at every point exactly those the
  library holds and the spare one of the agent with hardware time stamps; so every call finds its context
  allocated, and after it the context is gone.
\<close>

theorem r2p2_contexts_owned:
  assumes "r2p2_system step t0 tr (pt, t) held" and "(step, t0) \<in> r2p2_loops g lib cfg s0 e"
  shows "{c. ctxs t c \<noteq> None} = held \<union> set_option (spare t) \<and> held \<inter> set_option (spare t) = {} \<and>
    (\<forall>c \<in> held. \<exists>t'. free_ctx c t = Inr t' \<and> ctxs t' c = None)"
proof -
  have "ctx_inv t0 \<and> handed_over t0 = {}"
    using assms(2) r2p2_start_inv by (auto simp: r2p2_loops_def r2p2_start_def nic_r2p2_start_def)
  with assms have "ctx_inv t \<and> handed_over t = held"
    using throughput_r2p2.held_is_handed_over [of g lib cfg t0 tr "(pt, t)" held]
      symmetric_r2p2.held_is_handed_over [of g lib cfg t0 tr "(pt, t)" held]
      nic_r2p2.held_is_handed_over [of g cfg t0 tr "(pt, t)" held]
    by (auto simp: r2p2_loops_def)
  then show ?thesis
    by (cases "spare t") (auto simp: ctx_inv_def handed_over_def free_ctx_def split: option.splits)
qed

text \<open>A library whose messages are one datagram, and an agent that sends one request and gets its response.\<close>

definition some_r2p2 :: r2p2_lib where
  "some_r2p2 = \<lparr>prepare_msg = \<lambda>vs policy rid. [concat (map iov_data vs)], header_to_host = \<lambda>b. b, header_rid = \<lambda>b. 0,
     header_is_last = \<lambda>b. True, header_size = 16, fixed_route = 0\<rparr>"

definition r2p2_os :: "int \<Rightarrow> r2p2_event option \<Rightarrow> r2p2_answers" where
  "r2p2_os s ev = \<lparr>acb = echo1_acb, now = s, later = s, clock = zero_ts, writes = [Wr 1], polled = [], received = Recv_error,
     controls = [], errqueue = [], lib_event = ev, malloc_ok = True\<rparr>"

definition r2p2_at_100 :: r2p2_thread where
  "r2p2_at_100 = r2p2_thread_at [] 100 start_env"

lemmas r2p2_simps = r2p2_os_def r2p2_at_100_def r2p2_thread_at_def some_r2p2_def echo1_config_def echo1_proto_def some_config_def
  take_request_def prepare_request_def create_request_def echo_create_request_def bytes_to_send_def pick_target_def
  book_sent_def add_ctx_def

lemma r2p2_sends:
  "\<exists>t1. throughput_r2p2_step 7 some_r2p2 echo1_config (r2p2_os 130 None) (At_send, r2p2_at_100) =
     Inr ([Request_sent 0 ''#'' 130], At_poll, t1)"
  by (simp add: throughput_r2p2_issue_def r2p2_simps Let_def sample_tx_def echo1_ia request_payload_def
      split: prod.splits)

lemma r2p2_one_request:
  "\<exists>t. r2p2_system (throughput_r2p2_step 7 some_r2p2 echo1_config) r2p2_at_100 [Request_sent 0 ''#'' 130] (At_poll, t) {0} \<and>
     loop_run (throughput_r2p2_step 7 some_r2p2 echo1_config) (\<lambda>os. should_load (acb os) \<and> acb os = echo1_acb)
       (At_head, r2p2_at_100) [Request_sent 0 ''#'' 130] (At_poll, t)"
proof -
  let ?step = "throughput_r2p2_step 7 some_r2p2 echo1_config" and ?os = "r2p2_os 130 None"
  let ?env = "\<lambda>os :: r2p2_answers. should_load (acb os) \<and> acb os = echo1_acb"
  have h: "?step ?os (At_head, r2p2_at_100) = Inr ([], At_send, r2p2_at_100)"
    by (simp add: loop_head_def r2p2_os_def echo1_load)
  from r2p2_sends obtain t1 where t1: "?step ?os (At_send, r2p2_at_100) = Inr ([Request_sent 0 ''#'' 130], At_poll, t1)" by blast
  have env: "?env ?os" by (simp add: r2p2_os_def echo1_load)
  have c: "called_back pt ?os = {}" for pt by (simp add: called_back_def r2p2_os_def)
  have "r2p2_system ?step r2p2_at_100 [] (At_send, r2p2_at_100) {}"
    using system_step [OF system_start [of ?step r2p2_at_100] _ h] c by simp
  from system_step [OF this _ t1] c have "r2p2_system ?step r2p2_at_100 [Request_sent 0 ''#'' 130] (At_poll, t1) {0}" by simp
  moreover have "loop_run ?step ?env (At_head, r2p2_at_100) [] (At_send, r2p2_at_100)"
    using run_step [OF run_start [of ?step ?env] env h] by simp
  from run_step [OF this env t1] have "loop_run ?step ?env (At_head, r2p2_at_100) [Request_sent 0 ''#'' 130] (At_poll, t1)" by simp
  ultimately show ?thesis by blast
qed

lemma r2p2_at_100_loops: "(throughput_r2p2_step g lib cfg, r2p2_at_100) \<in> r2p2_loops g lib cfg 100 start_env"
  by (auto simp: r2p2_loops_def r2p2_start_def r2p2_at_100_def)

theorem r2p2_contexts_owned_witness:
  "\<exists>t. r2p2_system (throughput_r2p2_step 7 some_r2p2 echo1_config) r2p2_at_100 [Request_sent 0 ''#'' 130] (At_poll, t) {0} \<and>
    {c. ctxs t c \<noteq> None} = {0} \<union> set_option (spare t)"
proof -
  from r2p2_one_request obtain t where
    t: "r2p2_system (throughput_r2p2_step 7 some_r2p2 echo1_config) r2p2_at_100 [Request_sent 0 ''#'' 130] (At_poll, t) {0}" by blast
  from r2p2_contexts_owned [OF t r2p2_at_100_loops] t show ?thesis by blast
qed

subsection \<open>The schedule\<close>

lemma r2p2_poll_next_tx: "r2p2_poll g os t = Inr (obs, pt', t') \<Longrightarrow> next_tx t' = next_tx t \<and> request_times obs = [] \<and> length obs \<le> 1"
  by (auto simp: r2p2_poll_def lancet_success_cb_def lancet_success_timestamping_cb_def lancet_success_nic_timestamping_cb_def
      lancet_error_cb_def lancet_timeout_cb_def free_ctx_def recv_resp_done_def bindE_eq_Inr Let_def
      split: option.splits r2p2_event.splits success_fn.splits)

lemma r2p2_issue_paced:
  assumes "next_tx t \<le> now os"
  shows "throughput_r2p2_issue lib cfg os t = Inr (obs, pt', t') \<Longrightarrow> schedule_effect os obs t t' \<and> length obs \<le> 1"
    and "symmetric_r2p2_issue lib cfg os t = Inr (obs, pt', t') \<Longrightarrow> schedule_effect os obs t t' \<and> length obs \<le> 1"
    and "nic_r2p2_issue cfg os t = Inr (obs, pt', t') \<Longrightarrow> schedule_effect os obs t t' \<and> length obs \<le> 1"
proof -
  have a: "next_tx (add_ctx x t) = next_tx t" "next_tx (new_spare ok t) = next_tx t" for x ok and t :: r2p2_thread
    by (simp_all add: add_ctx_def new_spare_def)
  show "schedule_effect os obs t t' \<and> length obs \<le> 1" if i: "throughput_r2p2_issue lib cfg os t = Inr (obs, pt', t')"
  proof -
    from i obtain r t1 e x c w where t1: "take_request cfg t = Inr (r, t1)"
      and b: "book_sent os (int (bytes_to_send r)) (sample_tx (clock os) (add_ctx x (t1\<lparr>renv := e\<rparr>))) = Inr t'"
      and o: "obs = [Request_sent c w (now os)]"
      by (auto simp: throughput_r2p2_issue_def Let_def bindE_eq_Inr)
    from schedule_sent [OF b _ assms] take_request_next_tx [OF t1] show ?thesis by (simp add: a o)
  qed
  show "schedule_effect os obs t t' \<and> length obs \<le> 1" if i: "symmetric_r2p2_issue lib cfg os t = Inr (obs, pt', t')"
  proof -
    from i obtain r t1 c w ia e e' where t1: "take_request cfg t = Inr (r, t1)"
      and b: "get_ia (acb os) e = Inr (ia, e')" "next_tx t' = next_tx t1 + ia" and o: "obs = [Request_sent c w (now os)]"
      by (auto simp: symmetric_r2p2_issue_def Let_def bindE_eq_Inr a)
    with take_request_next_tx [OF t1] assms show ?thesis by (auto simp: schedule_effect_def)
  qed
  show "schedule_effect os obs t t' \<and> length obs \<le> 1" if i: "nic_r2p2_issue cfg os t = Inr (obs, pt', t')"
  proof -
    from i obtain r t1 c w ia e where b: "get_ia (acb os) (renv t) = Inr (ia, e)"
      and t1: "take_request cfg (t\<lparr>next_tx := next_tx t + ia, renv := e\<rparr>) = Inr (r, t1)"
      and n: "next_tx t' = next_tx t1" and o: "obs = [Request_sent c w (now os)]"
      by (auto simp: nic_r2p2_issue_def Let_def bindE_eq_Inr a split: option.splits)
    with take_request_next_tx [OF t1] assms show ?thesis by (auto simp: schedule_effect_def)
  qed
qed

lemma r2p2_poll_paced:
  "r2p2_poll g os t = Inr (obs, pt', t') \<Longrightarrow> schedule_effect os obs t t' \<and> length obs \<le> 1"
  using r2p2_poll_next_tx schedule_quiet by blast

lemma r2p2_head_paced: "loop_head os t = Inr (obs, pt, t') \<Longrightarrow> schedule_effect os obs t t' \<and> length obs \<le> 1"
  using loop_head_schedule by fastforce

lemma r2p2_stay_paced: "schedule_effect os [] t t"
  by (simp add: schedule_quiet)

interpretation throughput_r2p2_paced: open_loop "throughput_r2p2_step g lib cfg" for g lib cfg
proof unfold_locales
  fix os pt t obs pt' t'
  assume "throughput_r2p2_step g lib cfg os (pt, t) = Inr (obs, pt', t')"
  then show "schedule_effect os obs t t' \<and> length obs \<le> 1"
    using r2p2_issue_paced(1) r2p2_poll_paced r2p2_head_paced r2p2_stay_paced by (cases pt) (fastforce split: if_splits)+
qed

interpretation symmetric_r2p2_paced: open_loop "symmetric_r2p2_step g lib cfg" for g lib cfg
proof unfold_locales
  fix os pt t obs pt' t'
  assume "symmetric_r2p2_step g lib cfg os (pt, t) = Inr (obs, pt', t')"
  then show "schedule_effect os obs t t' \<and> length obs \<le> 1"
    using r2p2_issue_paced(2) r2p2_poll_paced r2p2_head_paced r2p2_stay_paced by (cases pt) (fastforce split: if_splits)+
qed

interpretation nic_r2p2_paced: open_loop "nic_r2p2_step g cfg" for g cfg
proof unfold_locales
  fix os pt t obs pt' t'
  assume "nic_r2p2_step g cfg os (pt, t) = Inr (obs, pt', t')"
  then show "schedule_effect os obs t t' \<and> length obs \<le> 1"
    using r2p2_issue_paced(3) r2p2_poll_paced r2p2_head_paced r2p2_stay_paced by (cases pt) (fastforce split: if_splits)+
qed



subsection \<open>What the counters count\<close>

text \<open>The datagram in the buffer after a read, with its id in host order.\<close>

definition read_dgram :: "r2p2_lib \<Rightarrow> bytes \<Rightarrow> bytes \<Rightarrow> bytes" where
  "read_dgram lib avail bf = header_to_host lib (take 1500 avail @ drop (length (take 1500 avail)) bf)"

lemma latency_done_counts:
  assumes "should_measure (acb os)" and "sampling_period (acb os) = Inr 1" and "start < later os"
    and "\<And>e. \<exists>ia e'. get_ia (acb os) e = Inr (ia, e')"
  shows "\<exists>t'. latency_r2p2_done lib os i start t =
      Inr ([Responses i (BRP (of_int (got_bytes t) - of_nat (header_size lib)) 1)], At_head, t') \<and>
    th_rx (stats t') = th_rx (stats t) + BRP (of_int (got_bytes t) - of_nat (header_size lib)) 1 \<and>
    inc_idx (stats t') = inc_idx (stats t) + 1"
proof -
  from assms(4) [of "renv t"] obtain ia e' where ia: "get_ia (acb os) (renv t) = Inr (ia, e')" by blast
  with assms(1-3) show ?thesis
    by (simp add: latency_r2p2_done_def add_latency_sample_def Let_def book_received_def add_throughput_rx_sample_eq)
qed


lemma echo1_measured: "should_measure echo1_acb" "sampling_period echo1_acb = Inr 1"
  by (simp_all add: echo1_acb_def measuring_def should_measure_def sampling_period_def get_sampling_rate_def lround_def Let_def)

definition waiting_ctx :: r2p2_ctx where
  "waiting_ctx = \<lparr>success_cb = Success_cb, destination = \<lparr>ip = 0, port = 0\<rparr>, ctx_timeout = 0, routing_policy = 0,
     nic_rx = zero_ts, nic_tx = zero_ts, sent_at = zero_ts\<rparr>"


end
