(* ===== verification/R2p2_Build.thy ===== *)
theory R2p2_Build
  imports R2p2 Args
begin

section \<open>The build with R2P2: routes and arguments\<close>

text \<open>
  What \<open>ENABLE_R2P2\<close> changes outside of the transport: the requests of the replicated and of the Redis workloads carry a
  route (\<open>redis.c\<close>, \<open>app_proto.c\<close>), and the arguments know the transport (\<open>args.c\<close>). The proofs follow a
  route from the workload to the context the library is given.
\<close>

subsection \<open>Routes\<close>

text \<open>The other routes the library knows, constants of its \<open>api.h\<close>.\<close>

record route_lib = r2p2_lib +
  lb_route :: u64
  replicated_route :: u64
  replicated_route_no_se :: u64

definition redis_kv_create_request_r2p2 ::
  "route_lib \<Rightarrow> kv_info \<Rightarrow> rand_env \<Rightarrow> request \<Rightarrow> (request \<times> rand_env) result" where
  "redis_kv_create_request_r2p2 lib info e req =
     bindE (pick_key info e) (\<lambda>(key, e).
     let key_len_str = show_int (int (iov_len key));
         ln = mk_iov (CRLF @ [NUL]) 2;
         fix_key = [mk_iov (cstr key_len_str) (length key_len_str), ln, key, ln];
         (write, e) = pick_write info e in
     if write then
       bindE (pick_val_len info e) (\<lambda>(val_len, e).
       let val_len_str = show_int val_len in
       Inr (req\<lparr>iovs := mk_iov (set_prem @ [NUL]) 14 # fix_key @
                  [mk_iov (''$'' @ [NUL]) 1, mk_iov (cstr val_len_str) (length val_len_str), ln,
                   mk_iov random_char (size_of_int val_len), ln],
                iov_cnt := 10, meta := fixed_route lib\<rparr>, e))
     else
       Inr (req\<lparr>iovs := mk_iov (get_prem @ [NUL]) 14 # fix_key, iov_cnt := 5, meta := lb_route lib\<rparr>, e))"

definition redis_ycsbe_create_request_r2p2 ::
  "route_lib \<Rightarrow> ycsbe_info \<Rightarrow> rand_env \<Rightarrow> request \<Rightarrow> (request \<times> rand_env) result" where
  "redis_ycsbe_create_request_r2p2 lib info e req =
     bindE (c_rand_mod (ycsbe_key_count info) e) (\<lambda>(key, e).
     let ycsbe_key = show_int key @ '' '';
         (y, e) = env_drand48 e in
     if y \<le> scan_ratio info then
       bindE (c_rand_mod (scan_len info) e) (\<lambda>(r, e).
       let scan_count = r + 1;
           ycsbe_scan = show_int scan_count @ [LF];
           req = req\<lparr>iovs := [mk_iov (cstr ''ycsbe.scan '') 11, mk_iov (cstr ycsbe_key) (length ycsbe_key),
                       mk_iov (cstr ycsbe_scan) (length ycsbe_scan)], iov_cnt := 3\<rparr> in
       Inr (req\<lparr>meta := if replicated info then replicated_route_no_se lib else 0\<rparr>, e))
     else
       let req = req\<lparr>iovs := [mk_iov (cstr ''ycsbe.insert '') 13, mk_iov (cstr ycsbe_key) (length ycsbe_key),
                       mk_iov (fixed_req_body info) (field_count info * (field_size info + 1))],
                     iov_cnt := 3\<rparr> in
       Inr (req\<lparr>meta := if replicated info then replicated_route lib else 0\<rparr>, e))"

definition stss_create_request_r2p2 ::
  "route_lib \<Rightarrow> stss_data \<Rightarrow> rand_env \<Rightarrow> request \<Rightarrow> (request \<times> rand_env) result" where
  "stss_create_request_r2p2 lib data e req =
     bindE (generate (time_gen data) e) (\<lambda>(v0, e).
     bindE (generate (req_size_gen data) e) (\<lambda>(v1, e).
     bindE (generate (rep_size_gen data) e) (\<lambda>(v2, e).
       let payload = concat (map (\<lambda>v. store64 (of_int (lround v))) [v0, v1, v2]);
           req = req\<lparr>iovs := [mk_iov payload 24, mk_iov random_char (size_of_int (lround v1))], iov_cnt := 2\<rparr> in
       if stss_replicated data then
         let (y, e) = env_drand48 e in
         Inr (req\<lparr>meta := if y \<le> read_ratio data then replicated_route_no_se lib else replicated_route lib\<rparr>, e)
       else Inr (req\<lparr>meta := 0\<rparr>, e))))"

subsection \<open>The function tables\<close>

fun redis_table_r2p2 :: "route_lib \<Rightarrow> redis_variant \<Rightarrow> application_protocol" where
  "redis_table_r2p2 lib (REDIS_KV data) =
     \<lparr>proto_type = PROTO_REDIS, create_request_fn = redis_kv_create_request_r2p2 lib data,
      consume_response_fn = Some redis_kv_consume_response\<rparr>"
| "redis_table_r2p2 lib (REDIS_YCSBE info) =
     \<lparr>proto_type = PROTO_REDIS_YCSBE, create_request_fn = redis_ycsbe_create_request_r2p2 lib info,
      consume_response_fn = None\<rparr>"

definition stss_init_r2p2 :: "route_lib \<Rightarrow> int \<Rightarrow> string \<Rightarrow> application_protocol result" where
  "stss_init_r2p2 lib garbage proto =
     (let (token, p) = strtok_r ''_'' proto in
      case token of
        None \<Rightarrow> Inl NullDeref
      | Some tok \<Rightarrow>
          bindE (assertE (has_prefix tok ''stss'')) (\<lambda>_.
          let replicated = has_prefix tok ''stssr''; (token, p) = strtok_r ''_'' p in
          bindE (bindE (init_rand_ptr token) assert_ptr) (\<lambda>tg.
          let (token, p) = strtok_r ''_'' p in
          bindE (bindE (init_rand_ptr token) assert_ptr) (\<lambda>qg.
          let (token, p) = strtok_r ''_'' p in
          bindE (bindE (init_rand_ptr token) assert_ptr) (\<lambda>rg.
          bindE (if replicated then atof_ptr (fst (strtok_r ''_'' p)) else Inr 0) (\<lambda>ratio.
            let data = \<lparr>time_gen = tg, req_size_gen = qg, rep_size_gen = rg,
                        stss_replicated = replicated, read_ratio = ratio\<rparr> in
            Inr \<lparr>proto_type = PROTO_STSS, create_request_fn = stss_create_request_r2p2 lib data,
                 consume_response_fn = Some (stss_consume_response garbage)\<rparr>))))))"

definition init_app_proto_r2p2 :: "route_lib \<Rightarrow> int \<Rightarrow> application_protocol \<Rightarrow> string \<Rightarrow> application_protocol option result" where
  "init_app_proto_r2p2 lib garbage raw proto =
     (if has_prefix proto ''echo'' then bindE (echo_init proto) (\<lambda>p. Inr (Some p))
      else if has_prefix proto ''synthetic'' then bindE (synthetic_init proto) (\<lambda>p. Inr (Some p))
      else if has_prefix proto ''redis'' then bindE (redis_init proto) (\<lambda>v. Inr (Some (redis_table_r2p2 lib v)))
      else if has_prefix proto ''memcache'' then
        bindE (memcache_init proto) (\<lambda>r. Inr (Some (case r of None \<Rightarrow> raw | Some d \<Rightarrow> memcache_table d)))
      else if has_prefix proto ''http'' then bindE (http_proto_init proto) (\<lambda>p. Inr (Some p))
      else if has_prefix proto ''stss'' then bindE (stss_init_r2p2 lib garbage proto) (\<lambda>p. Inr (Some p))
      else Inr None)"

subsection \<open>Arguments\<close>

definition transport_of_r2p2 :: "string \<Rightarrow> transport_protocol_type option" where
  "transport_of_r2p2 s =
     (if s = ''TCP'' then Some TCP else if s = ''R2P2'' then Some R2P2 else if s = ''UDP'' then Some UDP
      else if s = ''TLS'' then Some TLS else None)"

text \<open>The options that the build changes are those of the transport and of the protocol.\<close>

definition set_option_r2p2 ::
  "route_lib \<Rightarrow> int \<Rightarrow> application_protocol \<Rightarrow> char \<Rightarrow> string \<Rightarrow> arg_config \<Rightarrow> arg_config option result" where
  "set_option_r2p2 lib garbage raw c optarg cfg =
     (if c = CHR ''p'' then Inr (map_option (\<lambda>tp. cfg\<lparr>arg_tp_type := tp\<rparr>) (transport_of_r2p2 optarg))
      else if c = CHR ''r'' then
        bindE (init_app_proto_r2p2 lib garbage raw optarg) (\<lambda>r. Inr (map_option (\<lambda>p. cfg\<lparr>arg_app_proto := Some p\<rparr>) r))
      else set_option garbage raw c optarg cfg)"

fun parse_options_r2p2 ::
  "route_lib \<Rightarrow> int \<Rightarrow> application_protocol \<Rightarrow> string list \<Rightarrow> arg_config \<Rightarrow> arg_config option result" where
  "parse_options_r2p2 lib garbage raw [] cfg = Inr (Some cfg)"
| "parse_options_r2p2 lib garbage raw (a # args) cfg =
     (if a = ''--'' then Inr (Some cfg)
      else if length a < 2 \<or> hd a \<noteq> CHR ''-'' then parse_options_r2p2 lib garbage raw args cfg
      else if a ! 1 \<notin> set ''tscapirno'' then Inl ExitFail
      else if drop 2 a \<noteq> [] then
        bindE (set_option_r2p2 lib garbage raw (a ! 1) (drop 2 a) cfg) (\<lambda>r.
          case r of None \<Rightarrow> Inr None | Some cfg \<Rightarrow> parse_options_r2p2 lib garbage raw args cfg)
      else case args of
        [] \<Rightarrow> Inl ExitFail
      | optarg # args \<Rightarrow>
          bindE (set_option_r2p2 lib garbage raw (a ! 1) optarg cfg) (\<lambda>r.
            case r of None \<Rightarrow> Inr None | Some cfg \<Rightarrow> parse_options_r2p2 lib garbage raw args cfg))"

text \<open>The addresses in the order of the host, except for the latency agent, which gives them to \<open>sendto\<close>.\<close>

definition targets_to_host :: "arg_config \<Rightarrow> arg_config" where
  "targets_to_host cfg =
     (if arg_tp_type cfg = R2P2 \<and> arg_atype cfg \<noteq> LATENCY_AGENT
      then cfg\<lparr>arg_targets := map (\<lambda>h. h\<lparr>ip := ntohl (ip h)\<rparr>) (arg_targets cfg)\<rparr> else cfg)"

fun init_transport_protocol_r2p2 :: "transport_protocol_type \<Rightarrow> transport_protocol_type option" where
  "init_transport_protocol_r2p2 TCP = Some TCP"
| "init_transport_protocol_r2p2 UDP = Some UDP"
| "init_transport_protocol_r2p2 TLS = Some TLS"
| "init_transport_protocol_r2p2 R2P2 = Some R2P2"

definition parse_arguments_r2p2 ::
  "route_lib \<Rightarrow> int \<Rightarrow> application_protocol \<Rightarrow> string list \<Rightarrow> arg_config option result" where
  "parse_arguments_r2p2 lib garbage raw argv =
     bindE (parse_options_r2p2 lib garbage raw (tl argv) zero_config) (\<lambda>r.
       case r of
         None \<Rightarrow> Inr None
       | Some cfg \<Rightarrow>
           let cfg = targets_to_host cfg in
           (case init_transport_protocol_r2p2 (arg_tp_type cfg) of None \<Rightarrow> Inr None | Some tp \<Rightarrow> Inr (Some cfg)))"

text \<open>\<open>main\<close>, as in \<open>agent_main\<close>.\<close>

definition agent_main_r2p2 ::
  "route_lib \<Rightarrow> int \<Rightarrow> application_protocol \<Rightarrow> string list \<Rightarrow> (agent_config \<times> agent_control_block \<times> nat list) result" where
  "agent_main_r2p2 lib garbage raw argv =
     bindE (parse_arguments_r2p2 lib garbage raw argv) (\<lambda>r.
       case r of
         None \<Rightarrow> Inl ExitFail
       | Some a \<Rightarrow>
           (case arg_idist a of
              None \<Rightarrow> Inl NullDeref
            | Some g \<Rightarrow>
                let cfg = config_of a g in
                if thread_count cfg < 0 then Inl ExitFail
                else if thread_count cfg = 0 then Inl AssertFail
                else Inr (cfg, configure_control_block cfg, [0..<nat (thread_count cfg)])))"

text \<open>A printed target in the order of the host: the first octet is the most significant.\<close>

definition host_order :: "target \<Rightarrow> host_tuple" where
  "host_order t = \<lparr>ip = of_nat (be_val (map char_of (fst t))), port = of_nat (snd t)\<rparr>"

lemma target_host_order: "target_ok t \<Longrightarrow> (target_host t)\<lparr>ip := ntohl (ip (target_host t))\<rparr> = host_order t"
proof -
  assume "target_ok t"
  then have "unat (ntohl (load32 (map char_of (fst t)))) = be_val (map char_of (fst t))"
    by (intro unat_ntohl_load32) (simp add: target_ok_def)
  from arg_cong [OF this, of "of_nat :: nat \<Rightarrow> u32"] have "ntohl (load32 (map char_of (fst t))) = of_nat (be_val (map char_of (fst t)))" by simp
  then show ?thesis by (simp add: target_host_def host_order_def)
qed

text \<open>
  The coordinator's command line for an R2P2 agent gives the configuration it means, with the addresses of the targets in the
  order of the host unless the agent is that of latency.
\<close>

theorem r2p2_agent_starts:
  assumes "\<forall>t \<in> set ts. target_ok t" and "length ts < 64" and "init_rand ia = Inr (Some g)"
    and "init_app_proto_r2p2 lib garbage raw proto = Inr (Some p)"
    and "agent_type_of (int a) = Some ag" and "0 < n" and "n < 2 ^ 31" and "c < 2 ^ 31" and "m < 2 ^ 31"
  shows "agent_main_r2p2 lib garbage raw
      [prog, ''-s'', show_targets ts, ''-t'', show_nat n, ''-c'', show_nat c, ''-o'', show_nat m, ''-i'', ia,
       ''-p'', ''R2P2'', ''-r'', proto, ''-a'', show_nat a] =
    (let cfg = \<lparr>thread_count = int n, conn_count = int c,
        targets = map (if ag = LATENCY_AGENT then target_host else host_order) ts, target_count = int (length ts),
        atype = ag, tp_type = R2P2, idist = g, app_proto = p, if_name = replicate 64 NUL, per_conn_reqs = int m\<rparr>
     in Inr (cfg, configure_control_block cfg, [0..<n]))"
proof -
  have d: "\<not> is_digit NUL" by (simp add: is_digit_def)
  have at: "atoi (cstr (show_nat k)) = Inr (int k)" if "k < 2 ^ 31" for k
    unfolding cstr_def using d that by (rule atoi_show_nat)
  have a: "a < 2 ^ 31" using assms(5) by (simp add: agent_type_of_def split: if_splits)
  from parse_show_targets(1) [OF assms(1), of "[]" None] assms(2) obtain sa where
    ts: "parse_targets (show_targets ts) None [] = Inr (map target_host ts, sa)" by auto
  have h: "map ((\<lambda>h. h\<lparr>ip := ntohl (ip h)\<rparr>) \<circ> target_host) ts = map host_order ts"
    using assms(1) target_host_order by simp
  then show ?thesis
    using assms(3-9) a ts
    by (simp add: agent_main_r2p2_def parse_arguments_r2p2_def set_option_r2p2_def set_option_def zero_config_def at config_of_def
        transport_of_r2p2_def targets_to_host_def h Let_def)
qed

subsection \<open>The route of a request\<close>

lemma request_payload_meta [simp]: "request_payload (r\<lparr>meta := m\<rparr>) = request_payload r"
  by (simp add: request_payload_def)

text \<open>The workload's operations and what they say of the route: \<open>v\<close> is the value of a write.\<close>

definition redis_op :: "bytes \<Rightarrow> bytes \<Rightarrow> bytes option \<Rightarrow> bool" where
  "redis_op w k v \<longleftrightarrow>
     resp_array w = Some (case v of None \<Rightarrow> [''GET'', k] | Some v \<Rightarrow> [''SET'', k, v], [])"

definition kv_route :: "route_lib \<Rightarrow> bytes option \<Rightarrow> u64" where
  "kv_route lib v = (case v of None \<Rightarrow> lb_route lib | Some v \<Rightarrow> fixed_route lib)"

lemma redis_kv_routed:
  assumes "kv_wf info" and "kv_sizes_ok info" and "redis_kv_create_request_r2p2 lib info e req = Inr (req', e')"
  shows "\<exists>k \<in> set (keys (kv_key info)). \<exists>v. redis_op (request_payload req') (iov_data k) v \<and> meta req' = kv_route lib v"
proof -
  obtain k e1 where k: "pick_key info e = Inr (k, e1)" "k \<in> set (keys (kv_key info))" "iov_ok k"
    using pick_key_wf [OF assms(1)] by blast
  obtain w e2 where w: "pick_write info e1 = (w, e2)" by fastforce
  from assms(3) k(1) w obtain r where r: "redis_kv_create_request info e req = Inr (r, e')"
    and req': "req' = r\<lparr>meta := if w then fixed_route lib else lb_route lib\<rparr>"
    by (cases w) (auto simp: redis_kv_create_request_r2p2_def redis_kv_create_request_def Let_def bindE_eq_Inr)
  from redis_request_of_key [OF k(1,3) assms(2) w r] obtain v where
    "redis_op (request_payload r) (iov_data k) v" "w \<longleftrightarrow> v \<noteq> None"
    by (cases w) (force simp: redis_op_def)+
  with k(2) req' show ?thesis by (force simp: kv_route_def)
qed

text \<open>In this build the replicated workloads, which fail an assertion in the other, mark reads and writes.\<close>

theorem ycsbe_routes:
  assumes "has_prefix proto ''redis-ycsber''" and "replicated_route lib \<noteq> replicated_route_no_se lib"
  shows "\<exists>req' e' key. redis_ycsbe_create_request_r2p2 lib (init_redis_ycsbe proto) e req = Inr (req', e') \<and>
    0 \<le> key \<and> key < 1000000 \<and>
    (if meta req' = replicated_route_no_se lib then \<exists>n. 1 \<le> n \<and> n \<le> 10 \<and> request_payload req' = ycsbe_scan_text key n
     else meta req' = replicated_route lib \<and>
       (\<exists>body. length body = 1010 \<and> request_payload req' = ycsbe_insert_text key body))"
proof -
  let ?info = "init_redis_ycsbe proto"
  have info: "replicated ?info" "scan_len ?info = 10" "ycsbe_key_count ?info = 1000000"
    "field_count ?info = 10" "field_size ?info = 100" "length (fixed_req_body ?info) = 1010"
    using assms(1) by (simp_all add: init_redis_ycsbe_def Let_def length_fill_body)
  obtain key e1 where key: "c_rand_mod 1000000 e = Inr (key, e1)" "0 \<le> key" "key < 1000000"
    using c_rand_mod_range [of 1000000 e] by auto
  obtain y e2 where y: "env_drand48 e1 = (y, e2)" by fastforce
  obtain n e3 where n: "c_rand_mod 10 e2 = Inr (n, e3)" "0 \<le> n" "n < 10"
    using c_rand_mod_range [of 10 e2] by auto
  show ?thesis
  proof (cases "y \<le> scan_ratio ?info")
    case True
    with info key n y show ?thesis
      by (intro exI [of _ "_\<lparr>meta := replicated_route_no_se lib\<rparr>"] exI [of _ e3] exI [of _ key])
        (auto simp: redis_ycsbe_create_request_r2p2_def Let_def request_payload_def ycsbe_scan_text_def cstr_def
          intro!: exI [of _ "n + 1"])
  next
    case False
    with info key y assms(2) show ?thesis
      by (intro exI [of _ "_\<lparr>meta := replicated_route lib\<rparr>"] exI [of _ e2] exI [of _ key])
        (auto simp: redis_ycsbe_create_request_r2p2_def Let_def request_payload_def ycsbe_insert_text_def cstr_def)
  qed
qed

subsection \<open>From the workload to the library\<close>

text \<open>
  A context says where its request goes: to the first target, or to any.
\<close>

definition goes_to :: "agent_config \<Rightarrow> bool \<Rightarrow> r2p2_ctx \<Rightarrow> bool" where
  "goes_to cfg first x \<longleftrightarrow> (if first then destination x = hd (targets cfg) else destination x \<in> set (targets cfg))"

lemma pick_target_goes:
  "pick_target cfg first e = Inr (dest, e') \<Longrightarrow> targets cfg \<noteq> [] \<Longrightarrow>
   if first then dest = hd (targets cfg) else dest \<in> set (targets cfg)"
  by (cases first) (auto simp: pick_target_def Let_def split: prod.splits if_splits list.splits)

text \<open>What a step that sends a request does with its route: it asks the protocol for it, and stores route and target in the context.\<close>

definition sent_by :: "agent_config \<Rightarrow> (u64 \<Rightarrow> bool) \<Rightarrow> nat \<Rightarrow> bytes \<Rightarrow> r2p2_thread \<Rightarrow> bool" where
  "sent_by cfg first c w t' \<longleftrightarrow>
     (\<exists>e req r e' x. create_request (app_proto cfg) e req = Inr (r, e') \<and> w = request_payload r \<and> ctxs t' c = Some x \<and>
        routing_policy x = policy_of (meta r) \<and> goes_to cfg (first (meta r)) x)"

lemma take_request_creates:
  "take_request cfg t = Inr (r, t') \<Longrightarrow> \<exists>e req e'. create_request (app_proto cfg) e req = Inr (r, e')"
  by (auto simp: take_request_def prepare_request_def bindE_eq_Inr)

lemma sent_byI:
  assumes "take_request cfg t = Inr (r, t1)" and "pick_target cfg (first (meta r)) e = Inr (dest, e1)" and "targets cfg \<noteq> []"
    and "ctxs t' c = Some x" and "destination x = dest" and "routing_policy x = policy_of (meta r)"
  shows "sent_by cfg first c (request_payload r) t'"
proof -
  from take_request_creates [OF assms(1)] obtain e0 req e0' where r: "create_request (app_proto cfg) e0 req = Inr (r, e0')" by blast
  have "goes_to cfg (first (meta r)) x" using pick_target_goes [OF assms(2,3)] assms(5) by (simp add: goes_to_def)
  with r assms(4,6) show ?thesis unfolding sent_by_def by blast
qed

lemma ctxs_sampled [simp]: "ctxs (sample_tx ts t) = ctxs t"
  by (simp add: sample_tx_def split: prod.split)

lemma ctxs_booked: "book_sent os n t = Inr t' \<Longrightarrow> ctxs t' = ctxs t"
  by (auto simp: book_sent_def Let_def bindE_eq_Inr)

lemma r2p2_sent_by:
  assumes "targets cfg \<noteq> []"
  shows "throughput_r2p2_issue lib cfg os t = Inr ([Request_sent c w s], pt, t') \<Longrightarrow> sent_by cfg (\<lambda>m. m = fixed_route lib) c w t'"
    and "symmetric_r2p2_issue lib cfg os t = Inr ([Request_sent c w s], pt, t') \<Longrightarrow> sent_by cfg (\<lambda>m. m = fixed_route lib) c w t'"
    and "ctx_inv t \<Longrightarrow> nic_r2p2_issue cfg os t = Inr ([Request_sent c w s], pt, t') \<Longrightarrow> sent_by cfg (\<lambda>m. m \<noteq> 0) c w t'"
proof -
  assume "throughput_r2p2_issue lib cfg os t = Inr ([Request_sent c w s], pt, t')"
  then obtain r t1 dest e where r: "take_request cfg t = Inr (r, t1)" "pick_target cfg (meta r = fixed_route lib) (renv t1) = Inr (dest, e)"
    and w: "w = request_payload r" "c = next_ctx t1"
    and b: "book_sent os (int (bytes_to_send r)) (sample_tx (clock os) (add_ctx \<lparr>success_cb = Success_cb, destination = dest,
        ctx_timeout = 5000000, routing_policy = policy_of (meta r), nic_rx = zero_ts, nic_tx = zero_ts, sent_at = zero_ts\<rparr>
        (t1\<lparr>renv := e\<rparr>))) = Inr t'"
    by (auto simp: throughput_r2p2_issue_def bindE_eq_Inr Let_def)
  show "sent_by cfg (\<lambda>m. m = fixed_route lib) c w t'"
    unfolding w(1) by (rule sent_byI [where first = "\<lambda>m. m = fixed_route lib", OF r assms]) (simp add: ctxs_booked [OF b] add_ctx_def w(2), simp_all)
next
  assume "symmetric_r2p2_issue lib cfg os t = Inr ([Request_sent c w s], pt, t')"
  then obtain r t1 dest e where r: "take_request cfg t = Inr (r, t1)" "pick_target cfg (meta r = fixed_route lib) (renv t1) = Inr (dest, e)"
    and w: "w = request_payload r" "c = next_ctx t1" and x: "ctxs t' = (ctxs t1)(next_ctx t1 := Some
        \<lparr>success_cb = Success_timestamping_cb, destination = dest, ctx_timeout = 5000000, routing_policy = policy_of (meta r),
          nic_rx = zero_ts, nic_tx = zero_ts, sent_at = clock os\<rparr>)"
    by (auto simp: symmetric_r2p2_issue_def bindE_eq_Inr Let_def add_ctx_def)
  show "sent_by cfg (\<lambda>m. m = fixed_route lib) c w t'"
    unfolding w(1) by (rule sent_byI [where first = "\<lambda>m. m = fixed_route lib", OF r assms]) (simp add: x w(2), simp_all)
next
  assume inv: "ctx_inv t" and "nic_r2p2_issue cfg os t = Inr ([Request_sent c w s], pt, t')"
  then obtain ia e0 r t1 dest e where t1: "take_request cfg (t\<lparr>next_tx := next_tx t + ia, renv := e0\<rparr>) = Inr (r, t1)"
    and r: "pick_target cfg (meta r \<noteq> 0) (renv t1) = Inr (dest, e)" and w: "w = request_payload r" and c: "spare t1 = Some c"
    and x: "ctxs t' = ctxs (new_spare (malloc_ok os) (t1\<lparr>ctxs := (ctxs t1)(c := Some
        \<lparr>success_cb = Success_nic_timestamping_cb, destination = dest, ctx_timeout = 1000000, routing_policy = policy_of (meta r),
          nic_rx = zero_ts, nic_tx = zero_ts, sent_at = zero_ts\<rparr>)\<rparr>))"
    by (auto simp: nic_r2p2_issue_def bindE_eq_Inr Let_def new_spare_def add_ctx_def split: option.splits)
  have "spare t = Some c" "next_ctx t1 = next_ctx t" using t1 c by (auto simp: take_request_def bindE_eq_Inr)
  with inv have "c \<noteq> next_ctx t1" by (auto simp: ctx_inv_def)
  then show "sent_by cfg (\<lambda>m. m \<noteq> 0) c w t'"
    unfolding w by (intro sent_byI [where first = "\<lambda>m. m \<noteq> 0", OF t1 r assms]) (simp add: x new_spare_def add_ctx_def, simp_all)
qed

lemma redis_sent_by:
  assumes "app_proto cfg = redis_table_r2p2 lib (REDIS_KV info)" and "kv_wf info" and "kv_sizes_ok info"
    and "sent_by cfg first c w t'"
  shows "\<exists>x. ctxs t' c = Some x \<and> (\<exists>k \<in> set (keys (kv_key info)). \<exists>v. redis_op w (iov_data k) v \<and>
    routing_policy x = policy_of (kv_route lib v) \<and> goes_to cfg (first (kv_route lib v)) x)"
proof -
  from assms(4) obtain e req r e' x where r: "create_request (app_proto cfg) e req = Inr (r, e')" and w: "w = request_payload r"
    and x: "ctxs t' c = Some x" "routing_policy x = policy_of (meta r)" "goes_to cfg (first (meta r)) x"
    unfolding sent_by_def by blast
  from r assms(1) have "redis_kv_create_request_r2p2 lib info e req = Inr (r, e')" by (simp add: create_request_def)
  from redis_kv_routed [OF assms(2,3) this] x show ?thesis unfolding w by metis
qed

text \<open>
  Property C28. Over R2P2 a Redis workload keeps its writes together. Whatever the state of the thread, a request that the throughput or the symmetric agent
  sends is a \<open>GET\<close> with the library's load-balancing route, to any of the targets, or a \<open>SET\<close> with the fixed route, and that to the
  first target; so no write goes to another server. The agent with hardware time stamps gives the same routes but picks the
  target by whether the route is a null pointer: there the reads go to the first target as well.
\<close>

theorem redis_routes_over_r2p2:
  assumes "app_proto cfg = redis_table_r2p2 lib (REDIS_KV info)" and "kv_wf info" and "kv_sizes_ok info"
    and "targets cfg \<noteq> []" and "lb_route lib \<noteq> fixed_route lib"
  shows "(\<forall>agent \<in> {throughput_r2p2_step g (r2p2_lib.truncate lib) cfg, symmetric_r2p2_step g (r2p2_lib.truncate lib) cfg}.
      agent os (At_send, t) = Inr ([Request_sent c w s], pt, t') \<longrightarrow>
      (\<exists>x. ctxs t' c = Some x \<and> (\<exists>k \<in> set (keys (kv_key info)). \<exists>v. redis_op w (iov_data k) v \<and>
         routing_policy x = policy_of (kv_route lib v) \<and>
         (if v = None then destination x \<in> set (targets cfg) else destination x = hd (targets cfg))))) \<and>
    (nic_r2p2_step g cfg os (At_send, t) = Inr ([Request_sent c w s], pt, t') \<longrightarrow> ctx_inv t \<longrightarrow> lb_route lib \<noteq> 0 \<longrightarrow>
      (\<exists>x. ctxs t' c = Some x \<and> (\<exists>k \<in> set (keys (kv_key info)). \<exists>v. redis_op w (iov_data k) v \<and>
         routing_policy x = policy_of (kv_route lib v) \<and> (v = None \<longrightarrow> destination x = hd (targets cfg)))))"
proof -
  have fixed: "fixed_route (r2p2_lib.truncate lib) = fixed_route lib" by (simp add: r2p2_lib.defs)
  note routed = redis_sent_by [OF assms(1-3), of _ c w t']
  have kept: "\<exists>x. ctxs t' c = Some x \<and> (\<exists>k \<in> set (keys (kv_key info)). \<exists>v. redis_op w (iov_data k) v \<and>
      routing_policy x = policy_of (kv_route lib v) \<and>
      (if v = None then destination x \<in> set (targets cfg) else destination x = hd (targets cfg)))"
    if "agent \<in> {throughput_r2p2_step g (r2p2_lib.truncate lib) cfg, symmetric_r2p2_step g (r2p2_lib.truncate lib) cfg}"
      and "agent os (At_send, t) = Inr ([Request_sent c w s], pt, t')" for agent
  proof -
    have "sent_by cfg (\<lambda>m. m = fixed_route lib) c w t'"
      using that r2p2_sent_by(1,2) [OF assms(4), of "r2p2_lib.truncate lib"] by (auto simp: fixed split: if_splits)
    from routed [OF this] assms(5) show ?thesis by (fastforce simp: goes_to_def kv_route_def split: option.splits if_splits)
  qed
  have all_first: "\<exists>x. ctxs t' c = Some x \<and> (\<exists>k \<in> set (keys (kv_key info)). \<exists>v. redis_op w (iov_data k) v \<and>
      routing_policy x = policy_of (kv_route lib v) \<and> (v = None \<longrightarrow> destination x = hd (targets cfg)))"
    if "nic_r2p2_step g cfg os (At_send, t) = Inr ([Request_sent c w s], pt, t')" "ctx_inv t" "lb_route lib \<noteq> 0"
  proof -
    have "sent_by cfg (\<lambda>m. m \<noteq> 0) c w t'" using that(1,2) r2p2_sent_by(3) [OF assms(4)] by (auto split: if_splits)
    from routed [OF this] that(3) show ?thesis by (fastforce simp: goes_to_def kv_route_def)
  qed
  show ?thesis by (intro conjI ballI impI; rule kept all_first; assumption)
qed

text \<open>One key, and every operation writes it; two servers.\<close>

definition some_routes :: route_lib where
  "some_routes = \<lparr>prepare_msg = \<lambda>vs policy rid. [concat (map iov_data vs)], header_to_host = \<lambda>b. b, header_rid = \<lambda>b. 0,
     header_is_last = \<lambda>b. True, header_size = 16, fixed_route = 1, lb_route = 2, replicated_route = 3, replicated_route_no_se = 4\<rparr>"

definition writing_config :: agent_config where
  "writing_config = (some_config (redis_table_r2p2 some_routes (REDIS_KV (one_key_info (- 1)))) 1 1 1)
     \<lparr>targets := [\<lparr>ip = 1, port = 80\<rparr>, \<lparr>ip = 2, port = 80\<rparr>], target_count := 2\<rparr>"

lemma writing_config_sends:
  "\<exists>w t'. symmetric_r2p2_step 7 (r2p2_lib.truncate some_routes) writing_config (r2p2_os 130 None) (At_send, r2p2_at_100) =
     Inr ([Request_sent 0 w 130], At_poll, t') \<and> map_option routing_policy (ctxs t' 0) = Some 1"
proof -
  obtain e1 where "pick_key (one_key_info (- 1)) start_env = Inr (mk_iov ''k'' 1, e1)" using one_key_pick by blast
  then obtain r e where r: "redis_kv_create_request_r2p2 some_routes (one_key_info (- 1)) start_env empty_request = Inr (r, e)" "meta r = 1"
    by (simp add: redis_kv_create_request_r2p2_def one_key_write one_key_val_len Let_def some_routes_def)
  then show ?thesis
    by (simp add: symmetric_r2p2_issue_def take_request_def prepare_request_def create_request_def writing_config_def some_config_def
        r2p2_at_100_def r2p2_thread_at_def r2p2_os_def pick_target_def some_routes_def r2p2_lib.defs Let_def echo1_ia add_ctx_def
        policy_of_def s32_def)
qed

theorem redis_routes_over_r2p2_witness:
  "\<exists>w t' x v. symmetric_r2p2_step 7 (r2p2_lib.truncate some_routes) writing_config (r2p2_os 130 None) (At_send, r2p2_at_100) =
     Inr ([Request_sent 0 w 130], At_poll, t') \<and> ctxs t' 0 = Some x \<and> redis_op w ''k'' (Some v) \<and> destination x = \<lparr>ip = 1, port = 80\<rparr>"
proof -
  from writing_config_sends obtain w t' where
    s: "symmetric_r2p2_step 7 (r2p2_lib.truncate some_routes) writing_config (r2p2_os 130 None) (At_send, r2p2_at_100) =
      Inr ([Request_sent 0 w 130], At_poll, t')" and p: "map_option routing_policy (ctxs t' 0) = Some 1" by blast
  have c: "app_proto writing_config = redis_table_r2p2 some_routes (REDIS_KV (one_key_info (- 1)))" "targets writing_config \<noteq> []"
    "lb_route some_routes \<noteq> fixed_route some_routes" "hd (targets writing_config) = \<lparr>ip = 1, port = 80\<rparr>"
    by (simp_all add: writing_config_def some_config_def some_routes_def)
  have k: "set (keys (kv_key (one_key_info (- 1)))) = {mk_iov ''k'' 1}" by (simp add: one_key_info_def)
  from redis_routes_over_r2p2 [OF c(1) one_key_wf one_key_sizes_ok c(2,3), of 7 "r2p2_os 130 None" r2p2_at_100 0 w 130 At_poll t'] s
  obtain x v where
    x: "ctxs t' 0 = Some x" "redis_op w ''k'' v" "routing_policy x = policy_of (kv_route some_routes v)"
      "if v = None then destination x \<in> set (targets writing_config) else destination x = hd (targets writing_config)"
    using k by auto
  from x(1,3) p have "v \<noteq> None" by (cases v) (auto simp: kv_route_def some_routes_def policy_of_def s32_def)
  with s x c(4) show ?thesis by auto
qed

end
