(* ===== verification/Http_Request.thy ===== *)
theory Http_Request
  imports Http
begin

section \<open>The HTTP request parser (\<open>agents/picohttpparser.c\<close>)\<close>

text \<open>
  The entry points of the parser that the agent is built with and does not call: requests, header
  blocks, and the check for a complete head with which a caller may skip the parsing of input it has seen. The proofs
  read back a request that was printed, and show where the parser leaves its input.
\<close>

subsection \<open>The functions\<close>

text \<open>\<open>is_complete\<close>: two line ends in a row; \<open>n\<close> is \<open>ret_cnt\<close>.\<close>

function find_blank_line :: "nat \<Rightarrow> unit phr" where
  "find_blank_line n mem e i =
     (if i = e then Inr (Stop (- 2))
      else if length mem \<le> i then Inl OutOfBounds
      else if mem ! i = CR then
        if i + 1 = e then Inr (Stop (- 2))
        else if length mem \<le> i + 1 then Inl OutOfBounds
        else if mem ! (i + 1) \<noteq> LF then Inr (Stop (- 1))
        else if n + 1 = 2 then Inr (Done ((), i + 2))
        else find_blank_line (n + 1) mem e (i + 2)
      else if mem ! i = LF then
        if n + 1 = 2 then Inr (Done ((), i + 1)) else find_blank_line (n + 1) mem e (i + 1)
      else find_blank_line 0 mem e (i + 1))"
  by pat_completeness auto
termination by (relation "measure (\<lambda>(n, mem, e, i). length mem - i)") auto

declare find_blank_line.simps [simp del]

definition is_complete :: "nat \<Rightarrow> unit phr" where
  "is_complete last_len mem e i = find_blank_line 0 mem e (if last_len < 3 then i else i + last_len - 3)"

text \<open>\<open>ADVANCE_TOKEN\<close> without SSE: up to a space.\<close>

definition token_act :: "char \<Rightarrow> loop_act" where
  "token_act c =
     (if c = CHR '' '' then Leave
      else if \<not> IS_PRINTABLE_ASCII c \<and> ((of_char c :: nat) < 32 \<or> (of_char c :: nat) = 127) then Reject
      else Go)"

definition advance_token :: "(nat \<times> nat) phr" where
  "advance_token = bindP here (\<lambda>start. bindP (scan token_act) (\<lambda>_. bindP here (\<lambda>i. yieldP (start, i - start))))"

text \<open>\<open>do { ++buf; } while (*buf == ' ')\<close>, which does not look at the end of the input.\<close>

definition skip_spaces :: "unit phr" where
  "skip_spaces mem e i = bindE (skip_sp mem (i + 1)) (\<lambda>k. Inr (Done ((), k)))"

record phr_request =
  req_method :: "nat \<times> nat"
  req_path :: "nat \<times> nat"
  req_minor :: nat
  req_headers :: "phr_header list"

text \<open>The end of the line in front of the request, which may be missing, and of the request line.\<close>

definition empty_line :: "unit phr" where
  "empty_line = bindP next_char (\<lambda>c.
     if c = CR then bindP advance (\<lambda>_. expect LF) else if c = LF then advance else yieldP ())"

definition line_end :: "unit phr" where
  "line_end = bindP peek (\<lambda>c.
     if c = CR then bindP advance (\<lambda>_. expect LF) else if c = LF then advance else stopP (- 1))"

definition parse_request :: "nat \<Rightarrow> phr_request phr" where
  "parse_request room =
     bindP empty_line (\<lambda>_.
     bindP advance_token (\<lambda>(method, method_len).
     bindP skip_spaces (\<lambda>_.
     bindP advance_token (\<lambda>(path, path_len).
     bindP skip_spaces (\<lambda>_.
       if method_len = 0 \<or> path_len = 0 then stopP (- 1)
       else
         bindP parse_http_version (\<lambda>minor.
         bindP line_end (\<lambda>_.
         bindP (parse_headers 0 room) (\<lambda>hs.
           yieldP \<lparr>req_method = (method, method_len), req_path = (path, path_len), req_minor = minor, req_headers = hs\<rparr>))))))))"

text \<open>What the entry points do with \<open>last_len\<close>, the length of the input they have seen before.\<close>

definition unless_incomplete :: "nat \<Rightarrow> 'a phr \<Rightarrow> 'a phr" where
  "unless_incomplete last_len P = (if last_len \<noteq> 0 then (\<lambda>mem e i.
     bindE (is_complete last_len mem e i) (\<lambda>r. case r of Stop n \<Rightarrow> Inr (Stop n) | Done _ \<Rightarrow> P mem e i)) else P)"

definition phr_parse_request :: "bytes \<Rightarrow> nat \<Rightarrow> nat \<Rightarrow> nat \<Rightarrow> (phr_request \<times> nat) parsed result" where
  "phr_parse_request buf_start len room last_len = unless_incomplete last_len (parse_request room) buf_start len 0"

definition phr_parse_headers :: "bytes \<Rightarrow> nat \<Rightarrow> nat \<Rightarrow> nat \<Rightarrow> (phr_header list \<times> nat) parsed result" where
  "phr_parse_headers buf_start len room last_len = unless_incomplete last_len (parse_headers 0 room) buf_start len 0"

subsection \<open>The check for a complete head\<close>

text \<open>Every carriage return is followed by a line feed.\<close>

fun crlf_paired :: "bytes \<Rightarrow> bool" where
  "crlf_paired [] \<longleftrightarrow> True"
| "crlf_paired (c # cs) \<longleftrightarrow> (c = CR \<longrightarrow> cs \<noteq> [] \<and> hd cs = LF) \<and> crlf_paired cs"

lemma crlf_paired_append [simp]: "crlf_paired xs \<Longrightarrow> crlf_paired ys \<Longrightarrow> crlf_paired (xs @ ys)"
  by (induction xs) auto

lemma crlf_paired_plain: "CR \<notin> set xs \<Longrightarrow> crlf_paired xs"
  by (induction xs) auto

lemma crlf_paired_concat: "\<forall>x \<in> set xs. crlf_paired x \<Longrightarrow> crlf_paired (concat xs)"
  by (induction xs) simp_all

lemma drop_Cons_nth: "drop i mem = c # cs \<Longrightarrow> i < length mem \<and> mem ! i = c \<and> drop (Suc i) mem = cs"
  by (metis drop_eq_Nil2 Cons_nth_drop_Suc list.distinct(1) list.inject not_le)

lemma find_blank_line_found:
  "crlf_paired rest \<Longrightarrow> i + length rest + 4 \<le> e \<Longrightarrow> drop i mem = rest @ CRLF @ CRLF @ post \<Longrightarrow> n < 2 \<Longrightarrow>
   \<exists>j. find_blank_line n mem e i = Inr (Done ((), j))"
proof (induction rest arbitrary: i n rule: length_induct)
  case (1 rest)
  show ?case
  proof (cases rest)
    case Nil
    with 1(4) have d: "drop i mem = CR # LF # CR # LF # post" by simp
    note d1 = drop_Cons_nth [OF d]
    note d2 = drop_Cons_nth [OF conjunct2 [OF conjunct2 [OF d1]]]
    note d3 = drop_Cons_nth [OF conjunct2 [OF conjunct2 [OF d2]]]
    note d4 = drop_Cons_nth [OF conjunct2 [OF conjunct2 [OF d3]]]
    have "find_blank_line (Suc 0) mem e (Suc (Suc i)) = Inr (Done ((), i + 4))"
      using d3 d4 1(3) Nil by (subst find_blank_line.simps) simp
    then show ?thesis using d1 d2 1(3,5) Nil by (subst find_blank_line.simps) (auto simp: numeral_2_eq_2 less_Suc_eq)
  next
    case (Cons c rest')
    with 1(4) have d: "drop i mem = c # rest' @ CRLF @ CRLF @ post" by simp
    note d1 = drop_Cons_nth [OF d]
    have ih: "\<exists>j. find_blank_line m mem e (Suc i) = Inr (Done ((), j))" if "m < 2" for m
      using 1(1) [rule_format, of rest' "Suc i" m] 1(2,3) d1 Cons that by simp
    show ?thesis
    proof (cases "c = CR")
      case True
      with 1(2) Cons obtain rest'' where r: "rest' = LF # rest''" by (cases rest') auto
      from d1 have "drop (Suc i) mem = LF # rest'' @ CRLF @ CRLF @ post" by (simp add: r)
      note d2 = drop_Cons_nth [OF this]
      have "\<exists>j. find_blank_line m mem e (Suc (Suc i)) = Inr (Done ((), j))" if "m < 2" for m
        using 1(1) [rule_format, of rest'' "Suc (Suc i)" m] 1(2,3) d2 Cons r that by simp
      from this [of "Suc n"] d1 d2 1(3,5) Cons r True show ?thesis
        by (subst find_blank_line.simps) (auto simp: numeral_2_eq_2 less_Suc_eq)
    next
      case False
      with ih [of 0] ih [of "Suc n"] d1 1(3,5) Cons show ?thesis
        by (subst find_blank_line.simps) (auto simp: numeral_2_eq_2 less_Suc_eq)
    qed
  qed
qed

lemma crlf_paired_drop: "crlf_paired xs \<Longrightarrow> crlf_paired (drop n xs)"
proof (induction n arbitrary: xs)
  case (Suc n)
  then show ?case by (cases xs) auto
qed simp

text \<open>A head that has more bytes than were seen before is found complete.\<close>

lemma is_complete_head:
  assumes "crlf_paired body" and "mem = body @ CRLF @ CRLF @ post" and "length body + 4 \<le> e" and "last_len < length body + 4"
  shows "\<exists>j. is_complete last_len mem e 0 = Inr (Done ((), j))"
proof -
  let ?i = "if last_len < 3 then 0 else last_len - 3"
  have "?i \<le> length body" using assms(4) by (cases "last_len < 3") auto
  then have "\<exists>j. find_blank_line 0 mem e ?i = Inr (Done ((), j))"
    using find_blank_line_found [of "drop ?i body" ?i e mem post 0] crlf_paired_drop [OF assms(1)] assms(2,3) by auto
  then show ?thesis by (simp add: is_complete_def split: if_splits)
qed

subsection \<open>A printed request is read back\<close>

definition token_ok :: "string \<Rightarrow> bool" where
  "token_ok s \<longleftrightarrow> s \<noteq> [] \<and> (\<forall>c \<in> set s. token_act c = Go)"

definition request_head :: "string \<Rightarrow> string \<Rightarrow> char \<Rightarrow> (string \<times> string) list \<Rightarrow> bytes" where
  "request_head m p d fs = m @ '' '' @ p @ '' HTTP/1.'' @ [d] @ CRLF @ concat (map header_line fs) @ CRLF"

text \<open>The text of a position and a length.\<close>

definition text_at :: "bytes \<Rightarrow> nat \<times> nat \<Rightarrow> string" where
  "text_at mem r = take (snd r) (drop (fst r) mem)"

lemma token_act_separators: "token_act (CHR '' '') = Leave" "token_act CR = Reject" "token_act LF = Reject" "token_act c = Go \<Longrightarrow> c \<noteq> CHR '' ''"
  by (auto simp: token_act_def IS_PRINTABLE_ASCII_def)

lemma token_ok_Cons: "token_ok s \<Longrightarrow> \<exists>c cs. s = c # cs \<and> c \<noteq> CR \<and> c \<noteq> LF \<and> c \<noteq> CHR '' ''"
proof (cases s)
  case (Cons c cs)
  assume "token_ok s"
  then have "token_act c = Go" using Cons by (simp add: token_ok_def)
  then have "c \<noteq> CR" "c \<noteq> LF" "c \<noteq> CHR '' ''" using token_act_separators by auto
  with Cons show ?thesis by blast
qed (simp add: token_ok_def)

lemma plain_texts:
  "token_ok s \<Longrightarrow> CR \<notin> set s" "is_digit d \<Longrightarrow> d \<noteq> CR" "field_ok f \<Longrightarrow> CR \<notin> set (fst f) \<and> CR \<notin> set (snd f)"
  using token_act_separators(2) ctl_CR token_char_separators(1)
  by (auto simp: token_ok_def is_digit_def field_ok_def line_ok_def)

lemma header_line_paired: "field_ok f \<Longrightarrow> crlf_paired (header_line f)"
proof -
  assume "field_ok f"
  from plain_texts(3) [OF this] have "crlf_paired (fst f @ '': '' @ snd f)" by (intro crlf_paired_plain) auto
  from crlf_paired_append [OF this, of CRLF] show ?thesis by (simp add: header_line_def)
qed

lemma lines_end: "\<forall>f \<in> set fs. field_ok f \<Longrightarrow> \<exists>body. CRLF @ concat (map header_line fs) @ CRLF = body @ CRLF @ CRLF \<and> crlf_paired body"
proof (induction fs rule: rev_induct)
  case Nil
  show ?case by (rule exI [of _ "[]"]) simp
next
  case (snoc f fs)
  from plain_texts(3) [of f] snoc(2) have f: "crlf_paired (fst f @ '': '' @ snd f)" by (intro crlf_paired_plain) auto
  have "crlf_paired (concat (map header_line fs))"
    using snoc(2) header_line_paired by (intro crlf_paired_concat) auto
  from crlf_paired_append [OF this f] have "crlf_paired (CRLF @ concat (map header_line fs) @ fst f @ '': '' @ snd f)"
    by simp
  then show ?case
    by (intro exI [of _ "CRLF @ concat (map header_line fs) @ fst f @ '': '' @ snd f"]) (simp add: header_line_def [of f])
qed

lemma request_head_complete:
  assumes "token_ok m" and "token_ok p" and "is_digit d" and "\<forall>f \<in> set fs. field_ok f"
  shows "\<exists>body. request_head m p d fs = body @ CRLF @ CRLF \<and> crlf_paired body"
proof -
  have x: "crlf_paired (m @ '' '' @ p @ '' HTTP/1.'' @ [d])"
    using plain_texts(1) [OF assms(1)] plain_texts(1) [OF assms(2)] plain_texts(2) [OF assms(3)]
    by (intro crlf_paired_plain) auto
  from lines_end [OF assms(4)] obtain body where
    b: "CRLF @ concat (map header_line fs) @ CRLF = body @ CRLF @ CRLF" "crlf_paired body" by blast
  note crlf_paired_append [OF x b(2)]
  moreover have "request_head m p d fs = (m @ '' '' @ p @ '' HTTP/1.'' @ [d]) @ body @ CRLF @ CRLF"
    by (simp only: request_head_def append_assoc b(1) [symmetric])
  ultimately show ?thesis by auto
qed

lemma advance_token_at:
  assumes "mem = pre @ s @ CHR '' '' # post" and "\<forall>c \<in> set s. token_act c = Go" and "length pre + length s < e" and "e \<le> length mem"
  shows "advance_token mem e (length pre) = Inr (Done ((length pre, length s), length pre + length s))"
proof -
  have go: "token_act (mem ! q) = Go" if "length pre \<le> q" "q < length pre + length s" for q
  proof -
    have "mem ! q = s ! (q - length pre)" "q - length pre < length s" using that assms(1) by (auto simp: nth_append)
    with assms(2) show ?thesis by simp
  qed
  have "scan token_act mem e (length pre) = Inr (Done ((), length pre + length s))"
    using go assms(1,3,4) token_act_separators(1) by (intro scan_run) (auto simp: nth_append)
  then show ?thesis by (simp add: advance_token_def bindP_def here_def yieldP_def)
qed

lemma skip_one_space:
  assumes "mem = pre @ CHR '' '' # c # post" and "c \<noteq> CHR '' ''"
  shows "skip_spaces mem e (length pre) = Inr (Done ((), length pre + 1))"
proof -
  have "skip_sp mem (length pre + 1) = Inr (length pre + 1)" using assms by (subst skip_sp.simps) (simp add: nth_append)
  then show ?thesis by (simp add: skip_spaces_def)
qed

lemma parse_http_version_at:
  assumes "mem = pre @ ''HTTP/1.'' @ d # post" and "is_digit d" and "length pre + 9 \<le> e"
  shows "parse_http_version mem e (length pre) = Inr (Done (digit_val d, length pre + 8))"
proof -
  have "expect_string ''HTTP/1.'' mem e (length pre) = Inr (Done ((), length pre + 7))"
    using expect_string_at [of mem pre "''HTTP/1.''" "d # post" e] assms(1) by (simp del: expect_string.simps)
  moreover have "mem ! (length pre + 7) = d" "length pre + 7 < length mem" using assms(1) by (simp_all add: nth_append)
  ultimately show ?thesis
    using parse_int_at [of "length pre + 7" mem 1 e] assms(2,3) by (simp add: parse_http_version_def bindP_def del: expect_string.simps)
qed

lemma line_end_at:
  assumes "mem = pre @ CRLF @ post" and "length pre + 2 \<le> e"
  shows "line_end mem e (length pre) = Inr (Done ((), length pre + 2))"
  using assms by (simp add: line_end_def bindP_def peek_def advance_def expect_def check_eof_def expect_no_check_def yieldP_def nth_append)

lemma parse_request_head:
  assumes "token_ok m" and "token_ok p" and "is_digit d" and "\<forall>f \<in> set fs. field_ok f" and "length fs \<le> room"
    and "mem = request_head m p d fs @ post" and "length (request_head m p d fs) \<le> e" and "e \<le> length mem"
  shows "\<exists>hs. parse_request room mem e 0 = Inr (Done (\<lparr>req_method = (0, length m), req_path = (length m + 1, length p),
      req_minor = digit_val d, req_headers = hs\<rparr>, length (request_head m p d fs))) \<and>
    list_all2 (hdr_at mem) hs fs"
proof -
  let ?h = "request_head m p d fs" and ?ls = "concat (map header_line fs) @ CRLF"
  let ?v = "m @ '' '' @ p @ '' ''"
  have h: "?h = ?v @ ''HTTP/1.'' @ d # CRLF @ ?ls" by (simp add: request_head_def)
  have mem: "mem = m @ CHR '' '' # p @ CHR '' '' # ''HTTP/1.'' @ d # CRLF @ ?ls @ post" using assms(6) by (simp add: h)
  have e: "length m + length p + 14 \<le> e" using assms(7) by (simp add: h)
  obtain c m' where m: "m = c # m'" "c \<noteq> CR" "c \<noteq> LF" using token_ok_Cons [OF assms(1)] by blast
  obtain x p' where p: "p = x # p'" "x \<noteq> CHR '' ''" using token_ok_Cons [OF assms(2)] by blast
  have "next_char mem e 0 = Inr (Done (c, 0))"
    using mem m e by (simp add: next_char_def bindP_def check_eof_def peek_def)
  then have p0: "empty_line mem e 0 = Inr (Done ((), 0))" using m by (simp add: empty_line_def bindP_def yieldP_def)
  have p1: "advance_token mem e 0 = Inr (Done ((0, length m), length m))"
    using advance_token_at [of mem "[]" m] mem assms(1,8) e by (simp add: token_ok_def)
  have p2: "skip_spaces mem e (length m) = Inr (Done ((), length m + 1))"
    by (rule skip_one_space [OF _ p(2)]) (use mem p(1) in simp)
  have p3: "advance_token mem e (length m + 1) = Inr (Done ((length m + 1, length p), length m + 1 + length p))"
    using advance_token_at [of mem "m @ '' ''" p] mem assms(2,8) e by (simp add: token_ok_def)
  have p4: "skip_spaces mem e (length m + 1 + length p) = Inr (Done ((), length m + length p + 2))"
    using skip_one_space [of mem "m @ '' '' @ p" "CHR ''H''"] mem by simp
  have p5: "parse_http_version mem e (length m + length p + 2) = Inr (Done (digit_val d, length m + length p + 10))"
    using parse_http_version_at [of mem ?v d _ e] mem assms(3) e by simp
  have p6: "line_end mem e (length m + length p + 10) = Inr (Done ((), length m + length p + 12))"
  proof -
    have l: "length (?v @ ''HTTP/1.'' @ [d]) = length m + length p + 10" by simp
    have "mem = (?v @ ''HTTP/1.'' @ [d]) @ CRLF @ ?ls @ post" using mem by simp
    from line_end_at [OF this, of e] e show ?thesis unfolding l by simp
  qed
  have "?h = (?v @ ''HTTP/1.'' @ d # CRLF) @ ?ls" by (simp add: h)
  moreover have "length (?v @ ''HTTP/1.'' @ d # CRLF) = length m + length p + 12" by simp
  ultimately obtain hs where
    hs: "parse_headers 0 room ?h (length ?h) (length m + length p + 12) = Inr (Done (hs, length ?h))" "list_all2 (hdr_at ?h) hs fs"
    using parse_headers_at [OF _ assms(4,5), of ?h "?v @ ''HTTP/1.'' @ d # CRLF" 0] by metis
  have len: "length m + length p + 12 + 0 \<le> length ?h" by (simp add: h)
  have p7: "parse_headers 0 room mem e (length m + length p + 12) = Inr (Done (hs, length ?h))"
    using reads_other [OF conjunct1 [OF parse_headers_laws] hs(1) len order_refl _ assms(8)] assms(6,7) len
    by (simp add: nth_append)
  have "hdr_at mem a f" if "hdr_at ?h a f" for a f
    using that assms(6) unfolding hdr_at_def by (metis append.assoc)
  with hs(2) have "list_all2 (hdr_at mem) hs fs" by (simp add: list_all2_mono)
  moreover have "0 < length m" "0 < length p" using m p by simp_all
  ultimately show ?thesis
    using p0 p1 p2 p3 p4 p5 p6 p7 by (simp add: parse_request_def bindP_def yieldP_def)
qed



subsection \<open>Where the parser leaves its input\<close>

text \<open>A loop that starts behind the end of the input never meets it.\<close>

lemma scan_beyond:
  "e < i \<Longrightarrow> \<forall>q. i \<le> q \<and> q < i + n \<longrightarrow> act (mem ! q) = Go \<Longrightarrow> i + n \<le> length mem \<Longrightarrow> scan act mem e i = scan act mem e (i + n)"
proof (induction n arbitrary: i)
  case (Suc n)
  then have "scan act mem e i = scan act mem e (Suc i)" by (subst scan.simps) auto
  with Suc(1) [of "Suc i"] Suc(2-4) show ?case by auto
qed simp

lemma skip_sp_run: "mem = pre @ replicate n (CHR '' '') @ c # post \<Longrightarrow> c \<noteq> CHR '' '' \<Longrightarrow> skip_sp mem (length pre) = Inr (length pre + n)"
  by (rule skip_sp_stop) (auto simp: nth_append)

lemma advance_token_scan:
  "advance_token mem e i =
     (case scan token_act mem e i of
        Inl f \<Rightarrow> Inl f | Inr (Stop v) \<Rightarrow> Inr (Stop v) | Inr (Done (u, j)) \<Rightarrow> Inr (Done ((i, j - i), j)))"
  by (cases "scan token_act mem e i") (auto simp: advance_token_def bindP_def here_def yieldP_def split: parsed.splits)

text \<open>The input ends behind the space after the method, and \<open>k\<close> more spaces follow it in memory: the loop over spaces stops behind them.\<close>

lemma parse_after_blanks:
  assumes "token_ok m" and "mem = m @ CHR '' '' # replicate k (CHR '' '') @ z # rest" and "z \<noteq> CHR '' ''"
  shows "phr_parse_request mem (length m + 1) room 0 =
    (case scan token_act mem (length m + 1) (length m + 1 + k) of Inl f \<Rightarrow> Inl f | Inr (Stop v) \<Rightarrow> Inr (Stop v)
     | Inr (Done _) \<Rightarrow> phr_parse_request mem (length m + 1) room 0)"
proof -
  let ?e = "length m + 1"
  obtain a m' where m: "m = a # m'" "a \<noteq> CR" "a \<noteq> LF" using token_ok_Cons [OF assms(1)] by blast
  have "next_char mem ?e 0 = Inr (Done (a, 0))"
    using assms(2) m by (simp add: next_char_def bindP_def check_eof_def peek_def)
  then have "empty_line mem ?e 0 = Inr (Done ((), 0))" using m by (simp add: empty_line_def bindP_def yieldP_def)
  moreover have "advance_token mem ?e 0 = Inr (Done ((0, length m), length m))"
    using advance_token_at [of mem "[]" m _ ?e] assms(1,2) by (simp add: token_ok_def)
  moreover have "skip_spaces mem ?e (length m) = Inr (Done ((), ?e + k))"
    using skip_sp_run [of mem "m @ '' ''" k z rest] assms(2,3) by (simp add: skip_spaces_def)
  ultimately show ?thesis
    by (auto simp: phr_parse_request_def unless_incomplete_def parse_request_def bindP_def advance_token_scan
        split: sum.splits parsed.splits)
qed

lemma scan_beyond_runs_out:
  assumes "e < i" and "mem = pre @ ys" and "length pre = i" and "\<forall>y \<in> set ys. act y = Go"
  shows "scan act mem e i = Inl OutOfBounds"
proof -
  have "scan act mem e i = scan act mem e (i + length ys)"
    using assms by (intro scan_beyond) (auto simp: nth_append)
  also have "\<dots> = Inl OutOfBounds" using assms(1-3) by (subst scan.simps) simp
  finally show ?thesis .
qed

text \<open>
  Property C37. The request parser reads past its input. Three times the input is a method and a space, so that every
  answer but \<open>more is needed\<close> is wrong. If another character than a space happens to follow in memory, that is the answer; if spaces follow, the
  parser has passed the end and goes on: it calls the request malformed when it meets a control character there, and
  runs out of the memory when it meets neither that nor a space.
\<close>

theorem request_parser_overruns:
  assumes "token_ok m" and "c \<noteq> CHR '' ''" and "0 < n" and "token_act x = Reject" and "\<forall>y \<in> set ys. token_act y = Go" and "ys \<noteq> []"
  shows "phr_parse_request (m @ '' '' @ c # post) (length m + 1) room 0 = Inr (Stop (- 2)) \<and>
    phr_parse_request (m @ '' '' @ replicate n (CHR '' '') @ x # post) (length m + 1) room 0 = Inr (Stop (- 1)) \<and>
    phr_parse_request (m @ '' '' @ replicate n (CHR '' '') @ ys) (length m + 1) room 0 = Inl OutOfBounds"
proof -
  let ?e = "length m + 1" and ?x = "m @ '' '' @ replicate n (CHR '' '') @ x # post"
  have "scan token_act (m @ '' '' @ c # post) ?e ?e = Inr (Stop (- 2))" by (subst scan.simps) simp
  then have 1: "phr_parse_request (m @ '' '' @ c # post) ?e room 0 = Inr (Stop (- 2))"
    using parse_after_blanks [OF assms(1) _ assms(2), of "m @ '' '' @ c # post" 0 post room] by simp
  have x: "?x ! (?e + n) = x" "x \<noteq> CHR '' ''" using assms(4) token_act_separators(1) by (auto simp: nth_append)
  then have "scan token_act ?x ?e (?e + n) = Inr (Stop (- 1))" using assms(3,4) by (subst scan.simps) simp
  then have 2: "phr_parse_request ?x ?e room 0 = Inr (Stop (- 1))"
    using parse_after_blanks [OF assms(1) _ x(2), of ?x n post room] by simp
  obtain z zs where z: "ys = z # zs" "z \<noteq> CHR '' ''" using assms(5,6) token_act_separators(4) by (cases ys) auto
  have "scan token_act (m @ '' '' @ replicate n (CHR '' '') @ ys) ?e (?e + n) = Inl OutOfBounds"
    using assms(3,5) by (intro scan_beyond_runs_out [where pre = "m @ '' '' @ replicate n (CHR '' '')"]) simp_all
  then have 3: "phr_parse_request (m @ '' '' @ replicate n (CHR '' '') @ ys) ?e room 0 = Inl OutOfBounds"
    using parse_after_blanks [OF assms(1) _ z(2), of "m @ '' '' @ replicate n (CHR '' '') @ ys" n zs room] z(1) by simp
  from 1 2 3 show ?thesis by blast
qed

theorem request_parser_overruns_witness:
  "phr_parse_request (''GET x'') 4 8 0 = Inr (Stop (- 2)) \<and> phr_parse_request (''GET  '' @ [NUL, CHR ''x'']) 4 8 0 = Inr (Stop (- 1)) \<and>
   phr_parse_request ''GET  y'' 4 8 0 = Inl OutOfBounds"
proof -
  have 1: "token_ok ''GET''" "token_act NUL = Reject" "\<forall>y \<in> set ''y''. token_act y = Go"
    by (simp_all add: token_ok_def token_act_def IS_PRINTABLE_ASCII_def)
  from request_parser_overruns [OF 1(1) _ _ 1(2,3), of "CHR ''x''" 1 "[]" 8]
    request_parser_overruns [OF 1(1) _ _ 1(2,3), of "CHR ''x''" 1 "''x''" 8]
  show ?thesis by (simp add: eval_nat_numeral)
qed
end
