(* ===== verification/Pico_Sse.thy ===== *)
theory Pico_Sse
  imports Http_Request
begin

section \<open>The HTTP parser as compiled with SSE 4.2 (\<open>agents/picohttpparser.c\<close>)\<close>

text \<open>
  With SSE the parser looks for the end of a token in blocks of sixteen bytes (\<open>findchar_fast\<close>) before its loops take over.
  The parsers of \<open>Pico_Http\<close> and \<open>Http_Request\<close> that the macro changes are defined again as that build has them,
  and shown to give the same answer on every input.
\<close>

subsection \<open>Blocks of sixteen bytes\<close>

text \<open>
  \<open>ranges\<close> is the list of its first \<open>ranges_size\<close> bytes, the bounds of closed ranges in pairs.
  \<open>_mm_cmpestri\<close> gives the index of the first byte of the block in one of them, or sixteen.
\<close>

fun in_ranges :: "string \<Rightarrow> char \<Rightarrow> bool" where
  "in_ranges (lo # hi # ranges) c \<longleftrightarrow>
     (of_char lo :: nat) \<le> of_char c \<and> (of_char c :: nat) \<le> of_char hi \<or> in_ranges ranges c"
| "in_ranges _ c \<longleftrightarrow> False"

definition cmpestri :: "string \<Rightarrow> bytes \<Rightarrow> nat" where
  "cmpestri ranges block = length (takeWhile (\<lambda>c. \<not> in_ranges ranges c) block)"

text \<open>The loop, with the length that is left; and the whole function: whether it found a byte, and where it stopped.\<close>

function findchar_blocks :: "string \<Rightarrow> bytes \<Rightarrow> nat \<Rightarrow> nat \<Rightarrow> (bool \<times> nat) result" where
  "findchar_blocks ranges mem left i =
     (if length mem < i + 16 then Inl OutOfBounds
      else let r = cmpestri ranges (take 16 (drop i mem)) in
        if r \<noteq> 16 then Inr (True, i + r)
        else if left - 16 \<noteq> 0 then findchar_blocks ranges mem (left - 16) (i + 16)
        else Inr (False, i + 16))"
  by pat_completeness auto
termination by (relation "measure (\<lambda>(ranges, mem, left, i). left)") auto

declare findchar_blocks.simps [simp del]

definition findchar_fast :: "string \<Rightarrow> bytes \<Rightarrow> nat \<Rightarrow> nat \<Rightarrow> (bool \<times> nat) result" where
  "findchar_fast ranges mem e i =
     (if e < i + 16 then Inr (False, i) else findchar_blocks ranges mem ((e - i) - (e - i) mod 16) i)"

subsection \<open>The parsers that use it\<close>

definition eol_ranges :: string where
  "eol_ranges = [CHR 0x00, CHR 0x08, CHR 0x0A, CHR 0x1F, CHR 0x7F, CHR 0x7F]"

definition find_ctl_sse :: "unit phr" where
  "find_ctl_sse mem e i =
     bindE (findchar_fast eol_ranges mem e i) (\<lambda>(found, j). if found then Inr (Done ((), j)) else scan ctl_act mem e j)"

definition get_token_to_eol_sse :: "(nat \<times> nat) phr" where
  "get_token_to_eol_sse =
     bindP here (\<lambda>start.
     bindP find_ctl_sse (\<lambda>_.
     bindP peek (\<lambda>c.
       if c = CR then
         bindP advance (\<lambda>_. bindP (expect LF) (\<lambda>_. bindP here (\<lambda>i. yieldP (start, i - 2 - start))))
       else if c = LF then bindP here (\<lambda>i. bindP advance (\<lambda>_. yieldP (start, i - start)))
       else stopP (- 1))))"

text \<open>
  A search followed by a loop \<open>while (1) { ...; ++buf; CHECK_EOF(); }\<close>, which looks at its first
  character before it looks for the end of the input.
\<close>

definition scan_first :: "(char \<Rightarrow> loop_act) \<Rightarrow> unit phr" where
  "scan_first act mem e i =
     (if length mem \<le> i then Inl OutOfBounds
      else case act (mem ! i) of
        Leave \<Rightarrow> Inr (Done ((), i))
      | Reject \<Rightarrow> Inr (Stop (- 1))
      | Go \<Rightarrow> scan act mem e (i + 1))"

definition search_scan :: "string \<Rightarrow> (char \<Rightarrow> loop_act) \<Rightarrow> unit phr" where
  "search_scan ranges act mem e i =
     bindE (findchar_fast ranges mem e i) (\<lambda>(found, j).
       if \<not> found \<and> j = e then Inr (Stop (- 2)) else scan_first act mem e j)"

definition name_ranges :: string where
  "name_ranges = [CHR 0x00, CHR '' '', CHR 0x22, CHR 0x22, CHR ''('', CHR '')'', CHR '','', CHR '','', CHR ''/'', CHR ''/'',
     CHR '':'', CHR ''@'', CHR ''['', CHR '']'', CHR 0x7B, CHR 0xFF]"

definition header_name_sse :: "(nat \<times> nat) phr" where
  "header_name_sse =
     bindP here (\<lambda>start. bindP (search_scan name_ranges name_act) (\<lambda>_. bindP here (\<lambda>i.
       if i - start = 0 then stopP (- 1)
       else bindP advance (\<lambda>_. bindP (scan ows_act) (\<lambda>_. yieldP (start, i - start))))))"

definition header_value_sse :: "(nat \<times> nat) phr" where
  "header_value_sse mem e i =
     bindE (get_token_to_eol_sse mem e i) (\<lambda>r.
       case r of
         Stop n \<Rightarrow> Inr (Stop n)
       | Done ((v, len), j) \<Rightarrow> bindE (trim_value mem v len) (\<lambda>len. Inr (Done ((v, len), j))))"

fun parse_headers_sse :: "nat \<Rightarrow> nat \<Rightarrow> phr_header list phr" where
  "parse_headers_sse n room =
     bindP next_char (\<lambda>c.
       if c = CR then bindP advance (\<lambda>_. bindP (expect LF) (\<lambda>_. yieldP []))
       else if c = LF then bindP advance (\<lambda>_. yieldP [])
       else case room of
         0 \<Rightarrow> stopP (- 1)
       | Suc room \<Rightarrow>
           bindP (if n \<noteq> 0 \<and> (c = CHR '' '' \<or> c = CHR 0x09) then yieldP (None, 0)
                  else bindP header_name_sse (\<lambda>(name, len). yieldP (Some name, len))) (\<lambda>(name, name_len).
           bindP header_value_sse (\<lambda>(v, len).
           bindP (parse_headers_sse (n + 1) room) (\<lambda>hs.
             yieldP (\<lparr>hdr_name = name, hdr_name_len = name_len, hdr_value = v, hdr_value_len = len\<rparr> # hs)))))"

declare parse_headers_sse.simps [simp del]

text \<open>Responses.\<close>

definition status_message_sse :: "(nat \<times> nat) phr" where
  "status_message_sse mem e i =
     bindE (get_token_to_eol_sse mem e i) (\<lambda>r.
       case r of
         Stop n \<Rightarrow> Inr (Stop n)
       | Done ((msg, len), j) \<Rightarrow>
           if len = 0 then Inr (Done ((msg, len), j))
           else if length mem \<le> msg then Inl OutOfBounds
           else if mem ! msg = CHR '' '' then
             bindE (skip_sp mem msg) (\<lambda>k. Inr (Done ((k, len - (k - msg)), j)))
           else Inr (Stop (- 1)))"

definition parse_response_sse :: "nat \<Rightarrow> phr_response phr" where
  "parse_response_sse room =
     bindP parse_http_version (\<lambda>minor.
     bindP skip_to_status (\<lambda>_.
     bindP parse_int_3 (\<lambda>code.
     bindP status_message_sse (\<lambda>msg.
     bindP (parse_headers_sse 0 room) (\<lambda>hs.
       yieldP \<lparr>minor_version = minor, status = code, message = msg, headers = hs\<rparr>)))))"

definition phr_parse_response_sse :: "bytes \<Rightarrow> nat \<Rightarrow> nat \<Rightarrow> (phr_response \<times> nat) parsed result" where
  "phr_parse_response_sse buf_start len room = parse_response_sse room buf_start len 0"

text \<open>Requests.\<close>

definition token_ranges :: string where
  "token_ranges = [CHR 0x00, CHR '' '', CHR 0x7F, CHR 0x7F]"

definition advance_token_sse :: "(nat \<times> nat) phr" where
  "advance_token_sse =
     bindP here (\<lambda>start. bindP (search_scan token_ranges token_act) (\<lambda>_. bindP here (\<lambda>i. yieldP (start, i - start))))"

definition parse_request_sse :: "nat \<Rightarrow> phr_request phr" where
  "parse_request_sse room =
     bindP empty_line (\<lambda>_.
     bindP advance_token_sse (\<lambda>(method, method_len).
     bindP skip_spaces (\<lambda>_.
     bindP advance_token_sse (\<lambda>(path, path_len).
     bindP skip_spaces (\<lambda>_.
       if method_len = 0 \<or> path_len = 0 then stopP (- 1)
       else
         bindP parse_http_version (\<lambda>minor.
         bindP line_end (\<lambda>_.
         bindP (parse_headers_sse 0 room) (\<lambda>hs.
           yieldP \<lparr>req_method = (method, method_len), req_path = (path, path_len), req_minor = minor, req_headers = hs\<rparr>))))))))"

definition phr_parse_request_sse :: "bytes \<Rightarrow> nat \<Rightarrow> nat \<Rightarrow> nat \<Rightarrow> (phr_request \<times> nat) parsed result" where
  "phr_parse_request_sse buf_start len room last_len = unless_incomplete last_len (parse_request_sse room) buf_start len 0"

definition phr_parse_headers_sse :: "bytes \<Rightarrow> nat \<Rightarrow> nat \<Rightarrow> nat \<Rightarrow> (phr_header list \<times> nat) parsed result" where
  "phr_parse_headers_sse buf_start len room last_len = unless_incomplete last_len (parse_headers_sse 0 room) buf_start len 0"

subsection \<open>What the search passes over\<close>

text \<open>
  It passes over bytes outside the ranges only; it stops in front of the end of the input on a byte in a range, or with
  less than a block left.
\<close>

lemma findchar_blocks_result:
  "findchar_blocks ranges mem left i = Inr (found, j) \<Longrightarrow> i + left \<le> e \<Longrightarrow> e \<le> length mem \<Longrightarrow> 16 dvd left \<Longrightarrow> 0 < left \<Longrightarrow>
   i \<le> j \<and> j \<le> e \<and> (\<forall>q. i \<le> q \<and> q < j \<longrightarrow> \<not> in_ranges ranges (mem ! q)) \<and>
   (found \<longrightarrow> j < e \<and> in_ranges ranges (mem ! j))"
proof (induction ranges mem left i rule: findchar_blocks.induct)
  case (1 ranges mem left i)
  let ?b = "take 16 (drop i mem)" and ?P = "\<lambda>c. \<not> in_ranges ranges c"
  let ?r = "length (takeWhile ?P ?b)"
  have sixteen: "16 \<le> left" using 1(5,6) by (simp add: dvd_imp_le)
  then have len: "length ?b = 16" "\<not> length mem < i + 16" and nth: "k < 16 \<Longrightarrow> ?b ! k = mem ! (i + k)" for k
    using 1(3,4) by auto
  have le: "?r \<le> 16" using length_takeWhile_le [of ?P ?b] len(1) by simp
  have out: "\<not> in_ranges ranges (mem ! q)" if "i \<le> q" "q < i + ?r" for q
  proof -
    have k: "q - i < ?r" using that by simp
    then have "?P (?b ! (q - i))" using takeWhile_nth [OF k] nth_mem [OF k] set_takeWhileD by metis
    with nth [of "q - i"] k le that(1) show ?thesis by simp
  qed
  show ?case
  proof (cases "?r = 16")
    case False
    then have "in_ranges ranges (?b ! ?r)" using nth_length_takeWhile [of ?P ?b] len le by simp
    with False le nth [of ?r] have "in_ranges ranges (mem ! (i + ?r))" by simp
    with 1(2,3) False len le sixteen out show ?thesis
      by (subst (asm) findchar_blocks.simps) (auto simp: cmpestri_def Let_def)
  next
    case True
    show ?thesis
    proof (cases "left - 16 = 0")
      case last: True
      with 1(2,3) True len sixteen out show ?thesis
        by (subst (asm) findchar_blocks.simps) (auto simp: cmpestri_def Let_def)
    next
      case more: False
      with 1(2) True len have "findchar_blocks ranges mem (left - 16) (i + 16) = Inr (found, j)"
        by (subst (asm) findchar_blocks.simps) (simp add: cmpestri_def Let_def)
      from 1(1) [OF len(2) refl _ more this] True 1(3-5) more sixteen
      have ih: "i + 16 \<le> j \<and> j \<le> e \<and> (\<forall>q. i + 16 \<le> q \<and> q < j \<longrightarrow> \<not> in_ranges ranges (mem ! q)) \<and>
          (found \<longrightarrow> j < e \<and> in_ranges ranges (mem ! j))"
        by (simp add: cmpestri_def dvd_diff_nat)
      have "\<not> in_ranges ranges (mem ! q)" if "i \<le> q" "q < j" for q
        using ih out [of q] True that by (cases "q < i + 16") auto
      with ih show ?thesis by simp
    qed
  qed
qed

lemma findchar_blocks_ok:
  "i + left \<le> length mem \<Longrightarrow> 16 dvd left \<Longrightarrow> 0 < left \<Longrightarrow> \<exists>r. findchar_blocks ranges mem left i = Inr r"
proof (induction ranges mem left i rule: findchar_blocks.induct)
  case (1 ranges mem left i)
  have "16 \<le> left" using 1(3,4) by (simp add: dvd_imp_le)
  with 1 show ?case by (subst findchar_blocks.simps) (auto simp: Let_def dvd_diff_nat)
qed

lemma findchar_fast_result:
  assumes "e \<le> length mem"
  shows "\<exists>found j. findchar_fast ranges mem e i = Inr (found, j) \<and> (j = i \<or> i \<le> j \<and> j \<le> e) \<and>
    (\<forall>q. i \<le> q \<and> q < j \<longrightarrow> \<not> in_ranges ranges (mem ! q)) \<and> (found \<longrightarrow> j < e \<and> in_ranges ranges (mem ! j))"
proof (cases "e < i + 16")
  case False
  let ?left = "(e - i) - (e - i) mod 16"
  have l: "i + ?left \<le> e" "16 dvd ?left" "0 < ?left"
    using False div_greater_zero_iff [of "e - i" 16] by (auto simp: minus_mod_eq_mult_div)
  with findchar_blocks_ok [of i ?left mem ranges] assms obtain found j where
    "findchar_blocks ranges mem ?left i = Inr (found, j)" by fastforce
  with findchar_blocks_result [OF this l(1) assms l(2,3)] False show ?thesis by (simp add: findchar_fast_def)
next
  case True
  then show ?thesis by (intro exI [of _ False] exI [of _ i]) (auto simp: findchar_fast_def)
qed

subsection \<open>The same answers\<close>

text \<open>Two parsers agree if they give the same result on every input that is in memory.\<close>

definition agree :: "'a phr \<Rightarrow> 'a phr \<Rightarrow> bool" where
  "agree P Q \<longleftrightarrow> (\<forall>mem e i. e \<le> length mem \<longrightarrow> P mem e i = Q mem e i)"

named_theorems agree_intros

lemma agreeI: "(\<And>mem e i. e \<le> length mem \<Longrightarrow> P mem e i = Q mem e i) \<Longrightarrow> agree P Q"
  by (simp add: agree_def)

lemma agreeD: "agree P Q \<Longrightarrow> e \<le> length mem \<Longrightarrow> P mem e i = Q mem e i"
  by (simp add: agree_def)

lemma agree_refl [agree_intros]: "agree P P"
  by (simp add: agree_def)

lemma agree_bind [agree_intros]: "agree P P' \<Longrightarrow> (\<And>x. agree (Q x) (Q' x)) \<Longrightarrow> agree (bindP P Q) (bindP P' Q')"
  by (auto simp: agree_def bindP_def bindE_def split: sum.splits parsed.splits)

lemma agree_if [agree_intros]: "(b \<Longrightarrow> agree P P') \<Longrightarrow> (\<not> b \<Longrightarrow> agree Q Q') \<Longrightarrow> agree (if b then P else Q) (if b then P' else Q')"
  by simp

lemma agree_unless [agree_intros]: "agree P Q \<Longrightarrow> agree (unless_incomplete n P) (unless_incomplete n Q)"
  by (auto simp: agree_def unless_incomplete_def)

text \<open>The bytes outside the ranges are those the loops pass over (the names may hold bytes of the ranges as well).\<close>

lemma range_acts:
  "in_ranges eol_ranges c \<longleftrightarrow> ctl_act c = Leave" "\<not> in_ranges eol_ranges c \<Longrightarrow> ctl_act c = Go"
  "\<not> in_ranges token_ranges c \<Longrightarrow> token_act c = Go"
  by (auto simp: eol_ranges_def token_ranges_def ctl_act_def token_act_def IS_PRINTABLE_ASCII_def is_ctl_def)

lemma token_char_table:
  "list_all (\<lambda>n. token_char_map ! n = 1 \<or> n = 34 \<or> n = 40 \<or> n = 41 \<or> n = 44 \<or> n = 47 \<or> 58 \<le> n \<and> n \<le> 64 \<or> 91 \<le> n \<and> n \<le> 93)
     [33..<123]"
  by code_simp

lemma name_acts: "\<not> in_ranges name_ranges c \<Longrightarrow> name_act c = Go"
proof -
  let ?n = "of_char c :: nat"
  assume "\<not> in_ranges name_ranges c"
  then have c: "\<not> ?n \<le> 32" "\<not> (34 \<le> ?n \<and> ?n \<le> 34)" "\<not> (40 \<le> ?n \<and> ?n \<le> 41)" "\<not> (44 \<le> ?n \<and> ?n \<le> 44)" "\<not> (47 \<le> ?n \<and> ?n \<le> 47)"
    and n: "\<not> (58 \<le> ?n \<and> ?n \<le> 64)" "\<not> (91 \<le> ?n \<and> ?n \<le> 93)" and top: "\<not> (123 \<le> ?n \<and> ?n \<le> 255)"
    by (simp_all only: name_ranges_def in_ranges.simps of_char_Char) simp_all
  have "?n < 256" by simp
  with top have "?n < 123" by linarith
  with c(1) have "?n \<in> set [33..<123]" by (simp only: set_upt atLeastLessThan_iff) simp
  with token_char_table have "token_char_map ! ?n = 1 \<or> ?n = 34 \<or> ?n = 40 \<or> ?n = 41 \<or> ?n = 44 \<or> ?n = 47 \<or> 58 \<le> ?n \<and> ?n \<le> 64 \<or> 91 \<le> ?n \<and> ?n \<le> 93"
    by (simp only: list_all_iff)
  with c n have "token_char_map ! ?n = 1" by linarith
  then show ?thesis using n(1) by (auto simp: name_act_def token_char_def)
qed

lemma find_ctl_scan_all: "e \<le> length mem \<Longrightarrow> find_ctl mem e i = scan ctl_act mem e i"
  using find_ctl_scan [of i e mem] by (cases "i \<le> e") (simp_all add: find_ctl_def scan8.simps [of mem e i])

lemma scan_skip:
  "j = i \<or> i \<le> j \<and> j \<le> e \<Longrightarrow> e \<le> length mem \<Longrightarrow> \<forall>q. i \<le> q \<and> q < j \<longrightarrow> act (mem ! q) = Go \<Longrightarrow>
   scan act mem e i = scan act mem e j"
  using scan_ctl_skip [of i j e mem act] by auto

lemma agree_find_ctl [agree_intros]: "agree find_ctl_sse find_ctl"
proof (rule agreeI)
  fix mem e i assume e: "e \<le> length (mem :: bytes)"
  from findchar_fast_result [OF e, of eol_ranges i] obtain found j where
    f: "findchar_fast eol_ranges mem e i = Inr (found, j)" "j = i \<or> i \<le> j \<and> j \<le> e"
      "\<forall>q. i \<le> q \<and> q < j \<longrightarrow> \<not> in_ranges eol_ranges (mem ! q)" "found \<longrightarrow> j < e \<and> in_ranges eol_ranges (mem ! j)"
    by blast
  have "scan ctl_act mem e i = scan ctl_act mem e j"
    using f(2,3) e range_acts(2) by (intro scan_skip) auto
  moreover have "found \<Longrightarrow> scan ctl_act mem e j = Inr (Done ((), j))"
    using f(4) e range_acts(1) by (subst scan.simps) auto
  ultimately show "find_ctl_sse mem e i = find_ctl mem e i"
    using f(1) find_ctl_scan_all [OF e, of i] by (simp add: find_ctl_sse_def)
qed

lemma agree_search:
  assumes "\<And>c. \<not> in_ranges ranges c \<Longrightarrow> act c = Go"
  shows "agree (search_scan ranges act) (scan act)"
proof (rule agreeI)
  fix mem e i assume e: "e \<le> length (mem :: bytes)"
  from findchar_fast_result [OF e, of ranges i] obtain found j where
    f: "findchar_fast ranges mem e i = Inr (found, j)" "j = i \<or> i \<le> j \<and> j \<le> e"
      "\<forall>q. i \<le> q \<and> q < j \<longrightarrow> \<not> in_ranges ranges (mem ! q)" "found \<longrightarrow> j < e" by blast
  have "scan act mem e i = scan act mem e j"
    using f(2,3) e assms by (intro scan_skip) auto
  with f(1,4) show "search_scan ranges act mem e i = scan act mem e i"
    by (auto simp: search_scan_def scan_first_def scan.simps [of act mem e j])
qed

lemmas agree_searches [agree_intros] = agree_search [OF name_acts] agree_search [OF range_acts(3)]

lemma agree_token_to_eol: "agree get_token_to_eol_sse get_token_to_eol"
  unfolding get_token_to_eol_sse_def get_token_to_eol_def by (intro agree_intros)

lemma agree_header_name [agree_intros]: "agree header_name_sse header_name"
  unfolding header_name_sse_def header_name_def by (intro agree_intros)

lemma agree_header_value [agree_intros]: "agree header_value_sse header_value"
  by (rule agreeI) (simp add: header_value_sse_def header_value_def agreeD [OF agree_token_to_eol])

lemma agree_status_message [agree_intros]: "agree status_message_sse status_message"
  by (rule agreeI) (simp add: status_message_sse_def status_message_def agreeD [OF agree_token_to_eol])

lemma agree_parse_headers [agree_intros]: "agree (parse_headers_sse n room) (parse_headers n room)"
proof (induction room arbitrary: n)
  case 0
  show ?case
    unfolding parse_headers_sse.simps [of n 0] parse_headers.simps [of n 0] nat.case by (intro agree_intros)
next
  case (Suc room)
  show ?case
    unfolding parse_headers_sse.simps [of n] parse_headers.simps [of n] nat.case split_def
    by (intro agree_intros Suc.IH)
qed

lemma agree_parse_response [agree_intros]: "agree (parse_response_sse room) (parse_response room)"
  unfolding parse_response_sse_def parse_response_def by (intro agree_intros)

lemma agree_advance_token [agree_intros]: "agree advance_token_sse advance_token"
  unfolding advance_token_sse_def advance_token_def by (intro agree_intros)

lemma agree_parse_request [agree_intros]: "agree (parse_request_sse room) (parse_request room)"
  unfolding parse_request_sse_def parse_request_def split_def by (intro agree_intros)

text \<open>
  Property C26. The parser compiled with SSE, which searches blocks of sixteen bytes for the ends of tokens, gives the same
  answer as the one compiled without: for responses, requests and header blocks, on every input, well-formed or not,
  complete or not, to the position where it stops and the fault it runs into.
\<close>

theorem sse_parser_equivalent:
  assumes "len \<le> length mem"
  shows "phr_parse_response_sse mem len room = phr_parse_response mem len room \<and>
    phr_parse_request_sse mem len room last_len = phr_parse_request mem len room last_len \<and>
    phr_parse_headers_sse mem len room last_len = phr_parse_headers mem len room last_len"
  unfolding phr_parse_response_sse_def phr_parse_response_def phr_parse_request_sse_def phr_parse_request_def
    phr_parse_headers_sse_def phr_parse_headers_def
  using agreeD [OF agree_parse_response assms] agreeD [OF agree_unless [OF agree_parse_request] assms]
    agreeD [OF agree_unless [OF agree_parse_headers] assms] by blast

text \<open>A block of headers whose end is found in the second block of bytes.\<close>

definition sse_input :: bytes where
  "sse_input = ''Host: server.example'' @ CRLF @ CRLF"

theorem sse_parser_equivalent_witness:
  "phr_parse_headers_sse sse_input 24 4 0 =
     Inr (Done ([\<lparr>hdr_name = Some 0, hdr_name_len = 4, hdr_value = 6, hdr_value_len = 14\<rparr>], 24))"
proof -
  have "phr_parse_headers sse_input 24 4 0 =
     Inr (Done ([\<lparr>hdr_name = Some 0, hdr_name_len = 4, hdr_value = 6, hdr_value_len = 14\<rparr>], 24))"
    by code_simp
  moreover have "24 \<le> length sse_input" by code_simp
  ultimately show ?thesis using sse_parser_equivalent [of 24 sse_input 4 0] by simp
qed

end
