(* ===== verification/Chunked.thy ===== *)
theory Chunked
  imports C_Library
begin

section \<open>Chunked bodies (\<open>agents/picohttpparser.c\<close>)\<close>

text \<open>
  The decoder of chunked bodies, which rewrites its buffer in place and keeps its state between
  calls. The agent is built with it and does not call it yet. The reference is an automaton that reads one character at
  a time; the proofs show that the decoder is this automaton, so that the cuts between the calls do not
  matter, and that it gives back the chunks that were encoded.
\<close>

subsection \<open>The decoder\<close>

datatype chunk_state =
    CHUNKED_IN_CHUNK_SIZE
  | CHUNKED_IN_CHUNK_EXT
  | CHUNKED_IN_CHUNK_DATA
  | CHUNKED_IN_CHUNK_CRLF
  | CHUNKED_IN_TRAILERS_LINE_HEAD
  | CHUNKED_IN_TRAILERS_LINE_MIDDLE
  | Corrupt_state int

record phr_chunked_decoder =
  bytes_left_in_chunk :: u64
  consume_trailer :: bool
  dec_hex_count :: nat
  dec_state :: chunk_state

definition fresh_decoder :: "bool \<Rightarrow> phr_chunked_decoder" where
  "fresh_decoder trailer =
     \<lparr>bytes_left_in_chunk = 0, consume_trailer = trailer, dec_hex_count = 0, dec_state = CHUNKED_IN_CHUNK_SIZE\<rparr>"

text \<open>\<open>None\<close> is the -1.\<close>

definition decode_hex :: "char \<Rightarrow> nat option" where
  "decode_hex ch =
     (let c = of_char ch :: nat in
      if 48 \<le> c \<and> c \<le> 57 then Some (c - 48)
      else if 65 \<le> c \<and> c \<le> 70 then Some (c - 65 + 10)
      else if 97 \<le> c \<and> c \<le> 102 then Some (c - 97 + 10)
      else None)"

text \<open>The decoder, the \<open>bufsz\<close> bytes of the buffer, and the two positions.\<close>

record decoding =
  decoder :: phr_chunked_decoder
  cbuf :: bytes
  dst :: nat
  src :: nat

text \<open>How a case of the \<open>switch\<close> is left: \<open>goto Exit\<close> with \<open>ret\<close>, \<open>goto Complete\<close>, or \<open>break\<close>.\<close>

datatype chunk_flow = Exit int decoding | Complete decoding | Again decoding

definition memmove_in :: "bytes \<Rightarrow> nat \<Rightarrow> nat \<Rightarrow> nat \<Rightarrow> bytes" where
  "memmove_in b t f n = take t b @ take n (drop f b) @ drop (t + n) b"

text \<open>\<open>for (;; ++src)\<close> until the end of the buffer or a character that is looked for.\<close>

function skip_to :: "(char \<Rightarrow> bool) \<Rightarrow> bytes \<Rightarrow> nat \<Rightarrow> nat" where
  "skip_to P b i = (if length b \<le> i then i else if P (b ! i) then i else skip_to P b (i + 1))"
  by pat_completeness auto
termination by (relation "measure (\<lambda>(P, b, i). length b - i)") auto

declare skip_to.simps [simp del]

definition skip_src :: "(char \<Rightarrow> bool) \<Rightarrow> decoding \<Rightarrow> decoding" where
  "skip_src P r = r\<lparr>src := skip_to P (cbuf r) (src r)\<rparr>"

definition at_end :: "decoding \<Rightarrow> bool" where
  "at_end r \<longleftrightarrow> length (cbuf r) \<le> src r"

definition cur :: "decoding \<Rightarrow> char" where
  "cur r = cbuf r ! src r"

text \<open>\<open>memmove\<close>, if the positions differ, and both positions moved.\<close>

definition move_data :: "nat \<Rightarrow> decoding \<Rightarrow> decoding" where
  "move_data n r = r\<lparr>cbuf := (if dst r \<noteq> src r then memmove_in (cbuf r) (dst r) (src r) n else cbuf r),
     src := src r + n, dst := dst r + n\<rparr>"

definition set_state :: "chunk_state \<Rightarrow> decoding \<Rightarrow> decoding" where
  "set_state s r = r\<lparr>decoder := (decoder r)\<lparr>dec_state := s\<rparr>\<rparr>"

definition set_left :: "u64 \<Rightarrow> decoding \<Rightarrow> decoding" where
  "set_left n r = r\<lparr>decoder := (decoder r)\<lparr>bytes_left_in_chunk := n\<rparr>\<rparr>"

definition case_crlf :: "decoding \<Rightarrow> chunk_flow" where
  "case_crlf r =
     (let r = skip_src (\<lambda>c. c \<noteq> CR) r in
      if at_end r then Exit (- 2) r
      else if cur r \<noteq> LF then Exit (- 1) r
      else Again (set_state CHUNKED_IN_CHUNK_SIZE (r\<lparr>src := src r + 1\<rparr>)))"

definition case_data :: "decoding \<Rightarrow> chunk_flow" where
  "case_data r =
     (let avail = length (cbuf r) - src r; left = bytes_left_in_chunk (decoder r) in
      if avail < unat left then Exit (- 2) (set_left (left - of_nat avail) (move_data avail r))
      else case_crlf (set_state CHUNKED_IN_CHUNK_CRLF (set_left 0 (move_data (unat left) r))))"

definition case_ext :: "decoding \<Rightarrow> chunk_flow" where
  "case_ext r =
     (let r = skip_src (\<lambda>c. c = LF) r in
      if at_end r then Exit (- 2) r
      else
        let r = r\<lparr>src := src r + 1\<rparr> in
        if bytes_left_in_chunk (decoder r) = 0 then
          if consume_trailer (decoder r) then Again (set_state CHUNKED_IN_TRAILERS_LINE_HEAD r)
          else Complete r
        else case_data (set_state CHUNKED_IN_CHUNK_DATA r))"

function case_size :: "decoding \<Rightarrow> chunk_flow" where
  "case_size r =
     (if length (cbuf r) \<le> src r then Exit (- 2) r
      else case decode_hex (cur r) of
        None \<Rightarrow>
          if dec_hex_count (decoder r) = 0 then Exit (- 1) r
          else case_ext (set_state CHUNKED_IN_CHUNK_EXT (r\<lparr>decoder := (decoder r)\<lparr>dec_hex_count := 0\<rparr>\<rparr>))
      | Some v \<Rightarrow>
          if dec_hex_count (decoder r) = 16 then Exit (- 1) r
          else case_size (r\<lparr>src := src r + 1,
            decoder := (decoder r)\<lparr>bytes_left_in_chunk := bytes_left_in_chunk (decoder r) * 16 + of_nat v,
              dec_hex_count := dec_hex_count (decoder r) + 1\<rparr>\<rparr>))"
  by pat_completeness auto
termination by (relation "measure (\<lambda>r. length (cbuf r) - src r)") auto

declare case_size.simps [simp del]

definition case_middle :: "decoding \<Rightarrow> chunk_flow" where
  "case_middle r =
     (let r = skip_src (\<lambda>c. c = LF) r in
      if at_end r then Exit (- 2) r
      else Again (set_state CHUNKED_IN_TRAILERS_LINE_HEAD (r\<lparr>src := src r + 1\<rparr>)))"

definition case_head :: "decoding \<Rightarrow> chunk_flow" where
  "case_head r =
     (let r = skip_src (\<lambda>c. c \<noteq> CR) r in
      if at_end r then Exit (- 2) r
      else
        let c = cur r; r = r\<lparr>src := src r + 1\<rparr> in
        if c = LF then Complete r
        else case_middle (set_state CHUNKED_IN_TRAILERS_LINE_MIDDLE r))"

definition chunk_switch :: "decoding \<Rightarrow> chunk_flow result" where
  "chunk_switch r =
     (case dec_state (decoder r) of
        CHUNKED_IN_CHUNK_SIZE \<Rightarrow> Inr (case_size r)
      | CHUNKED_IN_CHUNK_EXT \<Rightarrow> Inr (case_ext r)
      | CHUNKED_IN_CHUNK_DATA \<Rightarrow> Inr (case_data r)
      | CHUNKED_IN_CHUNK_CRLF \<Rightarrow> Inr (case_crlf r)
      | CHUNKED_IN_TRAILERS_LINE_HEAD \<Rightarrow> Inr (case_head r)
      | CHUNKED_IN_TRAILERS_LINE_MIDDLE \<Rightarrow> Inr (case_middle r)
      | Corrupt_state n \<Rightarrow> Inl AssertFail)"

text \<open>
  The \<open>while (1)\<close> ends because every turn but the last passes a character. The positions are in order
  and inside the buffer at every turn.
\<close>

named_theorems chunk_simps
declare set_state_def [chunk_simps] set_left_def [chunk_simps] skip_src_def [chunk_simps] at_end_def [chunk_simps]
  cur_def [chunk_simps]

definition in_order :: "decoding \<Rightarrow> bool" where
  "in_order r \<longleftrightarrow> dst r \<le> src r \<and> src r \<le> length (cbuf r)"

definition ahead :: "decoding \<Rightarrow> decoding \<Rightarrow> bool" where
  "ahead r r' \<longleftrightarrow> length (cbuf r') = length (cbuf r) \<and> src r \<le> src r' \<and> in_order r'"

lemma ahead_trans: "ahead r r' \<Longrightarrow> ahead r' r'' \<Longrightarrow> ahead r r''"
  by (simp add: ahead_def)

lemma ahead_then:
  "ahead r a \<and> src r < src a \<Longrightarrow> (in_order a \<Longrightarrow> ahead a r' \<and> src a < src r') \<Longrightarrow> ahead r r' \<and> src r < src r'"
  by (auto simp: ahead_def)

lemma skip_to_bounds: "i \<le> length b \<Longrightarrow> i \<le> skip_to P b i \<and> skip_to P b i \<le> length b"
  by (induction P b i rule: skip_to.induct) (subst (1 2) skip_to.simps, auto)

lemma length_memmove_in: "t \<le> f \<Longrightarrow> f + n \<le> length b \<Longrightarrow> length (memmove_in b t f n) = length b"
  by (simp add: memmove_in_def)

lemma ahead_basic:
  assumes "in_order r"
  shows "ahead r (skip_src P r)" "ahead r (set_state s r)" "ahead r (set_left w r)"
    "src r + n \<le> length (cbuf r) \<Longrightarrow> ahead r (move_data n r)"
  using assms skip_to_bounds [of "src r" "cbuf r" P]
  by (auto simp: ahead_def in_order_def chunk_simps move_data_def length_memmove_in)

lemma ahead_next:
  assumes "ahead r r'" and "\<not> at_end r'"
  shows "ahead r (set_state s (r'\<lparr>src := src r' + 1\<rparr>)) \<and> src r < src (set_state s (r'\<lparr>src := src r' + 1\<rparr>))"
  using assms by (auto simp: ahead_def in_order_def chunk_simps)

lemma case_crlf_ahead: "in_order r \<Longrightarrow> case_crlf r = Again r' \<Longrightarrow> ahead r r' \<and> src r < src r'"
  using ahead_next [OF ahead_basic(1)] by (auto simp: case_crlf_def Let_def split: if_splits)

lemma case_data_ahead:
  assumes "in_order r" and "case_data r = Again r'"
  shows "ahead r r' \<and> src r < src r'"
proof -
  let ?n = "unat (bytes_left_in_chunk (decoder r))"
  let ?r = "set_state CHUNKED_IN_CHUNK_CRLF (set_left 0 (move_data ?n r))"
  from assms have n: "src r + ?n \<le> length (cbuf r)" and c: "case_crlf ?r = Again r'"
    by (auto simp: case_data_def in_order_def Let_def split: if_splits)
  have "ahead r ?r"
    using ahead_basic(4) [OF assms(1) n] by (auto simp: ahead_def in_order_def chunk_simps)
  with case_crlf_ahead [OF _ c] ahead_trans [of r ?r r'] show ?thesis by (auto simp: ahead_def)
qed

lemma case_ext_ahead:
  assumes "in_order r" and "case_ext r = Again r'"
  shows "ahead r r' \<and> src r < src r'"
proof -
  let ?s = "skip_src (\<lambda>c. c = LF) r"
  have a: "\<not> at_end ?s" using assms(2) by (auto simp: case_ext_def Let_def)
  note n = ahead_next [OF ahead_basic(1) [OF assms(1)] a]
  let ?n = "?s\<lparr>src := src ?s + 1\<rparr>"
  have "case_ext r = (if bytes_left_in_chunk (decoder ?n) = 0 then
      if consume_trailer (decoder ?n) then Again (set_state CHUNKED_IN_TRAILERS_LINE_HEAD ?n) else Complete ?n
    else case_data (set_state CHUNKED_IN_CHUNK_DATA ?n))"
    using a unfolding case_ext_def Let_def by (simp only: if_False)
  then consider "r' = set_state CHUNKED_IN_TRAILERS_LINE_HEAD ?n" | "case_data (set_state CHUNKED_IN_CHUNK_DATA ?n) = Again r'"
    using assms(2) by (metis chunk_flow.distinct(5) chunk_flow.inject(3))
  then show ?thesis
  proof cases
    case 1
    show ?thesis unfolding 1 by (rule n)
  next
    case 2
    show ?thesis by (rule ahead_then [OF n]) (rule case_data_ahead [OF _ 2])
  qed
qed

lemma case_size_ahead: "in_order r \<Longrightarrow> case_size r = Again r' \<Longrightarrow> ahead r r' \<and> src r < src r'"
proof (induction r rule: case_size.induct)
  case (1 r)
  let ?e = "set_state CHUNKED_IN_CHUNK_EXT (r\<lparr>decoder := (decoder r)\<lparr>dec_hex_count := 0\<rparr>\<rparr>)"
  from 1(3) have lt: "src r < length (cbuf r)" by (subst (asm) case_size.simps) (auto split: if_splits)
  show ?case
  proof (cases "decode_hex (cur r)")
    case None
    with 1(3) lt have "case_ext ?e = Again r'" by (subst (asm) case_size.simps) (auto split: if_splits)
    from case_ext_ahead [OF _ this] 1(2) show ?thesis by (auto simp: ahead_def in_order_def chunk_simps)
  next
    case (Some v)
    with 1(3) lt have h: "dec_hex_count (decoder r) \<noteq> 16" by (subst (asm) case_size.simps) (auto split: if_splits)
    with 1(3) lt Some have "case_size (r\<lparr>src := src r + 1,
        decoder := (decoder r)\<lparr>bytes_left_in_chunk := bytes_left_in_chunk (decoder r) * 16 + of_nat v,
          dec_hex_count := dec_hex_count (decoder r) + 1\<rparr>\<rparr>) = Again r'"
      by (subst (asm) case_size.simps) simp
    from 1(1) [OF _ Some h _ this] lt 1(2) show ?thesis by (auto simp: ahead_def in_order_def)
  qed
qed

lemma case_middle_ahead: "in_order r \<Longrightarrow> case_middle r = Again r' \<Longrightarrow> ahead r r' \<and> src r < src r'"
  using ahead_next [OF ahead_basic(1)] by (auto simp: case_middle_def Let_def split: if_splits)

lemma case_head_ahead:
  assumes "in_order r" and "case_head r = Again r'"
  shows "ahead r r' \<and> src r < src r'"
proof -
  let ?s = "skip_src (\<lambda>c. c \<noteq> CR) r"
  have a: "\<not> at_end ?s" using assms(2) by (auto simp: case_head_def Let_def)
  note n = ahead_next [OF ahead_basic(1) [OF assms(1)] a]
  from assms(2) a have "case_middle (set_state CHUNKED_IN_TRAILERS_LINE_MIDDLE (?s\<lparr>src := src ?s + 1\<rparr>)) = Again r'"
    by (auto simp: case_head_def Let_def split: if_splits)
  from case_middle_ahead [OF _ this] show ?thesis by (rule ahead_then [OF n])
qed

lemmas cases_ahead = case_crlf_ahead case_data_ahead case_ext_ahead case_size_ahead case_middle_ahead case_head_ahead

lemma chunk_switch_ahead: "in_order r \<Longrightarrow> chunk_switch r = Inr (Again r') \<Longrightarrow> ahead r r' \<and> src r < src r'"
  using cases_ahead by (auto simp: chunk_switch_def split: chunk_state.splits)

function decode_loop :: "decoding \<Rightarrow> chunk_flow result" where
  "decode_loop r =
     (if \<not> in_order r then Inl OutOfBounds
      else bindE (chunk_switch r) (\<lambda>f. case f of Again r \<Rightarrow> decode_loop r | _ \<Rightarrow> Inr f))"
  by pat_completeness auto
termination
  by (relation "measure (\<lambda>r. length (cbuf r) - src r)")
    (auto dest!: chunk_switch_ahead, auto simp: ahead_def in_order_def)

declare decode_loop.simps [simp del]

text \<open>
  The result: the returned value, the decoder, the buffer, in which what was not decoded follows the data, and
  \<open>*_bufsz\<close>.
\<close>

definition leave_decoding :: "int \<Rightarrow> decoding \<Rightarrow> int \<times> phr_chunked_decoder \<times> bytes \<times> nat" where
  "leave_decoding ret r =
     (ret, decoder r, if dst r \<noteq> src r then memmove_in (cbuf r) (dst r) (src r) (length (cbuf r) - src r) else cbuf r, dst r)"

definition phr_decode_chunked :: "phr_chunked_decoder \<Rightarrow> bytes \<Rightarrow> (int \<times> phr_chunked_decoder \<times> bytes \<times> nat) result" where
  "phr_decode_chunked d buf =
     bindE (decode_loop \<lparr>decoder = d, cbuf = buf, dst = 0, src = 0\<rparr>) (\<lambda>f.
       case f of
         Complete r \<Rightarrow> Inr (leave_decoding (int (length (cbuf r) - src r)) r)
       | Exit ret r \<Rightarrow> Inr (leave_decoding ret r)
       | Again r \<Rightarrow> Inl Diverges)"

definition phr_decode_chunked_is_in_data :: "phr_chunked_decoder \<Rightarrow> bool" where
  "phr_decode_chunked_is_in_data d \<longleftrightarrow> dec_state d = CHUNKED_IN_CHUNK_DATA"

subsection \<open>The reference automaton\<close>

datatype chunk_step = Go_on phr_chunked_decoder bytes | Malformed phr_chunked_decoder | Last phr_chunked_decoder

text \<open>A chunk extension ends with the line; without bytes left this was the last chunk.\<close>

definition ext_char :: "phr_chunked_decoder \<Rightarrow> char \<Rightarrow> chunk_step" where
  "ext_char d c =
     (if c \<noteq> LF then Go_on d []
      else if bytes_left_in_chunk d \<noteq> 0 then Go_on (d\<lparr>dec_state := CHUNKED_IN_CHUNK_DATA\<rparr>) []
      else if consume_trailer d then Go_on (d\<lparr>dec_state := CHUNKED_IN_TRAILERS_LINE_HEAD\<rparr>) []
      else Last d)"

definition chunk_char :: "phr_chunked_decoder \<Rightarrow> char \<Rightarrow> chunk_step" where
  "chunk_char d c =
     (case dec_state d of
        CHUNKED_IN_CHUNK_SIZE \<Rightarrow>
          (case decode_hex c of
             Some v \<Rightarrow>
               if dec_hex_count d = 16 then Malformed d
               else Go_on (d\<lparr>bytes_left_in_chunk := bytes_left_in_chunk d * 16 + of_nat v, dec_hex_count := dec_hex_count d + 1\<rparr>) []
           | None \<Rightarrow>
               if dec_hex_count d = 0 then Malformed d
               else ext_char (d\<lparr>dec_hex_count := 0, dec_state := CHUNKED_IN_CHUNK_EXT\<rparr>) c)
      | CHUNKED_IN_CHUNK_EXT \<Rightarrow> ext_char d c
      | CHUNKED_IN_CHUNK_DATA \<Rightarrow>
          Go_on (d\<lparr>bytes_left_in_chunk := bytes_left_in_chunk d - 1,
            dec_state := if bytes_left_in_chunk d = 1 then CHUNKED_IN_CHUNK_CRLF else CHUNKED_IN_CHUNK_DATA\<rparr>) [c]
      | CHUNKED_IN_CHUNK_CRLF \<Rightarrow>
          if c = CR then Go_on d []
          else if c = LF then Go_on (d\<lparr>dec_state := CHUNKED_IN_CHUNK_SIZE\<rparr>) []
          else Malformed d
      | CHUNKED_IN_TRAILERS_LINE_HEAD \<Rightarrow>
          if c = CR then Go_on d []
          else if c = LF then Last d
          else Go_on (d\<lparr>dec_state := CHUNKED_IN_TRAILERS_LINE_MIDDLE\<rparr>) []
      | CHUNKED_IN_TRAILERS_LINE_MIDDLE \<Rightarrow>
          Go_on (if c = LF then d\<lparr>dec_state := CHUNKED_IN_TRAILERS_LINE_HEAD\<rparr> else d) []
      | Corrupt_state n \<Rightarrow> Malformed d)"

datatype chunk_verdict = More | Bad | Finished

text \<open>The automaton on an input: its verdict, its state, the data and the input not read.\<close>

type_synonym chunk_result = "chunk_verdict \<times> phr_chunked_decoder \<times> bytes \<times> bytes"

fun add_data :: "bytes \<Rightarrow> chunk_result \<Rightarrow> chunk_result" where
  "add_data xs (v, d, ys, rest) = (v, d, xs @ ys, rest)"

fun chunk_chars :: "phr_chunked_decoder \<Rightarrow> bytes \<Rightarrow> chunk_result" where
  "chunk_chars d [] = (More, d, [], [])"
| "chunk_chars d (c # cs) =
     (case chunk_char d c of
        Malformed d \<Rightarrow> (Bad, d, [], c # cs)
      | Last d \<Rightarrow> (Finished, d, [], cs)
      | Go_on d xs \<Rightarrow> add_data xs (chunk_chars d cs))"

lemma add_data_add_data [simp]: "add_data xs (add_data ys z) = add_data (xs @ ys) z"
  by (cases z) simp

lemma add_data_Nil [simp]: "add_data [] z = z"
  by (cases z) simp

text \<open>An input in two parts is read one after the other.\<close>

lemma chunk_chars_append:
  "chunk_chars d (xs @ ys) =
     (case chunk_chars d xs of
        (More, d', out, rest) \<Rightarrow> add_data out (chunk_chars d' ys)
      | (v, d', out, rest) \<Rightarrow> (v, d', out, rest @ ys))"
proof (induction xs arbitrary: d)
  case (Cons c cs)
  show ?case
  proof (cases "chunk_char d c")
    case (Go_on d' o')
    obtain v d'' out rest where z: "chunk_chars d' cs = (v, d'', out, rest)" by (metis surj_pair)
    show ?thesis using Cons [of d'] by (cases v) (simp_all add: Go_on z)
  qed simp_all
qed simp

subsection \<open>The decoder is the automaton\<close>

definition ahead_input :: "decoding \<Rightarrow> bytes" where
  "ahead_input r = drop (src r) (cbuf r)"

definition decoded :: "decoding \<Rightarrow> bytes" where
  "decoded r = take (dst r) (cbuf r)"

text \<open>The automaton passes the input between two states of the decoder, with the data the decoder has moved.\<close>

definition passes :: "decoding \<Rightarrow> decoding \<Rightarrow> bool" where
  "passes r r' \<longleftrightarrow> ahead r r' \<and> (\<exists>xs. decoded r' = decoded r @ xs \<and>
     chunk_chars (decoder r) (ahead_input r) = add_data xs (chunk_chars (decoder r') (ahead_input r')))"

lemma passes_trans: "passes r a \<Longrightarrow> passes a r' \<Longrightarrow> passes r r'"
  unfolding passes_def by (elim conjE exE) (auto dest: ahead_trans)

lemma ahead_input_Cons: "\<not> at_end r \<Longrightarrow> ahead_input r = cur r # ahead_input (r\<lparr>src := src r + 1\<rparr>)"
  by (simp add: ahead_input_def chunk_simps Cons_nth_drop_Suc)

lemma passes_char:
  assumes "in_order r" and "\<not> at_end r" and "chunk_char (decoder r) (cur r) = Go_on d []"
  shows "passes r (r\<lparr>src := src r + 1, decoder := d\<rparr>)"
proof -
  have "ahead r (r\<lparr>src := src r + 1, decoder := d\<rparr>)"
    using assms(1,2) by (auto simp: ahead_def in_order_def chunk_simps)
  moreover have "chunk_chars (decoder r) (ahead_input r) = chunk_chars d (ahead_input (r\<lparr>src := src r + 1, decoder := d\<rparr>))"
    using assms(2,3) by (simp add: ahead_input_Cons) (simp add: ahead_input_def)
  ultimately show ?thesis by (auto simp: passes_def decoded_def)
qed

lemma passes_refl: "in_order r \<Longrightarrow> passes r r"
  unfolding passes_def by (intro conjI exI [of _ "[]"]) (simp_all add: ahead_def)

lemma passes_skip:
  assumes "in_order r" and "\<And>c. \<not> P c \<Longrightarrow> chunk_char (decoder r) c = Go_on (decoder r) []"
  shows "passes r (skip_src P r)"
proof -
  have "(\<And>c. \<not> P c \<Longrightarrow> chunk_char (decoder r) c = Go_on (decoder r) []) \<Longrightarrow> i \<le> length (cbuf r) \<Longrightarrow> dst r \<le> i \<Longrightarrow>
      passes (r\<lparr>src := i\<rparr>) (r\<lparr>src := skip_to P (cbuf r) i\<rparr>)" for i P
  proof (induction P "cbuf r" i rule: skip_to.induct)
    case (1 P i)
    let ?r = "r\<lparr>src := i\<rparr>"
    have o: "in_order ?r" using 1(3,4) by (simp add: in_order_def)
    show ?case
    proof (cases "length (cbuf r) \<le> i \<or> P (cbuf r ! i)")
      case True
      then show ?thesis using passes_refl [OF o] by (subst skip_to.simps) auto
    next
      case False
      then have "chunk_char (decoder ?r) (cur ?r) = Go_on (decoder r) []" using 1(2) by (simp add: chunk_simps)
      from passes_char [OF o _ this] False have "passes ?r (r\<lparr>src := i + 1\<rparr>)" by (simp add: chunk_simps)
      from passes_trans [OF this 1(1)] 1(2,4) False show ?thesis by (subst skip_to.simps) auto
    qed
  qed
  from this [of P "src r"] assms show ?thesis by (simp add: skip_src_def in_order_def)
qed

fun flow_ok :: "decoding \<Rightarrow> chunk_flow \<Rightarrow> bool" where
  "flow_ok r (Again r') \<longleftrightarrow> passes r r' \<and> dec_state (decoder r') \<in> {CHUNKED_IN_CHUNK_SIZE, CHUNKED_IN_TRAILERS_LINE_HEAD}"
| "flow_ok r (Complete r') \<longleftrightarrow> ahead r r' \<and> (\<exists>xs. decoded r' = decoded r @ xs \<and>
     chunk_chars (decoder r) (ahead_input r) = (Finished, decoder r', xs, ahead_input r'))"
| "flow_ok r (Exit n r') \<longleftrightarrow> ahead r r' \<and> (\<exists>v xs. decoded r' = decoded r @ xs \<and>
     chunk_chars (decoder r) (ahead_input r) = (v, decoder r', xs, ahead_input r') \<and> (n = - 2 \<and> v = More \<or> n = - 1 \<and> v = Bad))"

lemma flow_after: "passes r a \<Longrightarrow> flow_ok a f \<Longrightarrow> flow_ok r f"
  by (cases f) (auto simp: passes_def intro: passes_trans [unfolded passes_def] ahead_trans)

lemma flow_out: "in_order r \<Longrightarrow> at_end r \<Longrightarrow> flow_ok r (Exit (- 2) r)"
  by (auto simp: ahead_def ahead_input_def at_end_def)

lemma flow_bad: "in_order r \<Longrightarrow> \<not> at_end r \<Longrightarrow> chunk_char (decoder r) (cur r) = Malformed (decoder r) \<Longrightarrow> flow_ok r (Exit (- 1) r)"
  by (auto simp: ahead_def ahead_input_Cons)

lemma flow_last:
  assumes "in_order r" and "\<not> at_end r" and "chunk_char (decoder r) (cur r) = Last (decoder r)"
  shows "flow_ok r (Complete (r\<lparr>src := src r + 1\<rparr>))"
  using assms by (auto simp: ahead_def ahead_input_Cons decoded_def in_order_def chunk_simps)

lemma flow_skip:
  assumes "in_order r" and "\<And>c. \<not> P c \<Longrightarrow> chunk_char (decoder r) c = Go_on (decoder r) []"
    and "in_order (skip_src P r) \<Longrightarrow> decoder (skip_src P r) = decoder r \<Longrightarrow> flow_ok (skip_src P r) f"
  shows "flow_ok r f"
proof (rule flow_after)
  show "passes r (skip_src P r)" by (rule passes_skip [OF assms(1,2)])
  show "flow_ok (skip_src P r) f"
    using assms(3) ahead_basic(1) [OF assms(1)] by (simp add: ahead_def) (simp add: skip_src_def)
qed

lemma skip_found:
  assumes "\<not> at_end (skip_src P r)"
  shows "P (cur (skip_src P r))"
proof -
  have "skip_to P b i < length b \<Longrightarrow> P (b ! skip_to P b i)" for b i
  proof (induction P b i rule: skip_to.induct)
    case (1 P b i)
    then show ?case by (subst skip_to.simps, subst (asm) (2) skip_to.simps) (auto split: if_splits)
  qed
  with assms show ?thesis by (simp add: chunk_simps)
qed

text \<open>A character that changes the state, followed by the rest of the case.\<close>

lemma flow_char:
  assumes "in_order r" and "\<not> at_end r" and "chunk_char (decoder r) (cur r) = Go_on ((decoder r)\<lparr>dec_state := s\<rparr>) []"
    and "flow_ok (set_state s (r\<lparr>src := src r + 1\<rparr>)) f"
  shows "flow_ok r f"
  using passes_char [OF assms(1-3)] assms(4) by (auto simp: set_state_def intro: flow_after)

lemma again_char:
  assumes "in_order r" and "\<not> at_end r" and "chunk_char (decoder r) (cur r) = Go_on ((decoder r)\<lparr>dec_state := s\<rparr>) []"
    and "s \<in> {CHUNKED_IN_CHUNK_SIZE, CHUNKED_IN_TRAILERS_LINE_HEAD}"
  shows "flow_ok r (Again (set_state s (r\<lparr>src := src r + 1\<rparr>)))"
  using passes_char [OF assms(1-3)] assms(4) by (simp add: set_state_def)

lemma in_order_next: "in_order r \<Longrightarrow> \<not> at_end r \<Longrightarrow> in_order (set_state s (r\<lparr>src := src r + 1\<rparr>))"
  by (auto simp: in_order_def chunk_simps)

lemma case_crlf_flow:
  assumes "in_order r" and "dec_state (decoder r) = CHUNKED_IN_CHUNK_CRLF"
  shows "flow_ok r (case_crlf r)"
proof (rule flow_skip [OF assms(1), where P = "\<lambda>c. c \<noteq> CR"])
  let ?s = "skip_src (\<lambda>c. c \<noteq> CR) r"
  assume s: "in_order ?s" "decoder ?s = decoder r"
  show "flow_ok ?s (case_crlf r)"
    using flow_out [OF s(1)] flow_bad [OF s(1)] again_char [OF s(1), of CHUNKED_IN_CHUNK_SIZE]
      skip_found [of "\<lambda>c. c \<noteq> CR" r] assms(2) s(2)
    by (auto simp: case_crlf_def Let_def chunk_char_def)
qed (simp add: chunk_char_def assms(2))

lemma case_middle_flow:
  assumes "in_order r" and "dec_state (decoder r) = CHUNKED_IN_TRAILERS_LINE_MIDDLE"
  shows "flow_ok r (case_middle r)"
proof (rule flow_skip [OF assms(1), where P = "\<lambda>c. c = LF"])
  let ?s = "skip_src (\<lambda>c. c = LF) r"
  assume s: "in_order ?s" "decoder ?s = decoder r"
  show "flow_ok ?s (case_middle r)"
    using flow_out [OF s(1)] again_char [OF s(1), of CHUNKED_IN_TRAILERS_LINE_HEAD]
      skip_found [of "\<lambda>c. c = LF" r] assms(2) s(2)
    by (auto simp: case_middle_def Let_def chunk_char_def)
qed (simp add: chunk_char_def assms(2))

lemma case_head_flow:
  assumes "in_order r" and "dec_state (decoder r) = CHUNKED_IN_TRAILERS_LINE_HEAD"
  shows "flow_ok r (case_head r)"
proof (rule flow_skip [OF assms(1), where P = "\<lambda>c. c \<noteq> CR"])
  let ?s = "skip_src (\<lambda>c. c \<noteq> CR) r"
  let ?m = "set_state CHUNKED_IN_TRAILERS_LINE_MIDDLE (?s\<lparr>src := src ?s + 1\<rparr>)"
  assume s: "in_order ?s" "decoder ?s = decoder r"
  have st: "dec_state (decoder ?m) = CHUNKED_IN_TRAILERS_LINE_MIDDLE" by (simp add: set_state_def)
  show "flow_ok ?s (case_head r)"
    using flow_out [OF s(1)] flow_last [OF s(1)] flow_char [OF s(1), of CHUNKED_IN_TRAILERS_LINE_MIDDLE "case_middle ?m"]
      case_middle_flow [OF in_order_next [OF s(1)] st] skip_found [of "\<lambda>c. c \<noteq> CR" r] assms(2) s(2)
    by (auto simp: case_head_def Let_def chunk_char_def)
qed (simp add: chunk_char_def assms(2))

text \<open>A block of data is what the automaton copies character by character.\<close>

lemma chunk_chars_data:
  "dec_state d = CHUNKED_IN_CHUNK_DATA \<Longrightarrow> bytes_left_in_chunk d \<noteq> 0 \<Longrightarrow> n \<le> unat (bytes_left_in_chunk d) \<Longrightarrow> n \<le> length cs \<Longrightarrow>
   chunk_chars d cs = add_data (take n cs) (chunk_chars (d\<lparr>bytes_left_in_chunk := bytes_left_in_chunk d - of_nat n,
     dec_state := if n = unat (bytes_left_in_chunk d) then CHUNKED_IN_CHUNK_CRLF else CHUNKED_IN_CHUNK_DATA\<rparr>) (drop n cs))"
proof (induction n arbitrary: d cs)
  case 0
  have e: "d\<lparr>dec_state := CHUNKED_IN_CHUNK_DATA\<rparr> = d" using 0(1) by (cases d) simp
  show ?case using 0(2) by (simp add: e unat_eq_zero)
next
  case (Suc n)
  then obtain c cs' where cs: "cs = c # cs'" by (cases cs) auto
  let ?l = "bytes_left_in_chunk d"
  have u: "unat (?l - 1) = unat ?l - 1" using Suc(3) by (simp add: unat_minus_one)
  show ?case
  proof (cases "?l = 1")
    case True
    with Suc(4) have "n = 0" by simp
    with True Suc(2) cs show ?thesis by (simp add: chunk_char_def)
  next
    case False
    let ?d = "d\<lparr>bytes_left_in_chunk := ?l - 1, dec_state := CHUNKED_IN_CHUNK_DATA\<rparr>"
    have "chunk_chars ?d cs' = add_data (take n cs') (chunk_chars (?d\<lparr>bytes_left_in_chunk := ?l - 1 - of_nat n,
        dec_state := if n = unat (?l - 1) then CHUNKED_IN_CHUNK_CRLF else CHUNKED_IN_CHUNK_DATA\<rparr>) (drop n cs'))"
      using Suc(1) [of ?d cs'] False Suc(3-5) cs u by simp
    moreover have "(n = unat (?l - 1)) = (Suc n = unat ?l)" using u Suc(4) by linarith
    ultimately show ?thesis using False Suc(2) cs by (simp add: chunk_char_def diff_diff_add)
  qed
qed

lemma passes_data:
  assumes "in_order r" and "dec_state (decoder r) = CHUNKED_IN_CHUNK_DATA" and "bytes_left_in_chunk (decoder r) \<noteq> 0"
    and "n \<le> unat (bytes_left_in_chunk (decoder r))" and "src r + n \<le> length (cbuf r)"
  shows "passes r ((move_data n r)\<lparr>decoder := (decoder r)\<lparr>bytes_left_in_chunk := bytes_left_in_chunk (decoder r) - of_nat n,
     dec_state := if n = unat (bytes_left_in_chunk (decoder r)) then CHUNKED_IN_CHUNK_CRLF else CHUNKED_IN_CHUNK_DATA\<rparr>\<rparr>)"
proof -
  have "n \<le> length (ahead_input r)" using assms(5) by (simp add: ahead_input_def)
  note c = chunk_chars_data [OF assms(2-4) this]
  have i: "ahead_input (move_data n r) = drop n (ahead_input r)"
    using assms(1,5) by (auto simp: ahead_input_def move_data_def memmove_in_def in_order_def add.commute)
  have d: "decoded (move_data n r) = decoded r @ take n (ahead_input r)"
  proof (cases "dst r = src r")
    case True
    then show ?thesis by (simp add: decoded_def ahead_input_def move_data_def take_add)
  next
    case False
    with assms(1,5) show ?thesis
      by (simp add: decoded_def ahead_input_def move_data_def memmove_in_def in_order_def)
  qed
  from ahead_basic(4) [OF assms(1,5)] c i d show ?thesis
    unfolding passes_def by (auto simp: ahead_def in_order_def ahead_input_def decoded_def)
qed

lemma case_data_flow:
  assumes "in_order r" and "dec_state (decoder r) = CHUNKED_IN_CHUNK_DATA" and "bytes_left_in_chunk (decoder r) \<noteq> 0"
  shows "flow_ok r (case_data r)"
proof -
  let ?l = "bytes_left_in_chunk (decoder r)" and ?a = "length (cbuf r) - src r"
  note p = passes_data [OF assms]
  show ?thesis
  proof (cases "?a < unat ?l")
    case True
    let ?e = "set_left (?l - of_nat ?a) (move_data ?a r)"
    have "(move_data ?a r)\<lparr>decoder := (decoder r)\<lparr>bytes_left_in_chunk := ?l - of_nat ?a,
        dec_state := CHUNKED_IN_CHUNK_DATA\<rparr>\<rparr> = ?e"
      using assms(2) by (cases "decoder r") (simp add: set_left_def move_data_def)
    with p [of ?a] True assms(1) have e: "passes r ?e" by (simp add: in_order_def)
    moreover have "at_end ?e"
      using assms(1) length_memmove_in [of "dst r" "src r" ?a "cbuf r"] by (auto simp: chunk_simps move_data_def in_order_def)
    moreover have "in_order ?e" using e by (simp add: passes_def ahead_def)
    ultimately show ?thesis using flow_after [OF e flow_out] True by (simp add: case_data_def Let_def)
  next
    case False
    let ?e = "set_state CHUNKED_IN_CHUNK_CRLF (set_left 0 (move_data (unat ?l) r))"
    have "(move_data (unat ?l) r)\<lparr>decoder := (decoder r)\<lparr>bytes_left_in_chunk := 0, dec_state := CHUNKED_IN_CHUNK_CRLF\<rparr>\<rparr> = ?e"
      by (simp add: set_left_def set_state_def move_data_def)
    moreover have "src r + unat ?l \<le> length (cbuf r)" using False assms(1) by (auto simp: in_order_def not_less le_diff_conv2 add.commute)
    ultimately have e: "passes r ?e" using p [of "unat ?l"] by simp
    have "dec_state (decoder ?e) = CHUNKED_IN_CHUNK_CRLF" by (simp add: set_state_def)
    with e case_crlf_flow [of ?e] flow_after [OF e] False show ?thesis
      by (simp add: case_data_def Let_def passes_def ahead_def)
  qed
qed

lemma case_ext_flow:
  assumes "in_order r" and "dec_state (decoder r) = CHUNKED_IN_CHUNK_EXT"
  shows "flow_ok r (case_ext r)"
proof (rule flow_skip [OF assms(1), where P = "\<lambda>c. c = LF"])
  let ?s = "skip_src (\<lambda>c. c = LF) r"
  let ?m = "set_state CHUNKED_IN_CHUNK_DATA (?s\<lparr>src := src ?s + 1\<rparr>)"
  assume s: "in_order ?s" "decoder ?s = decoder r"
  have st: "dec_state (decoder ?m) = CHUNKED_IN_CHUNK_DATA" "bytes_left_in_chunk (decoder ?m) = bytes_left_in_chunk (decoder r)"
    using s(2) by (simp_all add: set_state_def)
  show "flow_ok ?s (case_ext r)"
    using flow_out [OF s(1)] flow_last [OF s(1)] flow_char [OF s(1), of CHUNKED_IN_CHUNK_DATA "case_data ?m"]
      again_char [OF s(1), of CHUNKED_IN_TRAILERS_LINE_HEAD]
      case_data_flow [OF in_order_next [OF s(1)] st(1)] st(2) skip_found [of "\<lambda>c. c = LF" r] assms(2) s(2)
    by (auto simp: case_ext_def Let_def chunk_char_def ext_char_def)
qed (simp add: chunk_char_def ext_char_def assms(2))

lemma case_size_flow: "in_order r \<Longrightarrow> dec_state (decoder r) = CHUNKED_IN_CHUNK_SIZE \<Longrightarrow> flow_ok r (case_size r)"
proof (induction r rule: case_size.induct)
  case (1 r)
  show ?case
  proof (cases "at_end r")
    case True
    with flow_out [OF 1(2)] show ?thesis by (subst case_size.simps) (simp add: at_end_def)
  next
    case F: False
    show ?thesis
    proof (cases "decode_hex (cur r)")
      case None
      let ?e = "set_state CHUNKED_IN_CHUNK_EXT (r\<lparr>decoder := (decoder r)\<lparr>dec_hex_count := 0\<rparr>\<rparr>)"
      show ?thesis
      proof (cases "dec_hex_count (decoder r) = 0")
        case True
        with None F flow_bad [OF 1(2) F] 1(3) show ?thesis by (subst case_size.simps) (simp add: at_end_def chunk_char_def)
      next
        case False
        have "in_order ?e" using 1(2) by (simp add: in_order_def set_state_def)
        then have e: "flow_ok ?e (case_ext ?e)" by (rule case_ext_flow) (simp add: set_state_def)
        have c: "ahead_input ?e = cur r # ahead_input (r\<lparr>src := src r + 1\<rparr>)"
          using ahead_input_Cons [OF F] by (simp add: ahead_input_def set_state_def)
        have "chunk_char (decoder r) (cur r) = chunk_char (decoder ?e) (cur r)"
          using None False 1(3) by (simp add: chunk_char_def set_state_def)
        then have "chunk_chars (decoder r) (ahead_input r) = chunk_chars (decoder ?e) (ahead_input ?e)"
          by (simp add: c ahead_input_Cons [OF F])
        moreover have "ahead r ?e" "decoded ?e = decoded r"
          using 1(2) by (simp_all add: ahead_def in_order_def set_state_def decoded_def)
        ultimately have "passes r ?e" by (auto simp: passes_def)
        from flow_after [OF this e] None False F show ?thesis by (subst case_size.simps) (simp add: at_end_def)
      qed
    next
      case (Some v)
      show ?thesis
      proof (cases "dec_hex_count (decoder r) = 16")
        case True
        with Some F flow_bad [OF 1(2) F] 1(3) show ?thesis by (subst case_size.simps) (simp add: at_end_def chunk_char_def)
      next
        case False
        let ?d = "(decoder r)\<lparr>bytes_left_in_chunk := bytes_left_in_chunk (decoder r) * 16 + of_nat v,
              dec_hex_count := dec_hex_count (decoder r) + 1\<rparr>"
        have "passes r (r\<lparr>src := src r + 1, decoder := ?d\<rparr>)"
          by (rule passes_char [OF 1(2) F]) (simp add: chunk_char_def 1(3) Some False)
        moreover from this have "flow_ok (r\<lparr>src := src r + 1, decoder := ?d\<rparr>) (case_size (r\<lparr>src := src r + 1, decoder := ?d\<rparr>))"
          using 1(1) [OF _ Some False] F 1(3) by (simp add: passes_def ahead_def at_end_def)
        ultimately show ?thesis using flow_after Some False F by (subst case_size.simps) (simp add: at_end_def)
      qed
    qed
  qed
qed

text \<open>What the decoder keeps of its state: no block of data is left with nothing to come.\<close>

definition decoder_ok :: "phr_chunked_decoder \<Rightarrow> bool" where
  "decoder_ok d \<longleftrightarrow> (\<forall>n. dec_state d \<noteq> Corrupt_state n) \<and> (dec_state d = CHUNKED_IN_CHUNK_DATA \<longrightarrow> bytes_left_in_chunk d \<noteq> 0)"

lemma chunk_switch_flow:
  assumes "in_order r" and "decoder_ok (decoder r)"
  shows "\<exists>f. chunk_switch r = Inr f \<and> flow_ok r f"
  using assms case_crlf_flow case_data_flow case_ext_flow case_size_flow case_middle_flow case_head_flow
  by (cases "dec_state (decoder r)") (simp_all add: chunk_switch_def decoder_ok_def)

lemma decode_loop_flow:
  "in_order r \<Longrightarrow> decoder_ok (decoder r) \<Longrightarrow> \<exists>f. decode_loop r = Inr f \<and> flow_ok r f \<and> (\<forall>r'. f \<noteq> Again r')"
proof (induction r rule: decode_loop.induct)
  case (1 r)
  from chunk_switch_flow [OF 1(2,3)] obtain f where f: "chunk_switch r = Inr f" "flow_ok r f" by blast
  show ?case
  proof (cases f)
    case (Again r')
    with f have p: "passes r r'" "decoder_ok (decoder r')" "in_order r'"
      by (auto simp: decoder_ok_def passes_def ahead_def)
    from 1(1) [OF _ f(1) Again p(3,2)] 1(2) obtain f' where "decode_loop r' = Inr f'" "flow_ok r' f'" "\<forall>r'. f' \<noteq> Again r'"
      by blast
    with f Again flow_after [OF p(1)] 1(2) show ?thesis by (subst decode_loop.simps) auto
  qed (use f 1(2) in \<open>subst decode_loop.simps, auto\<close>)+
qed

text \<open>The result of a call that the automaton's result prescribes.\<close>

fun chunk_return :: "chunk_verdict \<Rightarrow> bytes \<Rightarrow> int" where
  "chunk_return More rest = - 2"
| "chunk_return Bad rest = - 1"
| "chunk_return Finished rest = int (length rest)"

lemma leave_decoding_eq:
  assumes "in_order r"
  shows "\<exists>tl. leave_decoding ret r = (ret, decoder r, decoded r @ ahead_input r @ tl, length (decoded r)) \<and>
    length (decoded r) + length (ahead_input r) + length tl = length (cbuf r)"
proof (cases "dst r = src r")
  case True
  with assms show ?thesis
    by (intro exI [of _ "[]"]) (simp add: leave_decoding_def decoded_def ahead_input_def in_order_def)
next
  case False
  with assms show ?thesis
    by (intro exI [of _ "drop (dst r + (length (cbuf r) - src r)) (cbuf r)"])
      (auto simp: leave_decoding_def memmove_in_def decoded_def ahead_input_def in_order_def)
qed

lemma decode_chunked_result:
  assumes "decoder_ok d" and "chunk_chars d buf = (v, d', out, rest)"
  shows "\<exists>tl. phr_decode_chunked d buf = Inr (chunk_return v rest, d', out @ rest @ tl, length out) \<and>
    length out + length rest + length tl = length buf"
proof -
  let ?r = "\<lparr>decoder = d, cbuf = buf, dst = 0, src = 0\<rparr>"
  have "in_order ?r" by (simp add: in_order_def)
  from decode_loop_flow [OF this] assms(1) obtain f where
    f: "decode_loop ?r = Inr f" "flow_ok ?r f" "\<forall>r'. f \<noteq> Again r'" by auto
  have i: "ahead_input ?r = buf" "decoded ?r = []" by (simp_all add: ahead_input_def decoded_def)
  show ?thesis
  proof (cases f)
    case (Exit n r)
    with f(2) i assms(2) have "decoded r = out" "ahead_input r = rest" "decoder r = d'" "in_order r" "length (cbuf r) = length buf"
      "n = chunk_return v rest"
      by (auto simp: ahead_def)
    with leave_decoding_eq [of r n] show ?thesis by (auto simp: phr_decode_chunked_def f(1) Exit)
  next
    case (Complete r)
    with f(2) i assms(2) have "decoded r = out" "ahead_input r = rest" "decoder r = d'" "in_order r" "length (cbuf r) = length buf"
      "v = Finished" "length (cbuf r) - src r = length rest"
      by (auto simp: ahead_def ahead_input_def)
    with leave_decoding_eq [of r "int (length rest)"] show ?thesis by (auto simp: phr_decode_chunked_def f(1) Complete)
  next
    case (Again r)
    with f(3) show ?thesis by simp
  qed
qed

text \<open>
  Property C25. The decoder of chunked bodies, which copies blocks inside its buffer and falls from one state into the next,
  is an automaton that reads a character at a time. From a state that a call can leave, it ends; it returns -2, -1 or the number of bytes after the
  last chunk as the automaton says, keeps the automaton's state, and leaves in the buffer the data followed by
  the bytes it did not read.
\<close>

theorem chunked_decoder_is_automaton:
  assumes "decoder_ok d"
  shows "case chunk_chars d buf of (v, d', out, rest) \<Rightarrow>
    \<exists>tl. phr_decode_chunked d buf = Inr (chunk_return v rest, d', out @ rest @ tl, length out) \<and>
      length (out @ rest @ tl) = length buf"
proof -
  obtain v d' out rest where z: "chunk_chars d buf = (v, d', out, rest)" by (metis surj_pair)
  from decode_chunked_result [OF assms z] z show ?thesis by auto
qed

definition two_chunks :: bytes where
  "two_chunks = ''4'' @ CRLF @ ''Wiki'' @ CRLF @ ''a;x=1'' @ CRLF @ ''pedia in c'' @ CRLF @ ''0'' @ CRLF @ ''GET''"

theorem chunked_decoder_is_automaton_witness:
  "\<exists>d' tl. phr_decode_chunked (fresh_decoder False) two_chunks = Inr (3, d', ''Wikipedia in cGET'' @ tl, 14)"
proof -
  let ?d = "fresh_decoder False"
  have "\<exists>d'. chunk_chars ?d two_chunks = (Finished, d', ''Wikipedia in c'', ''GET'')"
    by (simp add: two_chunks_def fresh_decoder_def chunk_char_def ext_char_def decode_hex_def)
  moreover have "decoder_ok ?d" by (simp add: decoder_ok_def fresh_decoder_def)
  ultimately show ?thesis using chunked_decoder_is_automaton [of ?d two_chunks] by auto
qed

subsection \<open>Encoding and feeding\<close>

text \<open>
  A chunk with the digits of its size, its extension and its data; the last chunk; and the lines of a trailer.
\<close>

type_synonym chunk = "bytes \<times> bytes \<times> bytes"

fun hex_value :: "nat \<Rightarrow> bytes \<Rightarrow> nat option" where
  "hex_value acc [] = Some acc"
| "hex_value acc (c # cs) = (case decode_hex c of None \<Rightarrow> None | Some v \<Rightarrow> hex_value (acc * 16 + v) cs)"

definition size_ok :: "bytes \<Rightarrow> bytes \<Rightarrow> nat \<Rightarrow> bool" where
  "size_ok hex ext n \<longleftrightarrow> hex \<noteq> [] \<and> length hex \<le> 16 \<and> hex_value 0 hex = Some n \<and>
     LF \<notin> set ext \<and> (ext \<noteq> [] \<longrightarrow> decode_hex (hd ext) = None)"

fun chunk_ok :: "chunk \<Rightarrow> bool" where
  "chunk_ok (hex, ext, xs) \<longleftrightarrow> size_ok hex ext (length xs) \<and> xs \<noteq> []"

fun chunk_data :: "chunk \<Rightarrow> bytes" where
  "chunk_data (hex, ext, xs) = xs"

fun encode_chunk :: "chunk \<Rightarrow> bytes" where
  "encode_chunk (hex, ext, xs) = hex @ ext @ CRLF @ xs @ CRLF"

definition trailer_ok :: "bytes \<Rightarrow> bool" where
  "trailer_ok l \<longleftrightarrow> l \<noteq> [] \<and> hd l \<noteq> CR \<and> LF \<notin> set l"

definition encode_body :: "bool \<Rightarrow> chunk list \<Rightarrow> bytes \<Rightarrow> bytes \<Rightarrow> bytes list \<Rightarrow> bytes" where
  "encode_body trailer cs hex ext ls =
     concat (map encode_chunk cs) @ hex @ ext @ CRLF @
     (if trailer then concat (map (\<lambda>l. l @ CRLF) ls) @ CRLF else [])"

text \<open>A client of the decoder: new input is supplied as long as the call returns -2.\<close>

fun decode_pieces :: "phr_chunked_decoder \<Rightarrow> bytes list \<Rightarrow> (int \<times> phr_chunked_decoder \<times> bytes) result" where
  "decode_pieces d [] = Inr (- 2, d, [])"
| "decode_pieces d (p # ps) =
     bindE (phr_decode_chunked d p) (\<lambda>(ret, d, buf, n).
       if ret = - 2 then bindE (decode_pieces d ps) (\<lambda>(ret, d, out). Inr (ret, d, take n buf @ out))
       else Inr (ret, d, take n buf))"

lemma chunk_char_ok:
  assumes "decoder_ok d" and "chunk_char d c = Go_on d' out"
  shows "decoder_ok d'"
proof -
  have "bytes_left_in_chunk d \<noteq> 1 \<Longrightarrow> bytes_left_in_chunk d - 1 \<noteq> 0" by simp
  with assms show ?thesis
    by (auto simp: decoder_ok_def chunk_char_def ext_char_def split: chunk_state.splits option.splits if_splits)
qed

lemma chunk_chars_ok: "decoder_ok d \<Longrightarrow> chunk_chars d xs = (More, d', out, rest) \<Longrightarrow> decoder_ok d' \<and> rest = []"
proof (induction xs arbitrary: d out)
  case (Cons c cs)
  from Cons(3) obtain d1 o1 where c: "chunk_char d c = Go_on d1 o1"
    and w: "add_data o1 (chunk_chars d1 cs) = (More, d', out, rest)"
    by (auto split: chunk_step.splits)
  then obtain out' where "chunk_chars d1 cs = (More, d', out', rest)" by (cases "chunk_chars d1 cs") auto
  with Cons(1) chunk_char_ok [OF Cons(2) c] show ?case by blast
qed simp

fun says :: "int \<Rightarrow> chunk_verdict \<Rightarrow> bool" where
  "says ret More \<longleftrightarrow> ret = - 2"
| "says ret Bad \<longleftrightarrow> ret = - 1"
| "says ret Finished \<longleftrightarrow> 0 \<le> ret"

lemma decode_pieces_chars:
  "decoder_ok d \<Longrightarrow> chunk_chars d (concat ps) = (v, d', out, rest) \<Longrightarrow>
   \<exists>ret. decode_pieces d ps = Inr (ret, d', out) \<and> says ret v"
proof (induction ps arbitrary: d out)
  case (Cons p ps)
  obtain v1 d1 o1 r1 where z: "chunk_chars d p = (v1, d1, o1, r1)" by (metis surj_pair)
  from decode_chunked_result [OF Cons(2) z] obtain tl where
    c: "phr_decode_chunked d p = Inr (chunk_return v1 r1, d1, o1 @ r1 @ tl, length o1)" by blast
  show ?case
  proof (cases v1)
    case More
    with z chunk_chars_ok [OF Cons(2)] have ok: "decoder_ok d1" by blast
    from Cons(3) z More obtain o2 where "chunk_chars d1 (concat ps) = (v, d', o2, rest)" "out = o1 @ o2"
      by (cases "chunk_chars d1 (concat ps)") (auto simp: chunk_chars_append)
    with Cons(1) [OF ok this(1)] c More show ?thesis by auto
  qed (use Cons(3) z c in \<open>auto simp: chunk_chars_append\<close>)
qed auto

subsection \<open>The automaton on an encoded body\<close>

lemma decode_hex_less: "decode_hex c = Some v \<Longrightarrow> v < 16"
  by (auto simp: decode_hex_def Let_def split: if_splits)

lemma hex_value_less: "hex_value acc hex = Some n \<Longrightarrow> n < (acc + 1) * 16 ^ length hex"
proof (induction hex arbitrary: acc)
  case (Cons c cs)
  then obtain v where v: "decode_hex c = Some v" "hex_value (acc * 16 + v) cs = Some n" by (auto split: option.splits)
  from Cons(1) [OF v(2)] have "n < (acc * 16 + v + 1) * 16 ^ length cs" .
  also have "\<dots> \<le> ((acc + 1) * 16) * 16 ^ length cs" using decode_hex_less [OF v(1)] by (intro mult_right_mono) simp_all
  finally show ?case by (simp add: algebra_simps)
qed simp

lemma chunk_chars_hex:
  "dec_state d = CHUNKED_IN_CHUNK_SIZE \<Longrightarrow> hex_value acc hex = Some n \<Longrightarrow> bytes_left_in_chunk d = of_nat acc \<Longrightarrow>
   dec_hex_count d + length hex \<le> 16 \<Longrightarrow>
   chunk_chars d (hex @ xs) =
     chunk_chars (d\<lparr>bytes_left_in_chunk := of_nat n, dec_hex_count := dec_hex_count d + length hex\<rparr>) xs"
proof (induction hex arbitrary: d acc)
  case (Cons c cs)
  then obtain v where v: "decode_hex c = Some v" "hex_value (acc * 16 + v) cs = Some n" by (auto split: option.splits)
  let ?d = "d\<lparr>bytes_left_in_chunk := bytes_left_in_chunk d * 16 + of_nat v, dec_hex_count := dec_hex_count d + 1\<rparr>"
  have "chunk_char d c = Go_on ?d []" using Cons(2,5) v by (simp add: chunk_char_def)
  with Cons(1) [OF _ v(2), of ?d] Cons(2-5) show ?case by simp
next
  case Nil
  then have "d\<lparr>bytes_left_in_chunk := of_nat n\<rparr> = d" by (cases d) simp
  then show ?case by simp
qed

text \<open>The end of a size line.\<close>

definition after_size :: "phr_chunked_decoder \<Rightarrow> bytes \<Rightarrow> chunk_result" where
  "after_size d xs =
     (if bytes_left_in_chunk d \<noteq> 0 then chunk_chars (d\<lparr>dec_hex_count := 0, dec_state := CHUNKED_IN_CHUNK_DATA\<rparr>) xs
      else if consume_trailer d then chunk_chars (d\<lparr>dec_hex_count := 0, dec_state := CHUNKED_IN_TRAILERS_LINE_HEAD\<rparr>) xs
      else (Finished, d\<lparr>dec_hex_count := 0, dec_state := CHUNKED_IN_CHUNK_EXT\<rparr>, [], xs))"

lemma chunk_chars_ext_line:
  "dec_state d = CHUNKED_IN_CHUNK_EXT \<Longrightarrow> dec_hex_count d = 0 \<Longrightarrow> LF \<notin> set l \<Longrightarrow> chunk_chars d (l @ LF # xs) = after_size d xs"
proof (induction l)
  case Nil
  then show ?case by (cases d) (simp add: after_size_def chunk_char_def ext_char_def)
qed (auto simp: chunk_char_def ext_char_def)

lemma chunk_chars_size_line:
  assumes "dec_state d = CHUNKED_IN_CHUNK_SIZE" and "dec_hex_count d \<noteq> 0" and "LF \<notin> set ext"
    and "ext \<noteq> [] \<longrightarrow> decode_hex (hd ext) = None"
  shows "chunk_chars d (ext @ CR # LF # xs) = after_size d xs"
proof -
  let ?d = "d\<lparr>dec_hex_count := 0, dec_state := CHUNKED_IN_CHUNK_EXT\<rparr>"
  obtain c l where c: "ext @ [CR] = c # l" by (cases "ext @ [CR]") auto
  with assms(3,4) have l: "decode_hex c = None" "LF \<notin> set (c # l)"
    by (cases ext; auto simp: decode_hex_def)+
  have e: "ext @ CR # LF # xs = (c # l) @ LF # xs" using c by (metis append.assoc append_Cons append_Nil)
  have "chunk_char d c = chunk_char ?d c" using assms(1,2) l(1) by (simp add: chunk_char_def)
  then have "chunk_chars d ((c # l) @ LF # xs) = chunk_chars ?d ((c # l) @ LF # xs)" by simp
  also have "\<dots> = after_size ?d xs" by (rule chunk_chars_ext_line) (use l(2) in simp_all)
  also have "\<dots> = after_size d xs" by (simp add: after_size_def)
  finally show ?thesis by (simp only: e)
qed

lemma chunk_chars_size:
  assumes "size_ok hex ext n"
  shows "chunk_chars (fresh_decoder t) (hex @ ext @ CRLF @ xs) =
    after_size ((fresh_decoder t)\<lparr>bytes_left_in_chunk := of_nat n\<rparr>) xs"
  using assms
  by (simp add: size_ok_def chunk_chars_hex [where acc = 0 and n = n] chunk_chars_size_line fresh_decoder_def after_size_def)

lemma size_ok_less: "size_ok hex ext n \<Longrightarrow> n < 2 ^ 64"
proof -
  assume a: "size_ok hex ext n"
  then have "n < 16 ^ length hex" using hex_value_less [of 0 hex n] by (simp add: size_ok_def)
  also have "\<dots> \<le> 16 ^ 16" using a by (intro power_increasing) (simp_all add: size_ok_def)
  finally show "n < 2 ^ 64" by simp
qed

lemma chunk_chars_chunk:
  assumes "chunk_ok c"
  shows "chunk_chars (fresh_decoder t) (encode_chunk c @ xs) = add_data (chunk_data c) (chunk_chars (fresh_decoder t) xs)"
proof -
  obtain hex ext ys where c: "c = (hex, ext, ys)" by (metis surj_pair)
  with assms have s: "size_ok hex ext (length ys)" "ys \<noteq> []" by simp_all
  let ?l = "of_nat (length ys) :: u64"
  from size_ok_less [OF s(1)] have u: "unat ?l = length ys" by (simp add: unat_of_nat_id)
  with s(2) have n: "?l \<noteq> 0" by force
  let ?d = "\<lparr>bytes_left_in_chunk = ?l, consume_trailer = t, dec_hex_count = 0, dec_state = CHUNKED_IN_CHUNK_DATA\<rparr>"
  have "chunk_chars ?d (ys @ CRLF @ xs) = add_data ys (chunk_chars (?d\<lparr>bytes_left_in_chunk := 0,
      dec_state := CHUNKED_IN_CHUNK_CRLF\<rparr>) (CRLF @ xs))"
    using chunk_chars_data [of ?d "length ys" "ys @ CRLF @ xs"] u n by simp
  also have "\<dots> = add_data ys (chunk_chars (fresh_decoder t) xs)"
    by (simp add: chunk_char_def fresh_decoder_def)
  finally show ?thesis
    using chunk_chars_size [OF s(1), of t "ys @ CRLF @ xs"] n by (simp add: c after_size_def fresh_decoder_def)
qed

lemma chunk_chars_chunks:
  "\<forall>c \<in> set cs. chunk_ok c \<Longrightarrow> chunk_chars (fresh_decoder t) (concat (map encode_chunk cs) @ xs) =
     add_data (concat (map chunk_data cs)) (chunk_chars (fresh_decoder t) xs)"
  by (induction cs) (simp_all add: chunk_chars_chunk)

lemma chunk_chars_middle:
  "dec_state d = CHUNKED_IN_TRAILERS_LINE_MIDDLE \<Longrightarrow> LF \<notin> set l \<Longrightarrow>
   chunk_chars d (l @ LF # xs) = chunk_chars (d\<lparr>dec_state := CHUNKED_IN_TRAILERS_LINE_HEAD\<rparr>) xs"
  by (induction l) (auto simp: chunk_char_def)

lemma chunk_chars_trailer:
  "dec_state d = CHUNKED_IN_TRAILERS_LINE_HEAD \<Longrightarrow> \<forall>l \<in> set ls. trailer_ok l \<Longrightarrow>
   chunk_chars d (concat (map (\<lambda>l. l @ CRLF) ls) @ CRLF @ xs) = (Finished, d, [], xs)"
proof (induction ls)
  case Nil
  then show ?case by (simp add: chunk_char_def)
next
  case (Cons l ls)
  then obtain c l' where l: "l = c # l'" "c \<noteq> CR" "c \<noteq> LF" "LF \<notin> set l'" by (cases l) (auto simp: trailer_ok_def)
  have e: "d\<lparr>dec_state := CHUNKED_IN_TRAILERS_LINE_HEAD\<rparr> = d" using Cons(2) by (cases d) simp
  have "chunk_char d c = Go_on (d\<lparr>dec_state := CHUNKED_IN_TRAILERS_LINE_MIDDLE\<rparr>) []"
    using Cons(2) l by (simp add: chunk_char_def)
  then show ?case
    using Cons chunk_chars_middle [of "d\<lparr>dec_state := CHUNKED_IN_TRAILERS_LINE_MIDDLE\<rparr>" "l' @ [CR]"] l by (simp add: e)
qed

lemma chunk_chars_body:
  assumes "\<forall>c \<in> set cs. chunk_ok c" and "size_ok hex ext 0" and "\<forall>l \<in> set ls. trailer_ok l"
  shows "\<exists>d'. chunk_chars (fresh_decoder t) (encode_body t cs hex ext ls @ rest) = (Finished, d', concat (map chunk_data cs), rest)"
proof (cases t)
  case True
  let ?d = "\<lparr>bytes_left_in_chunk = 0, consume_trailer = True, dec_hex_count = 0, dec_state = CHUNKED_IN_TRAILERS_LINE_HEAD\<rparr>"
  from chunk_chars_trailer [of ?d ls rest] assms(3)
  have "chunk_chars (fresh_decoder t) (hex @ ext @ CRLF @ concat (map (\<lambda>l. l @ CRLF) ls) @ CRLF @ rest) = (Finished, ?d, [], rest)"
    using chunk_chars_size [OF assms(2), of t] True by (simp add: after_size_def fresh_decoder_def)
  with chunk_chars_chunks [OF assms(1), of t] True show ?thesis by (simp add: encode_body_def)
next
  case False
  with chunk_chars_chunks [OF assms(1), of t] chunk_chars_size [OF assms(2), of t rest] show ?thesis
    by (simp add: encode_body_def after_size_def fresh_decoder_def)
qed

lemma chunk_chars_incomplete:
  assumes "chunk_chars d (xs @ ys) = (Finished, d', out, rest)" and "length rest < length ys"
  shows "\<exists>d1 o1 o2. chunk_chars d xs = (More, d1, o1, []) \<and> out = o1 @ o2"
proof -
  obtain v d1 o1 r1 where z: "chunk_chars d xs = (v, d1, o1, r1)" by (metis surj_pair)
  show ?thesis
  proof (cases v)
    case More
    have "r1 = []" if "chunk_chars d xs = (More, d1, o1, r1)" for d o1
      using that by (induction xs arbitrary: d o1) (auto split: chunk_step.splits elim!: add_data.elims)
    with z More assms(1) show ?thesis
      by (cases "chunk_chars d1 ys") (auto simp: chunk_chars_append)
  qed (use z assms in \<open>auto simp: chunk_chars_append\<close>)
qed

text \<open>
  Property C24. A chunked body is decoded to its chunks, wherever the input is cut. If the pieces are those of an encoded
  body, possibly with bytes after it, then the calls on them give the data of the chunks in order and the last one says
  that the body has ended; as long as a part of the body is missing, every call asks for more and the data are the
  first bytes of the body's.
\<close>

theorem chunked_body_decodes:
  assumes "\<forall>c \<in> set cs. chunk_ok c" and "size_ok hex ext 0" and "\<forall>l \<in> set ls. trailer_ok l"
    and "concat ps = encode_body t cs hex ext ls @ rest"
    and "concat qs @ missing = encode_body t cs hex ext ls" and "missing \<noteq> []"
  shows "(\<exists>ret d. decode_pieces (fresh_decoder t) ps = Inr (ret, d, concat (map chunk_data cs)) \<and> 0 \<le> ret) \<and>
    (\<exists>d out out'. decode_pieces (fresh_decoder t) qs = Inr (- 2, d, out) \<and> concat (map chunk_data cs) = out @ out')"
proof
  have ok: "decoder_ok (fresh_decoder t)" by (simp add: decoder_ok_def fresh_decoder_def)
  from chunk_chars_body [OF assms(1-3), of t rest] assms(4)
  obtain d' where "chunk_chars (fresh_decoder t) (concat ps) = (Finished, d', concat (map chunk_data cs), rest)" by auto
  from decode_pieces_chars [OF ok this] obtain ret where
    "decode_pieces (fresh_decoder t) ps = Inr (ret, d', concat (map chunk_data cs))" "says ret Finished" by blast
  then show "\<exists>ret d. decode_pieces (fresh_decoder t) ps = Inr (ret, d, concat (map chunk_data cs)) \<and> 0 \<le> ret" by auto
  from chunk_chars_body [OF assms(1-3), of t "[]"] assms(5)
  obtain d' where "chunk_chars (fresh_decoder t) (concat qs @ missing) = (Finished, d', concat (map chunk_data cs), [])" by auto
  from chunk_chars_incomplete [OF this] assms(6) obtain d1 o1 o2 where
    q: "chunk_chars (fresh_decoder t) (concat qs) = (More, d1, o1, [])" "concat (map chunk_data cs) = o1 @ o2" by auto
  from decode_pieces_chars [OF ok q(1)] q(2)
  show "\<exists>d out out'. decode_pieces (fresh_decoder t) qs = Inr (- 2, d, out) \<and> concat (map chunk_data cs) = out @ out'"
    by (auto split: if_splits)
qed

theorem chunked_body_decodes_witness:
  "(\<exists>ret d. decode_pieces (fresh_decoder True) [''4;a'', CRLF @ ''Wi'', ''ki'' @ CRLF @ ''0'', CRLF @ ''k: v'' @ CRLF @ CRLF @ ''X''] =
      Inr (ret, d, ''Wiki'') \<and> 0 \<le> ret) \<and>
    (\<exists>d out out'. decode_pieces (fresh_decoder True) [''4;a'', CRLF @ ''Wi''] = Inr (- 2, d, out) \<and> ''Wiki'' = out @ out')"
  using chunked_body_decodes [of "[(''4'', '';a'', ''Wiki'')]" "''0''" "''''" "[''k: v'']"
      "[''4;a'', CRLF @ ''Wi'', ''ki'' @ CRLF @ ''0'', CRLF @ ''k: v'' @ CRLF @ CRLF @ ''X'']" True "''X''"
      "[''4;a'', CRLF @ ''Wi'']" "''ki'' @ CRLF @ ''0'' @ CRLF @ ''k: v'' @ CRLF @ CRLF"]
  by (simp add: size_ok_def trailer_ok_def decode_hex_def encode_body_def)

end
