(* ===== verification/Manager.thy ===== *)
theory Manager
  imports Example_Agent
begin

section \<open>The load control (\<open>agents/manager.c\<close>, \<open>inc/lancet/coord_proto.h\<close>)\<close>

text \<open>
  The messages between the coordinator and an agent, and the loop that answers them inside an agent. The build of this
  commit leaves \<open>manager.c\<close> out, and the functions that aggregate the statistics are no longer in the repository: what
  they return is an argument, that they are called is recorded. The proofs follow a measurement from its start to the
  report the coordinator decodes, and show what the lengths in the replies say.
\<close>

subsection \<open>Messages\<close>

text \<open>The numbers of the enumerations.\<close>

datatype msg_type = START_LOAD | START_MEASURE | REPORT_REQ | REPLY | TERMINATE | CONN_OPEN
datatype report_type = REPORT_THROUGHPUT | REPORT_LATENCY
datatype reply_type =
  REPLY_ACK | REPLY_STATS_THROUGHPUT | REPLY_STATS_LATENCY | REPLY_CONVERGENCE | REPLY_IA_COMP | REPLY_IID

fun msg_code :: "msg_type \<Rightarrow> u32" where
  "msg_code START_LOAD = 0"
| "msg_code START_MEASURE = 1"
| "msg_code REPORT_REQ = 2"
| "msg_code REPLY = 3"
| "msg_code TERMINATE = 4"
| "msg_code CONN_OPEN = 5"

fun report_code :: "report_type \<Rightarrow> u32" where
  "report_code REPORT_THROUGHPUT = 0"
| "report_code REPORT_LATENCY = 1"

fun reply_code :: "reply_type \<Rightarrow> u32" where
  "reply_code REPLY_ACK = 0"
| "reply_code REPLY_STATS_THROUGHPUT = 1"
| "reply_code REPLY_STATS_LATENCY = 2"
| "reply_code REPLY_CONVERGENCE = 3"
| "reply_code REPLY_IA_COMP = 4"
| "reply_code REPLY_IID = 5"

text \<open>The packed structures, as records and as the bytes on the wire.\<close>

record msg_hdr =
  MessageType :: u32
  MessageLength :: u32

record msg1 =
  Hdr1 :: msg_hdr
  Info :: u32

record msg2 =
  Hdr2 :: msg_hdr
  Info1 :: u32
  Info2 :: u32

record throughput_reply =
  Rx_bytes :: u64
  Tx_bytes :: u64
  Req_count :: u64
  Duration :: u64
  CorrectIAD :: u64

text \<open>A percentile with the bounds of its confidence interval: \<open>P50_i\<close>, \<open>P50\<close>, \<open>P50_k\<close>.\<close>

record percentile =
  pct_i :: u64
  pct :: u64
  pct_k :: u64

record latency_reply =
  Th_data :: throughput_reply
  Avg_lat :: u64
  P50 :: percentile
  P90 :: percentile
  P95 :: percentile
  P99 :: percentile
  P999 :: percentile
  P9999 :: percentile
  P99999 :: percentile
  P999999 :: percentile
  ToReduceSampling :: u32
  IsIid :: u8
  IsStationary :: u8

definition store_hdr :: "msg_hdr \<Rightarrow> bytes" where
  "store_hdr h = store32 (MessageType h) @ store32 (MessageLength h)"

definition store_msg1 :: "msg1 \<Rightarrow> bytes" where
  "store_msg1 m = store_hdr (Hdr1 m) @ store32 (Info m)"

definition store_msg2 :: "msg2 \<Rightarrow> bytes" where
  "store_msg2 m = store_hdr (Hdr2 m) @ store32 (Info1 m) @ store32 (Info2 m)"

definition store_throughput :: "throughput_reply \<Rightarrow> bytes" where
  "store_throughput d = store64 (Rx_bytes d) @ store64 (Tx_bytes d) @ store64 (Req_count d) @ store64 (Duration d) @
     store64 (CorrectIAD d)"

definition store_percentile :: "percentile \<Rightarrow> bytes" where
  "store_percentile p = store64 (pct_i p) @ store64 (pct p) @ store64 (pct_k p)"

definition store_latency :: "latency_reply \<Rightarrow> bytes" where
  "store_latency d = store_throughput (Th_data d) @ store64 (Avg_lat d) @
     store_percentile (P50 d) @ store_percentile (P90 d) @ store_percentile (P95 d) @ store_percentile (P99 d) @
     store_percentile (P999 d) @ store_percentile (P9999 d) @ store_percentile (P99999 d) @ store_percentile (P999999 d) @
     store32 (ToReduceSampling d) @ [char_of (unat (IsIid d)), char_of (unat (IsStationary d))]"

subsection \<open>The manager and its surroundings\<close>

text \<open>The functions called in other files, in the order of the calls.\<close>

datatype manager_call =
    Set_load int
  | Clear_all_stats
  | Set_per_thread_samples int bytes
  | Collect_reference_ia
  | Aggregate_throughput_stats
  | Aggregate_latency_samples

text \<open>The static variables, what was written to the connection, and the calls.\<close>

record manager =
  agents_should_load :: int
  agents_should_measure :: int
  start_measure_time :: int
  stop_measure_time :: int
  sent :: bytes
  calls :: "manager_call list"

datatype read_ret = Got bytes | Read_failed

text \<open>
  The answers of one turn (the correlation is the bits of a \<open>double\<close>): the reads of the header, of the word and of the \<open>double\<close> after it, the clock, how
  many bytes \<open>writev\<close> takes, the aggregated statistics, and what the stack holds where a reply is built.
\<close>

record manager_answers =
  hdr_read :: read_ret
  info_read :: read_ret
  sampling_read :: read_ret
  clock_us :: int
  written :: "nat \<Rightarrow> int"
  agg_throughput :: "u64 \<times> u64 \<times> u64"
  agg_latency :: latency_reply
  convergence :: u32
  pearson :: u64
  ia_check :: u32
  stack :: latency_reply

text \<open>\<open>manager_init\<close>: the static variables are zero.\<close>

definition manager_init :: "bool \<Rightarrow> manager result" where
  "manager_init alloc_ok =
     bindE (assertE alloc_ok) (\<lambda>_. Inr \<lparr>agents_should_load = 0, agents_should_measure = 0, start_measure_time = 0,
       stop_measure_time = 0, sent = [], calls = []\<rparr>)"

text \<open>The value of \<open>create_socket\<close>, from those of \<open>socket\<close> and \<open>bind\<close>.\<close>

definition create_socket :: "int \<Rightarrow> int \<Rightarrow> int" where
  "create_socket sockfd bound = (if sockfd < 0 then - 1 else if bound < 0 then - 1 else sockfd)"

text \<open>\<open>accept_conn\<close> sets an option of the connection before it looks whether there is one.\<close>

definition accept_conn :: "int \<Rightarrow> int \<Rightarrow> int result" where
  "accept_conn sockfd linger_set = (if linger_set \<noteq> 0 then Inl ExitFail else Inr (if sockfd < 0 then - 1 else sockfd))"

subsection \<open>Replies\<close>

definition called :: "manager_call \<Rightarrow> manager \<Rightarrow> manager" where
  "called c m = m\<lparr>calls := calls m @ [c]\<rparr>"

text \<open>\<open>writev\<close>, and the assertion that all of it was taken.\<close>

definition writev_all :: "manager_answers \<Rightarrow> bytes \<Rightarrow> manager \<Rightarrow> manager result" where
  "writev_all os bs m = bindE (assertE (written os (length bs) = int (length bs))) (\<lambda>_. Inr (m\<lparr>sent := sent m @ bs\<rparr>))"

definition reply1 :: "u32 \<Rightarrow> reply_type \<Rightarrow> msg1" where
  "reply1 len r = \<lparr>Hdr1 = \<lparr>MessageType = msg_code REPLY, MessageLength = len\<rparr>, Info = reply_code r\<rparr>"

definition reply_ia :: "manager_answers \<Rightarrow> msg2" where
  "reply_ia os = \<lparr>Hdr2 = \<lparr>MessageType = msg_code REPLY, MessageLength = 2 * 4\<rparr>, Info1 = reply_code REPLY_IA_COMP, Info2 = ia_check os\<rparr>"

definition reply_ack :: "manager_answers \<Rightarrow> manager \<Rightarrow> manager result" where
  "reply_ack os m = writev_all os (store_msg1 (reply1 4 REPLY_ACK)) m"

text \<open>Fields that are not assigned keep what the stack holds.\<close>

definition throughput_data :: "manager_answers \<Rightarrow> manager \<Rightarrow> throughput_reply" where
  "throughput_data os m = (case agg_throughput os of (rx, tx, reqs) \<Rightarrow>
     (Th_data (stack os))\<lparr>Rx_bytes := rx, Tx_bytes := tx, Req_count := reqs,
       Duration := of_int (stop_measure_time m - start_measure_time m)\<rparr>)"

definition reply_throughput_stats :: "agent_type \<Rightarrow> manager_answers \<Rightarrow> manager \<Rightarrow> manager result" where
  "reply_throughput_stats ty os m =
     (let m = called Aggregate_throughput_stats m in
      writev_all os
        (store_msg1 (reply1 (40 + 4) REPLY_STATS_THROUGHPUT) @ store_throughput (throughput_data os m) @
         (if ty = SYMMETRIC_NIC_TIMESTAMP_AGENT then store_msg2 (reply_ia os) else [])) m)"

definition latency_data :: "manager_answers \<Rightarrow> manager \<Rightarrow> latency_reply" where
  "latency_data os m =
     (agg_latency os)\<lparr>Th_data := (Th_data (agg_latency os))\<lparr>Duration := of_int (stop_measure_time m - start_measure_time m),
         CorrectIAD := CorrectIAD (Th_data (stack os))\<rparr>,
       ToReduceSampling := ToReduceSampling (stack os), IsIid := IsIid (stack os), IsStationary := IsStationary (stack os)\<rparr>"

text \<open>\<open>sizeof(2 * sizeof(uint32_t))\<close> is the size of a \<open>size_t\<close>.\<close>

definition reply_latency_stats :: "agent_type \<Rightarrow> manager_answers \<Rightarrow> manager \<Rightarrow> manager result" where
  "reply_latency_stats ty os m =
     (let m = called Aggregate_latency_samples m in
      writev_all os
        (store_msg1 (reply1 40 REPLY_STATS_LATENCY) @ store_latency (latency_data os m) @
         (if ty = SYMMETRIC_NIC_TIMESTAMP_AGENT then
            store_msg1 (reply1 8 REPLY_CONVERGENCE) @ store32 (convergence os) @
            store_msg1 (reply1 8 REPLY_IID) @ store64 (pearson os) @ store_msg2 (reply_ia os)
          else [])) m)"

subsection \<open>The loop\<close>

text \<open>A read of \<open>n\<close> bytes that is asserted to bring all of them.\<close>

definition read_payload :: "nat \<Rightarrow> read_ret \<Rightarrow> bytes result" where
  "read_payload n r =
     (case r of
        Read_failed \<Rightarrow> Inl AssertFail
      | Got bs \<Rightarrow> bindE (assertE (length (take n bs) = n)) (\<lambda>_. Inr (take n bs)))"

definition start_load_turn :: "manager_answers \<Rightarrow> manager \<Rightarrow> manager result" where
  "start_load_turn os m =
     bindE (read_payload 4 (info_read os)) (\<lambda>payload1.
     let m = called (Set_load (sint (load32 payload1))) m;
         m = called Clear_all_stats (m\<lparr>agents_should_measure := 0\<rparr>) in
     reply_ack os (m\<lparr>agents_should_load := 1\<rparr>))"

definition start_measure_turn :: "agent_config \<Rightarrow> manager_answers \<Rightarrow> manager \<Rightarrow> manager result" where
  "start_measure_turn cfg os m =
     bindE (read_payload 4 (info_read os)) (\<lambda>payload1.
     bindE (read_payload 8 (sampling_read os)) (\<lambda>sampling.
     let m = called Clear_all_stats m in
     if thread_count cfg = 0 then Inl NonFinite
     else
       let n = s32 (lround (101 / 100 * of_int (sint (load32 payload1)) / of_int (thread_count cfg)));
           m = called (Set_per_thread_samples n sampling) m;
           m = m\<lparr>start_measure_time := clock_us os, agents_should_measure := 1\<rparr> in
       bindE (reply_ack os m) (\<lambda>m. Inr (called Collect_reference_ia m))))"

text \<open>\<open>Some n\<close>: \<open>manager_run\<close> returns \<open>n\<close>.\<close>

definition report_turn :: "agent_config \<Rightarrow> manager_answers \<Rightarrow> manager \<Rightarrow> (manager \<times> int option) result" where
  "report_turn cfg os m =
     bindE (read_payload 4 (info_read os)) (\<lambda>payload1.
     let m = (if agents_should_measure m \<noteq> 0 then m\<lparr>agents_should_measure := 0, stop_measure_time := clock_us os\<rparr> else m);
         on = (\<lambda>m. Inr (m\<lparr>agents_should_measure := 1\<rparr>, None)) in
     if load32 payload1 = report_code REPORT_THROUGHPUT then bindE (reply_throughput_stats (atype cfg) os m) on
     else if load32 payload1 = report_code REPORT_LATENCY then bindE (reply_latency_stats (atype cfg) os m) on
     else Inr (m, Some (- 1)))"

definition manager_step :: "agent_config \<Rightarrow> manager_answers \<Rightarrow> manager \<Rightarrow> (manager \<times> int option) result" where
  "manager_step cfg os m =
     (case hdr_read os of
        Read_failed \<Rightarrow> Inr (m, Some (- 1))
      | Got bs \<Rightarrow>
          let hdr = take 8 bs in
          if hdr = [] then Inr (m, Some 0)
          else bindE (assertE (length hdr = 8)) (\<lambda>_.
            if load32 hdr = msg_code START_LOAD then bindE (start_load_turn os m) (\<lambda>m. Inr (m, None))
            else if load32 hdr = msg_code START_MEASURE then bindE (start_measure_turn cfg os m) (\<lambda>m. Inr (m, None))
            else if load32 hdr = msg_code REPORT_REQ then report_turn cfg os m
            else Inr (m, Some (- 1))))"

text \<open>The turns of the loop, as long as there are messages; \<open>None\<close>: it waits for the next.\<close>

fun manager_loop :: "agent_config \<Rightarrow> manager_answers list \<Rightarrow> manager \<Rightarrow> (manager \<times> int option) result" where
  "manager_loop cfg [] m = Inr (m, None)"
| "manager_loop cfg (os # oss) m =
     bindE (manager_step cfg os m) (\<lambda>(m, r). case r of None \<Rightarrow> manager_loop cfg oss m | Some n \<Rightarrow> Inr (m, Some n))"

text \<open>\<open>manager_run\<close>, from the values of \<open>socket\<close>, \<open>bind\<close>, \<open>accept\<close> and \<open>setsockopt\<close>.\<close>

definition manager_run ::
  "agent_config \<Rightarrow> int \<Rightarrow> int \<Rightarrow> int \<Rightarrow> int \<Rightarrow> manager_answers list \<Rightarrow> manager \<Rightarrow> (manager \<times> int option) result" where
  "manager_run cfg sock bound conn linger_set oss m =
     (if create_socket sock bound < 0 then Inr (m, Some (- 1))
      else bindE (accept_conn conn linger_set) (\<lambda>fd. if fd < 0 then Inr (m, Some (- 1)) else manager_loop cfg oss m))"

subsection \<open>A measurement\<close>

lemma load64_store64 [simp]: "load64 (store64 x @ rest) = x"
proof -
  have "unat x < 2 ^ LENGTH(64)" by (rule unsigned_less)
  then show ?thesis by (simp add: load64_def store64_def le_val_le_bytes)
qed

text \<open>A message of the coordinator, on a connection that takes every reply.\<close>

definition asks :: "manager_answers \<Rightarrow> msg_type \<Rightarrow> u32 \<Rightarrow> bool" where
  "asks os t info \<longleftrightarrow> (\<exists>len. hdr_read os = Got (store_hdr \<lparr>MessageType = msg_code t, MessageLength = len\<rparr>)) \<and>
     info_read os = Got (store32 info) \<and> (\<forall>n. written os n = int n)"

definition ack_bytes :: bytes where
  "ack_bytes = store_msg1 (reply1 4 REPLY_ACK)"

text \<open>How the coordinator reads a throughput reply (\<open>collectThroughputResults\<close> in \<open>coordinator/proto.go\<close>).\<close>

definition read_throughput :: "bytes \<Rightarrow> throughput_reply option" where
  "read_throughput bs =
     (if length bs < 52 \<or> load32 (drop 8 bs) \<noteq> reply_code REPLY_STATS_THROUGHPUT then None
      else Some \<lparr>Rx_bytes = load64 (drop 12 bs), Tx_bytes = load64 (drop 20 bs), Req_count = load64 (drop 28 bs),
        Duration = load64 (drop 36 bs), CorrectIAD = load64 (drop 44 bs)\<rparr>)"

lemma length_store_hdr [simp]: "length (store_hdr h) = 8" "take 8 (store_hdr h) = store_hdr h"
  by (simp_all add: store_hdr_def store32_def)

lemma load32_hdr: "load32 (store_hdr h) = MessageType h"
  by (simp add: store_hdr_def load32_store32)

definition asks_report :: "manager_answers \<Rightarrow> bool" where
  "asks_report os \<longleftrightarrow> (\<exists>r. asks os REPORT_REQ (report_code r))"

lemma store_hdr_not_Nil [simp]: "store_hdr h \<noteq> []"
  by (metis length_store_hdr(1) list.size(3) zero_neq_numeral)

lemma asks_step:
  assumes "asks os t info"
  shows "manager_step cfg os m =
    (case t of
       START_LOAD \<Rightarrow> bindE (start_load_turn os m) (\<lambda>m. Inr (m, None))
     | START_MEASURE \<Rightarrow> bindE (start_measure_turn cfg os m) (\<lambda>m. Inr (m, None))
     | REPORT_REQ \<Rightarrow> report_turn cfg os m
     | _ \<Rightarrow> Inr (m, Some (- 1)))"
  using assms by (cases t) (auto simp: asks_def manager_step_def load32_hdr Let_def)

lemma asks_payload: "asks os t info \<Longrightarrow> read_payload 4 (info_read os) = Inr (store32 info)"
  by (simp add: asks_def read_payload_def)

lemma read_payload_whole: "length bs = n \<Longrightarrow> read_payload n (Got bs) = Inr bs"
  by (simp add: read_payload_def)

lemma load32_word: "load32 (store32 x) = x"
  using load32_store32 [of x "[]"] by simp

lemma asks_writev: "asks os t info \<Longrightarrow> writev_all os bs m = Inr (m\<lparr>sent := sent m @ bs\<rparr>)"
  by (simp add: asks_def writev_all_def)

lemma start_load_answered:
  assumes "asks os START_LOAD l"
  shows "manager_step cfg os m = Inr (m\<lparr>agents_should_load := 1, agents_should_measure := 0, sent := sent m @ ack_bytes,
    calls := calls m @ [Set_load (sint l), Clear_all_stats]\<rparr>, None)"
  by (simp add: asks_step [OF assms] start_load_turn_def asks_payload [OF assms] load32_word reply_ack_def asks_writev [OF assms]
      called_def ack_bytes_def Let_def)

definition per_thread_samples :: "agent_config \<Rightarrow> u32 \<Rightarrow> int" where
  "per_thread_samples cfg n = s32 (lround (101 / 100 * of_int (sint n) / of_int (thread_count cfg)))"

lemma start_measure_answered:
  assumes "asks os START_MEASURE n" and "sampling_read os = Got sr" and "length sr = 8" and "thread_count cfg \<noteq> 0"
  shows "manager_step cfg os m = Inr (m\<lparr>start_measure_time := clock_us os, agents_should_measure := 1, sent := sent m @ ack_bytes,
    calls := calls m @ [Clear_all_stats, Set_per_thread_samples (per_thread_samples cfg n) sr, Collect_reference_ia]\<rparr>, None)"
  using assms(2-4)
  by (simp add: asks_step [OF assms(1)] start_measure_turn_def asks_payload [OF assms(1)] load32_word reply_ack_def
      asks_writev [OF assms(1)] called_def ack_bytes_def read_payload_whole per_thread_samples_def Let_def)

text \<open>The reply to a report, and what it leaves.\<close>

definition aggregating :: "report_type \<Rightarrow> manager_call" where
  "aggregating r = (case r of REPORT_THROUGHPUT \<Rightarrow> Aggregate_throughput_stats | REPORT_LATENCY \<Rightarrow> Aggregate_latency_samples)"

definition stopped :: "manager_answers \<Rightarrow> manager \<Rightarrow> manager" where
  "stopped os m = (if agents_should_measure m \<noteq> 0 then m\<lparr>agents_should_measure := 0, stop_measure_time := clock_us os\<rparr> else m)"

definition report_bytes :: "agent_config \<Rightarrow> manager_answers \<Rightarrow> manager \<Rightarrow> report_type \<Rightarrow> bytes" where
  "report_bytes cfg os m r =
     (case r of
        REPORT_THROUGHPUT \<Rightarrow> store_msg1 (reply1 44 REPLY_STATS_THROUGHPUT) @ store_throughput (throughput_data os (stopped os m)) @
          (if atype cfg = SYMMETRIC_NIC_TIMESTAMP_AGENT then store_msg2 (reply_ia os) else [])
      | REPORT_LATENCY \<Rightarrow> store_msg1 (reply1 40 REPLY_STATS_LATENCY) @ store_latency (latency_data os (stopped os m)) @
          (if atype cfg = SYMMETRIC_NIC_TIMESTAMP_AGENT then
             store_msg1 (reply1 8 REPLY_CONVERGENCE) @ store32 (convergence os) @
             store_msg1 (reply1 8 REPLY_IID) @ store64 (pearson os) @ store_msg2 (reply_ia os)
           else []))"

lemma data_called: "throughput_data os (called c m) = throughput_data os m" "latency_data os (called c m) = latency_data os m"
  by (simp_all add: throughput_data_def latency_data_def called_def)

lemma report_answered:
  assumes "asks os REPORT_REQ (report_code r)"
  shows "manager_step cfg os m = Inr ((stopped os m)\<lparr>agents_should_measure := 1, sent := sent m @ report_bytes cfg os m r,
    calls := calls m @ [aggregating r]\<rparr>, None)"
proof -
  have s: "sent (stopped os m) = sent m" "calls (stopped os m) = calls m" by (simp_all add: stopped_def)
  show ?thesis
    by (cases r) (simp_all add: asks_step [OF assms] report_turn_def asks_payload [OF assms] load32_word reply_throughput_stats_def
        reply_latency_stats_def asks_writev [OF assms] data_called report_bytes_def aggregating_def s Let_def
        stopped_def [symmetric] called_def [symmetric] del: msg_code.simps, simp_all add: called_def s)
qed

lemma reports_answered:
  "\<forall>os \<in> set rs. asks_report os \<Longrightarrow> agents_should_measure m = 1 \<Longrightarrow>
   \<exists>m' mid cs. manager_loop cfg rs m = Inr (m', None) \<and> agents_should_measure m' = 1 \<and> agents_should_load m' = agents_should_load m \<and>
     start_measure_time m' = start_measure_time m \<and> sent m' = sent m @ mid \<and> calls m' = calls m @ cs \<and>
     set cs \<subseteq> {Aggregate_throughput_stats, Aggregate_latency_samples}"
proof (induction rs arbitrary: m)
  case (Cons os rs)
  from Cons(2) obtain r where r: "asks os REPORT_REQ (report_code r)" by (auto simp: asks_report_def)
  let ?m = "(stopped os m)\<lparr>agents_should_measure := 1, sent := sent m @ report_bytes cfg os m r, calls := calls m @ [aggregating r]\<rparr>"
  from Cons(1) [of ?m] Cons(2) obtain m' mid cs where
    m': "manager_loop cfg rs ?m = Inr (m', None)" "agents_should_measure m' = 1" "agents_should_load m' = agents_should_load ?m"
      "start_measure_time m' = start_measure_time ?m" "sent m' = sent ?m @ mid" "calls m' = calls ?m @ cs"
      "set cs \<subseteq> {Aggregate_throughput_stats, Aggregate_latency_samples}" by auto
  have "manager_loop cfg (os # rs) m = Inr (m', None)" by (simp add: report_answered [OF r] m'(1))
  moreover have "aggregating r \<in> {Aggregate_throughput_stats, Aggregate_latency_samples}" by (cases r) (simp_all add: aggregating_def)
  ultimately show ?case using m'(2-7)
    by (intro exI [of _ m'] exI [of _ "report_bytes cfg os m r @ mid"] exI [of _ "aggregating r # cs"]) (simp add: stopped_def)
qed auto

lemma manager_loop_append:
  "manager_loop cfg (xs @ ys) m = bindE (manager_loop cfg xs m) (\<lambda>(m, r). case r of None \<Rightarrow> manager_loop cfg ys m | Some n \<Rightarrow> Inr (m, Some n))"
proof (induction xs arbitrary: m)
  case (Cons x xs)
  show ?case
    by (cases "manager_step cfg x m") (auto simp: Cons.IH split: option.splits)
qed simp

lemma read_throughput_reply:
  "read_throughput (store_msg1 (reply1 44 REPLY_STATS_THROUGHPUT) @ store_throughput d @ rest) =
   Some \<lparr>Rx_bytes = Rx_bytes d, Tx_bytes = Tx_bytes d, Req_count = Req_count d, Duration = Duration d, CorrectIAD = CorrectIAD d\<rparr>"
proof -
  have l: "length (store_msg1 m) = 12" "drop 8 (store_msg1 m) = store32 (Info m)" "drop 12 (store_msg1 m @ bs) = bs" for m bs
    by (simp_all add: store_msg1_def)
  have d: "drop (12 + n) (store_msg1 m @ bs) = drop n bs" for m bs n
    by (simp add: l(1))
  show ?thesis
    using d [of 8] d [of 16] d [of 24] d [of 32]
    by (simp add: read_throughput_def l load32_store32 reply1_def store_throughput_def)
qed

text \<open>
  Property C34. From the start of a measurement to its report. Whatever state the load control is in: when the coordinator starts
  a load and then a measurement, asks for reports and in the end for the throughput, every message is answered, the load and the
  number of samples are set and the statistics cleared in that order, and the last reply, decoded as the coordinator does it,
  holds the counters of that moment and the time since the measurement was started; the agent goes on loading and measuring.
\<close>

theorem manager_reports_measurement:
  assumes "asks o1 START_LOAD l" and "asks o2 START_MEASURE n" and "sampling_read o2 = Got sr" and "length sr = 8"
    and "thread_count cfg \<noteq> 0" and "\<forall>os \<in> set rs. asks_report os" and "asks o3 REPORT_REQ (report_code REPORT_THROUGHPUT)"
    and "agg_throughput o3 = (rx, tx, reqs)"
  shows "\<exists>m' mid reply cs. manager_loop cfg ([o1, o2] @ rs @ [o3]) m = Inr (m', None) \<and>
    sent m' = sent m @ ack_bytes @ ack_bytes @ mid @ reply \<and>
    (\<exists>d. read_throughput reply = Some d \<and> Rx_bytes d = rx \<and> Tx_bytes d = tx \<and> Req_count d = reqs \<and>
       Duration d = of_int (clock_us o3 - clock_us o2)) \<and>
    calls m' = calls m @ [Set_load (sint l), Clear_all_stats, Clear_all_stats, Set_per_thread_samples (per_thread_samples cfg n) sr,
      Collect_reference_ia] @ cs \<and> set cs \<subseteq> {Aggregate_throughput_stats, Aggregate_latency_samples} \<and>
    agents_should_load m' = 1 \<and> agents_should_measure m' = 1"
proof -
  let ?m1 = "m\<lparr>agents_should_load := 1, agents_should_measure := 0, sent := sent m @ ack_bytes,
    calls := calls m @ [Set_load (sint l), Clear_all_stats]\<rparr>"
  let ?m2 = "?m1\<lparr>start_measure_time := clock_us o2, agents_should_measure := 1, sent := sent ?m1 @ ack_bytes,
    calls := calls ?m1 @ [Clear_all_stats, Set_per_thread_samples (per_thread_samples cfg n) sr, Collect_reference_ia]\<rparr>"
  have m2: "manager_loop cfg ([o1, o2] @ rs @ [o3]) m = manager_loop cfg (rs @ [o3]) ?m2"
    by (simp add: start_load_answered [OF assms(1)] start_measure_answered [OF assms(2-5)])
  from reports_answered [OF assms(6), of ?m2 cfg] obtain m3 mid cs where
    m3: "manager_loop cfg rs ?m2 = Inr (m3, None)" "agents_should_measure m3 = 1" "agents_should_load m3 = 1"
      "start_measure_time m3 = clock_us o2" "sent m3 = sent ?m2 @ mid" "calls m3 = calls ?m2 @ cs"
      "set cs \<subseteq> {Aggregate_throughput_stats, Aggregate_latency_samples}" by auto
  let ?reply = "report_bytes cfg o3 m3 REPORT_THROUGHPUT"
  let ?m4 = "(stopped o3 m3)\<lparr>agents_should_measure := 1, sent := sent m3 @ ?reply, calls := calls m3 @ [Aggregate_throughput_stats]\<rparr>"
  have "manager_loop cfg (rs @ [o3]) ?m2 = Inr (?m4, None)"
    unfolding manager_loop_append m3(1) by (simp add: report_answered [OF assms(7)] aggregating_def)
  then have "manager_loop cfg ([o1, o2] @ rs @ [o3]) m = Inr (?m4, None)" by (simp only: m2)
  moreover have "read_throughput ?reply = Some (throughput_data o3 (stopped o3 m3))"
    by (simp add: report_bytes_def read_throughput_reply)
  ultimately show ?thesis
    using m3(2-7) assms(8)
    by (intro exI [of _ ?m4] exI [of _ mid] exI [of _ ?reply] exI [of _ "cs @ [Aggregate_throughput_stats]"])
      (simp add: throughput_data_def stopped_def)
qed

definition zero_throughput :: throughput_reply where
  "zero_throughput = \<lparr>Rx_bytes = 0, Tx_bytes = 0, Req_count = 0, Duration = 0, CorrectIAD = 0\<rparr>"

definition zero_percentile :: percentile where
  "zero_percentile = \<lparr>pct_i = 0, pct = 0, pct_k = 0\<rparr>"

definition zero_latency :: latency_reply where
  "zero_latency = \<lparr>Th_data = zero_throughput, Avg_lat = 0, P50 = zero_percentile, P90 = zero_percentile, P95 = zero_percentile,
     P99 = zero_percentile, P999 = zero_percentile, P9999 = zero_percentile, P99999 = zero_percentile,
     P999999 = zero_percentile, ToReduceSampling = 0, IsIid = 0, IsStationary = 0\<rparr>"

definition turn :: "msg_type \<Rightarrow> u32 \<Rightarrow> int \<Rightarrow> manager_answers" where
  "turn t info us = \<lparr>hdr_read = Got (store_hdr \<lparr>MessageType = msg_code t, MessageLength = 4\<rparr>), info_read = Got (store32 info),
     sampling_read = Got (store64 0), clock_us = us, written = int, agg_throughput = (100, 200, 5), agg_latency = zero_latency,
     convergence = 0, pearson = 0, ia_check = 0, stack = zero_latency\<rparr>"

lemma turn_asks: "asks (turn t info us) t info"
  by (auto simp: asks_def turn_def)

lemma echo1_manager: "thread_count echo1_config \<noteq> 0" "atype echo1_config \<noteq> SYMMETRIC_NIC_TIMESTAMP_AGENT"
  by (simp_all add: echo1_config_def some_config_def)

lemma manager_init_ok: "\<exists>m. manager_init True = Inr m \<and> agents_should_measure m = 0 \<and> sent m = []"
  by (simp add: manager_init_def)

theorem manager_reports_measurement_witness:
  "\<exists>m m' mid reply d. manager_init True = Inr m \<and>
    manager_loop echo1_config [turn START_LOAD 1000 7, turn START_MEASURE 50 10, turn REPORT_REQ 1 30, turn REPORT_REQ 0 60] m = Inr (m', None) \<and>
    sent m' = ack_bytes @ ack_bytes @ mid @ reply \<and> read_throughput reply = Some d \<and> Rx_bytes d = 100 \<and> Req_count d = 5 \<and> Duration d = 50"
proof -
  from manager_init_ok obtain m where m: "manager_init True = Inr m" "sent m = []" by blast
  have s: "sampling_read (turn START_MEASURE 50 10) = Got (store64 0)" "length (store64 0) = 8"
    "agg_throughput (turn REPORT_REQ 0 60) = (100, 200, 5)" "clock_us (turn t i us) = us" for t i us
    by (simp_all add: turn_def)
  have r: "\<forall>os \<in> set [turn REPORT_REQ 1 30]. asks_report os"
    using turn_asks [of REPORT_REQ 1 30] by (auto simp: asks_report_def intro: exI [of _ REPORT_LATENCY])
  have "asks (turn REPORT_REQ 0 60) REPORT_REQ (report_code REPORT_THROUGHPUT)" using turn_asks by simp
  from manager_reports_measurement [OF turn_asks turn_asks s(1,2) echo1_manager(1) r this s(3), of 1000 7 m] m s(4) show ?thesis
    by auto
qed

text \<open>
  Property C35. What the reports get wrong. A report that is asked for before any measurement was started is answered with the times and counters
  of nothing and switches measuring on; and a reader that goes by the length in the header finds the end of a throughput reply, but
  not that of a latency reply, which says 40 for 250 bytes.
\<close>

theorem manager_reports_flawed:
  assumes "asks os REPORT_REQ (report_code r)" and "agents_should_measure m = 0"
  shows "\<exists>m' reply. manager_step cfg os m = Inr (m', None) \<and> agents_should_measure m' = 1 \<and> sent m' = sent m @ reply \<and>
    (stop_measure_time m' = stop_measure_time m \<and> start_measure_time m' = start_measure_time m) \<and>
    (atype cfg \<noteq> SYMMETRIC_NIC_TIMESTAMP_AGENT \<longrightarrow>
       length reply = (case r of REPORT_THROUGHPUT \<Rightarrow> 8 + unat (load32 (drop 4 reply)) | REPORT_LATENCY \<Rightarrow> 8 + 250) \<and>
       (r = REPORT_LATENCY \<longrightarrow> unat (load32 (drop 4 reply)) = 40))"
proof -
  have l: "length (store_msg1 x) = 12" "length (store_throughput d) = 40" "length (store_percentile p) = 24"
    "length (store_latency y) = 246" "drop 4 (store_msg1 x) = store32 (MessageLength (Hdr1 x)) @ store32 (Info x)" for x d p y
    by (simp_all add: store_msg1_def store_throughput_def store_percentile_def store_latency_def store_hdr_def)
  show ?thesis
    using assms(2) by (cases r) (simp_all add: report_answered [OF assms(1)] stopped_def report_bytes_def l reply1_def load32_store32)
qed

theorem manager_reports_flawed_witness:
  "\<exists>m m' reply. manager_init True = Inr m \<and> manager_step echo1_config (turn REPORT_REQ 1 30) m = Inr (m', None) \<and>
    agents_should_measure m' = 1 \<and> sent m' = reply \<and> length reply = 258 \<and> unat (load32 (drop 4 reply)) = 40"
proof -
  from manager_init_ok obtain m where m: "manager_init True = Inr m" "agents_should_measure m = 0" "sent m = []" by blast
  have "asks (turn REPORT_REQ 1 30) REPORT_REQ (report_code REPORT_LATENCY)" using turn_asks by simp
  from manager_reports_flawed [OF this m(2), of echo1_config] m echo1_manager(2) show ?thesis by auto
qed

end
