(* ===== verification/Agent_Threads.thy ===== *)
theory Agent_Threads
  imports Tls Example_Agent
begin

section \<open>The start of the threads (\<open>agents/agent.c\<close>)\<close>

text \<open>
  \<open>main\<close> creates the threads, each binds itself to its processor and enters the loop of its transport, which opens the
  connections, waits for the other threads at a barrier and tells the manager that the connections are open. The threads
  are interleaved in any order. The proofs show what the manager may conclude, that the start ends when every thread
  succeeds, and what one thread that fails does to the others. The calls that switch time stamping on are here, too.
\<close>

subsection \<open>Switching time stamping on (\<open>agents/timestamping.c\<close>)\<close>

text \<open>What an interface is told to stamp, and the options of a socket.\<close>

record hwtstamp_config =
  hw_tx_on :: bool
  hw_rx_all :: bool

datatype ts_flag =
    SOF_TIMESTAMPING_RX_HARDWARE
  | SOF_TIMESTAMPING_RAW_HARDWARE
  | SOF_TIMESTAMPING_TX_HARDWARE
  | SOF_TIMESTAMPING_OPT_TSONLY
  | SOF_TIMESTAMPING_OPT_ID

type_synonym interfaces = "string \<Rightarrow> hwtstamp_config option"

text \<open>\<open>strcpy\<close> into the 16 bytes of \<open>ifr_name\<close>; the value is 0, or -1 if \<open>ioctl\<close> fails.\<close>

definition set_timestamping_filter ::
  "bool \<Rightarrow> string \<Rightarrow> hwtstamp_config \<Rightarrow> interfaces \<Rightarrow> (int \<times> interfaces) result" where
  "set_timestamping_filter ioctl_ok name config ifs =
     (if 16 \<le> length (takeWhile (\<lambda>c. c \<noteq> NUL) name) then Inl OutOfBounds
      else if \<not> ioctl_ok then Inr (- 1, ifs)
      else Inr (0, ifs(takeWhile (\<lambda>c. c \<noteq> NUL) name \<mapsto> config)))"

definition enable_nic_timestamping :: "bool \<Rightarrow> string \<Rightarrow> interfaces \<Rightarrow> (int \<times> interfaces) result" where
  "enable_nic_timestamping ioctl_ok name = set_timestamping_filter ioctl_ok name \<lparr>hw_tx_on = True, hw_rx_all = True\<rparr>"

definition disable_nic_timestamping :: "bool \<Rightarrow> string \<Rightarrow> interfaces \<Rightarrow> (int \<times> interfaces) result" where
  "disable_nic_timestamping ioctl_ok name = set_timestamping_filter ioctl_ok name \<lparr>hw_tx_on = False, hw_rx_all = False\<rparr>"

text \<open>The socket with the flags that are set; the value is 0 or -1.\<close>

definition sock_enable_timestamping :: "bool \<Rightarrow> ts_flag set \<Rightarrow> int \<times> ts_flag set" where
  "sock_enable_timestamping setsockopt_ok flags =
     (if setsockopt_ok then
        (0, {SOF_TIMESTAMPING_RX_HARDWARE, SOF_TIMESTAMPING_RAW_HARDWARE, SOF_TIMESTAMPING_TX_HARDWARE,
             SOF_TIMESTAMPING_OPT_TSONLY, SOF_TIMESTAMPING_OPT_ID})
      else (- 1, flags))"

subsection \<open>The process\<close>

text \<open>
  Where a thread is: not created, at the start of \<open>agent_main\<close>, about to open its connections, at the barrier with the state
  its loop starts in, past the barrier, in the loop, or back from \<open>agent_main\<close>.
\<close>

datatype 't thread_phase = Unborn | Created | Pinned | Waiting 't | Passed 't | Looping 't | Returned

text \<open>\<open>to_create\<close> is the counter of the loop in \<open>main\<close>; \<open>exited\<close> the value the process has ended with.\<close>

record 't agent_process =
  shared :: agent_control_block
  phase :: "nat \<Rightarrow> 't thread_phase"
  to_create :: nat
  exited :: "int option"

text \<open>
  What the threads meet: whether \<open>pthread_create\<close> makes thread \<open>i\<close>, whether it can be bound to processor \<open>i\<close>, what the
  opening of its connections yields (\<open>None\<close>: the transport's function returns), and whether the transport waits at the barrier.
\<close>

record 't surroundings =
  threads :: nat
  create_ok :: "nat \<Rightarrow> bool"
  pin_ok :: "nat \<Rightarrow> bool"
  conns_of :: "nat \<Rightarrow> 't option result"
  barrier :: bool

datatype actor = Main | Thread nat

text \<open>The transports that wait at the barrier and set \<open>conn_open\<close>.\<close>

definition uses_barrier :: "agent_config \<Rightarrow> bool" where
  "uses_barrier cfg \<longleftrightarrow> tp_type cfg = TCP \<and> atype cfg \<noteq> LATENCY_AGENT \<or> tp_type cfg = TLS"

text \<open>The first thread calls \<open>agent_main(0)\<close> when the others are created; when it is back, \<open>main\<close> returns 0.\<close>

definition main_step :: "'t surroundings \<Rightarrow> 't agent_process \<Rightarrow> 't agent_process option" where
  "main_step env s =
     (let i = to_create s in
      if i < threads env then
        if create_ok env i then Some (s\<lparr>phase := (phase s)(i := Created), to_create := i + 1\<rparr>)
        else Some (s\<lparr>exited := Some (- 1)\<rparr>)
      else case phase s 0 of
        Unborn \<Rightarrow> Some (s\<lparr>phase := (phase s)(0 := Created)\<rparr>)
      | Returned \<Rightarrow> Some (s\<lparr>exited := Some 0\<rparr>)
      | _ \<Rightarrow> None)"

text \<open>The barrier opens when as many threads wait as it was made for.\<close>

fun at_barrier :: "'t thread_phase \<Rightarrow> bool" where
  "at_barrier (Waiting t) \<longleftrightarrow> True"
| "at_barrier (Passed t) \<longleftrightarrow> True"
| "at_barrier (Looping t) \<longleftrightarrow> True"
| "at_barrier ph \<longleftrightarrow> False"

definition barrier_open :: "'t surroundings \<Rightarrow> 't agent_process \<Rightarrow> bool" where
  "barrier_open env s \<longleftrightarrow> list_all (\<lambda>i. at_barrier (phase s i)) [0..<threads env]"

text \<open>\<open>agent_main\<close> and the beginning of the transport's function; \<open>None\<close>: the thread cannot go on, or is in its loop.\<close>

definition thread_step :: "'t surroundings \<Rightarrow> nat \<Rightarrow> 't agent_process \<Rightarrow> 't agent_process option result" where
  "thread_step env i s =
     (case phase s i of
        Created \<Rightarrow> Inr (Some (s\<lparr>phase := (phase s)(i := if pin_ok env i then Pinned else Returned)\<rparr>))
      | Pinned \<Rightarrow>
          bindE (conns_of env i) (\<lambda>r. Inr (Some (s\<lparr>phase := (phase s)(i :=
            case r of None \<Rightarrow> Returned | Some t \<Rightarrow> if barrier env then Waiting t else Looping t)\<rparr>)))
      | Waiting t \<Rightarrow> Inr (if barrier_open env s then Some (s\<lparr>phase := (phase s)(i := Passed t)\<rparr>) else None)
      | Passed t \<Rightarrow> Inr (Some (s\<lparr>shared := set_conn_open 1 (shared s), phase := (phase s)(i := Looping t)\<rparr>))
      | _ \<Rightarrow> Inr None)"

definition process_step :: "'t surroundings \<Rightarrow> actor \<Rightarrow> 't agent_process \<Rightarrow> 't agent_process option result" where
  "process_step env a s =
     (if exited s \<noteq> None then Inr None
      else case a of
        Main \<Rightarrow> Inr (main_step env s)
      | Thread i \<Rightarrow> if i < threads env then thread_step env i s else Inr None)"

text \<open>Behind the initialisation of the barrier, whose assertion holds when there is at least one thread.\<close>

definition process_start :: "agent_config \<Rightarrow> 't agent_process" where
  "process_start cfg = \<lparr>shared = configure_control_block cfg, phase = \<lambda>_. Unborn, to_create = 1, exited = None\<rparr>"

text \<open>The states that some interleaving reaches.\<close>

inductive process_reaches :: "'t surroundings \<Rightarrow> agent_config \<Rightarrow> 't agent_process \<Rightarrow> bool"
  for env :: "'t surroundings" and cfg :: agent_config where
  process_starts: "process_reaches env cfg (process_start cfg)"
| process_steps: "process_reaches env cfg s \<Longrightarrow> process_step env a s = Inr (Some s') \<Longrightarrow> process_reaches env cfg s'"

text \<open>The threads of a TCP agent.\<close>

definition tcp_surroundings ::
  "agent_config \<Rightarrow> (nat \<Rightarrow> bool) \<Rightarrow> (nat \<Rightarrow> bool) \<Rightarrow> (nat \<Rightarrow> bool) \<Rightarrow> (nat \<Rightarrow> socket_answers) \<Rightarrow> int \<Rightarrow> (nat \<Rightarrow> rand_env) \<Rightarrow>
   tcp_thread surroundings" where
  "tcp_surroundings cfg creates pins epoll_ok sockets time_ns e =
     \<lparr>threads = nat (thread_count cfg), create_ok = creates, pin_ok = pins,
      conns_of = (\<lambda>i.
        if atype cfg = LATENCY_AGENT then bindE (latency_start cfg (sockets i) time_ns (e i)) (\<lambda>(dests, t). Inr (Some t))
        else bindE (throughput_start cfg (epoll_ok i) (sockets i) time_ns (e i)) (\<lambda>(dests, r). Inr r)),
      barrier = uses_barrier cfg\<rparr>"

text \<open>The threads of a TLS agent; \<open>ssl i\<close> is what the library answers thread \<open>i\<close>.\<close>

definition tls_surroundings ::
  "agent_config \<Rightarrow> (nat \<Rightarrow> bool) \<Rightarrow> (nat \<Rightarrow> bool) \<Rightarrow> (nat \<Rightarrow> bool) \<Rightarrow> (nat \<Rightarrow> nat \<Rightarrow> ssl_answers) \<Rightarrow> (nat \<Rightarrow> socket_answers) \<Rightarrow>
   int \<Rightarrow> (nat \<Rightarrow> rand_env) \<Rightarrow> tls_thread surroundings" where
  "tls_surroundings cfg creates pins epoll_ok ssl sockets time_ns e =
     \<lparr>threads = nat (thread_count cfg), create_ok = creates, pin_ok = pins,
      conns_of = (\<lambda>i. bindE (tls_main cfg (epoll_ok i) (ssl i) (sockets i) time_ns (e i)) (\<lambda>(dests, r). Inr r)),
      barrier = uses_barrier cfg\<rparr>"

subsection \<open>What \<open>conn_open\<close> means\<close>

text \<open>A thread that is bound and whose connections are open.\<close>

definition opened :: "'t surroundings \<Rightarrow> nat \<Rightarrow> 't \<Rightarrow> bool" where
  "opened env i t \<longleftrightarrow> pin_ok env i \<and> conns_of env i = Inr (Some t)"

fun phase_ok :: "'t surroundings \<Rightarrow> nat \<Rightarrow> 't thread_phase \<Rightarrow> bool" where
  "phase_ok env i Pinned \<longleftrightarrow> pin_ok env i"
| "phase_ok env i (Waiting t) \<longleftrightarrow> opened env i t"
| "phase_ok env i (Passed t) \<longleftrightarrow> opened env i t"
| "phase_ok env i (Looping t) \<longleftrightarrow> opened env i t"
| "phase_ok env i Returned \<longleftrightarrow> \<not> pin_ok env i \<or> conns_of env i = Inr None"
| "phase_ok env i ph \<longleftrightarrow> True"

fun past_barrier :: "'t thread_phase \<Rightarrow> bool" where
  "past_barrier (Passed t) \<longleftrightarrow> True"
| "past_barrier (Looping t) \<longleftrightarrow> True"
| "past_barrier ph \<longleftrightarrow> False"

definition start_inv :: "'t surroundings \<Rightarrow> 't agent_process \<Rightarrow> bool" where
  "start_inv env s \<longleftrightarrow> (\<forall>i < threads env. phase_ok env i (phase s i)) \<and>
     (barrier env \<longrightarrow> (\<exists>i < threads env. past_barrier (phase s i)) \<or> acb_conn_open (shared s) \<noteq> 0 \<longrightarrow> barrier_open env s)"

lemma barrier_open_iff: "barrier_open env s \<longleftrightarrow> (\<forall>i < threads env. at_barrier (phase s i))"
  by (auto simp: barrier_open_def list_all_iff)

lemma phase_update_open:
  "barrier_open env s \<Longrightarrow> at_barrier ph \<or> \<not> at_barrier (phase s i) \<Longrightarrow> i < threads env \<Longrightarrow>
   phase s' = (phase s)(i := ph) \<Longrightarrow> barrier_open env s'"
  by (auto simp: barrier_open_iff)

lemma start_inv_update:
  assumes "start_inv env s" and "phase s' = (phase s)(i := ph)" and "shared s' = shared s" and "phase_ok env i ph"
    and "\<not> past_barrier ph \<or> \<not> barrier env" and "\<not> at_barrier (phase s i)"
  shows "start_inv env s'"
proof -
  have "barrier_open env s' \<or> \<not> barrier_open env s" if "i < threads env"
    using that assms(6) by (auto simp: barrier_open_iff)
  with assms show ?thesis unfolding start_inv_def barrier_open_iff by (auto split: if_splits)
qed

text \<open>Who has been created: all up to the counter, and the first thread after the others.\<close>

definition born_inv :: "'t surroundings \<Rightarrow> 't agent_process \<Rightarrow> bool" where
  "born_inv env s \<longleftrightarrow> 0 < to_create s \<and> (\<forall>i. to_create s \<le> i \<longrightarrow> phase s i = Unborn) \<and>
     (\<forall>i. 0 < i \<longrightarrow> i < to_create s \<longrightarrow> phase s i \<noteq> Unborn) \<and> (to_create s < threads env \<longrightarrow> phase s 0 = Unborn)"

lemma main_step_cases:
  assumes "main_step env s = Some s'"
  obtains (create) "to_create s < threads env" "create_ok env (to_create s)"
      "s' = s\<lparr>phase := (phase s)(to_create s := Created), to_create := to_create s + 1\<rparr>"
  | (fail) "to_create s < threads env" "\<not> create_ok env (to_create s)" "s' = s\<lparr>exited := Some (- 1)\<rparr>"
  | (self) "threads env \<le> to_create s" "phase s 0 = Unborn" "s' = s\<lparr>phase := (phase s)(0 := Created)\<rparr>"
  | (home) "threads env \<le> to_create s" "phase s 0 = Returned" "s' = s\<lparr>exited := Some 0\<rparr>"
  using assms by (auto simp: main_step_def Let_def split: if_splits thread_phase.splits)

lemma thread_step_cases:
  assumes "thread_step env i s = Inr (Some s')"
  obtains (pin) "phase s i = Created" "s' = s\<lparr>phase := (phase s)(i := if pin_ok env i then Pinned else Returned)\<rparr>"
  | (none) "phase s i = Pinned" "conns_of env i = Inr None" "s' = s\<lparr>phase := (phase s)(i := Returned)\<rparr>"
  | (conns) t where "phase s i = Pinned" "conns_of env i = Inr (Some t)"
      "s' = s\<lparr>phase := (phase s)(i := if barrier env then Waiting t else Looping t)\<rparr>"
  | (pass) t where "phase s i = Waiting t" "barrier_open env s" "s' = s\<lparr>phase := (phase s)(i := Passed t)\<rparr>"
  | (enter) t where "phase s i = Passed t" "s' = s\<lparr>shared := set_conn_open 1 (shared s), phase := (phase s)(i := Looping t)\<rparr>"
proof (cases "phase s i")
  case Pinned
  with assms obtain r where r: "conns_of env i = Inr r" by (auto simp: thread_step_def bindE_eq_Inr)
  with assms Pinned none conns show ?thesis by (cases r) (auto simp: thread_step_def)
qed (use assms pin pass enter in \<open>auto simp: thread_step_def split: if_splits\<close>)

lemma start_inv_main:
  assumes "start_inv env s" and "born_inv env s" and "main_step env s = Some s'"
  shows "start_inv env s'"
  using assms(3)
proof (cases rule: main_step_cases)
  case create
  with assms(2) show ?thesis by (intro start_inv_update [OF assms(1)]) (auto simp: born_inv_def)
next
  case self
  then show ?thesis by (intro start_inv_update [OF assms(1)]) auto
qed (use assms(1) in \<open>simp_all add: start_inv_def barrier_open_iff\<close>)

lemma start_inv_thread:
  assumes "start_inv env s" and "i < threads env" and "thread_step env i s = Inr (Some s')"
  shows "start_inv env s'"
proof -
  have ok: "phase_ok env i (phase s i)" using assms(1,2) by (simp add: start_inv_def)
  from assms(3) show ?thesis
  proof (cases rule: thread_step_cases)
    case pin
    then show ?thesis by (intro start_inv_update [OF assms(1)]) (auto split: if_splits)
  next
    case none
    then show ?thesis by (intro start_inv_update [OF assms(1)]) auto
  next
    case (conns t)
    with ok show ?thesis by (intro start_inv_update [OF assms(1)]) (auto simp: opened_def)
  next
    case (pass t)
    with assms(1,2) ok show ?thesis by (auto simp: start_inv_def barrier_open_iff)
  next
    case (enter t)
    with assms(1,2) have "barrier env \<Longrightarrow> barrier_open env s" by (force simp: start_inv_def)
    with enter assms(1,2) ok show ?thesis by (auto simp: start_inv_def barrier_open_iff)
  qed
qed

lemma born_inv_main:
  assumes "born_inv env s" and "main_step env s = Some s'"
  shows "born_inv env s'"
  using assms(2)
proof (cases rule: main_step_cases)
  case create
  with assms(1) show ?thesis unfolding create(3) born_inv_def by (simp add: less_Suc_eq)
next
  case self
  with assms(1) show ?thesis unfolding self(3) born_inv_def by simp
qed (use assms(1) in \<open>simp_all add: born_inv_def\<close>)

lemma born_inv_thread:
  assumes "born_inv env s" and "thread_step env i s = Inr (Some s')"
  shows "born_inv env s'"
proof -
  have "phase s i \<noteq> Unborn" using assms(2) by (auto simp: thread_step_def)
  with assms(1) have i: "i < to_create s" "i = 0 \<longrightarrow> \<not> to_create s < threads env"
    unfolding born_inv_def by (metis not_le)+
  show ?thesis
    using assms(2)
  proof (cases rule: thread_step_cases)
    case pin
    show ?thesis using assms(1) i unfolding pin(2) born_inv_def by simp
  next
    case none
    show ?thesis using assms(1) i unfolding none(3) born_inv_def by simp
  next
    case (conns t)
    show ?thesis using assms(1) i unfolding conns(3) born_inv_def by simp
  next
    case (pass t)
    show ?thesis using assms(1) i unfolding pass(3) born_inv_def by simp
  next
    case (enter t)
    show ?thesis using assms(1) i unfolding enter(2) born_inv_def by simp
  qed
qed

lemma process_inv: "process_reaches env cfg s \<Longrightarrow> start_inv env s \<and> born_inv env s"
proof (induction rule: process_reaches.induct)
  case process_starts
  show ?case by (simp add: process_start_def start_inv_def born_inv_def configure_control_block_def)
next
  case (process_steps s a s')
  then show ?case
    using start_inv_main born_inv_main start_inv_thread born_inv_thread
    by (cases a) (auto simp: process_step_def split: if_splits)
qed

text \<open>Behind the barrier every thread is bound and connected.\<close>

lemma conn_open_means_opened:
  assumes "process_reaches env cfg s" and "barrier env" and "acb_conn_open (shared s) \<noteq> 0" and "i < threads env"
  shows "\<exists>t. opened env i t \<and> phase s i \<in> {Waiting t, Passed t, Looping t}"
proof -
  from process_inv [OF assms(1)] have inv: "start_inv env s" by simp
  with assms(2-4) have "at_barrier (phase s i)" "phase_ok env i (phase s i)"
    by (auto simp: start_inv_def barrier_open_iff)
  then show ?thesis by (cases "phase s i") auto
qed

text \<open>
  Property C17. What the manager may conclude from \<open>conn_open\<close>. In every interleaving of the threads of a TCP agent other than the latency agent,
  once one of them has set \<open>conn_open\<close>, every thread is bound to its processor and has opened all its connections.
\<close>

theorem conn_open_means_ready:
  assumes "process_reaches (tcp_surroundings cfg creates pins epoll_ok sockets time_ns e) cfg s" and "tp_type cfg = TCP"
    and "atype cfg \<noteq> LATENCY_AGENT" and "acb_conn_open (shared s) \<noteq> 0" and "i < nat (thread_count cfg)"
  shows "pins i \<and> (\<exists>dests t. throughput_start cfg (epoll_ok i) (sockets i) time_ns (e i) = Inr (dests, Some t) \<and>
    phase s i \<in> {Waiting t, Passed t, Looping t})"
proof -
  let ?env = "tcp_surroundings cfg creates pins epoll_ok sockets time_ns e"
  have env: "threads ?env = nat (thread_count cfg)" "barrier ?env" "pin_ok ?env = pins"
    using assms(2,3) by (simp_all add: tcp_surroundings_def uses_barrier_def)
  from conn_open_means_opened [OF assms(1) env(2) assms(4)] assms(5) env(1) obtain t where
    t: "phase s i \<in> {Waiting t, Passed t, Looping t}" "opened ?env i t" by auto
  then have "bindE (throughput_start cfg (epoll_ok i) (sockets i) time_ns (e i)) (\<lambda>(dests, r). Inr r) = Inr (Some t)"
    using assms(3) by (simp add: opened_def tcp_surroundings_def)
  then have "\<exists>dests. throughput_start cfg (epoll_ok i) (sockets i) time_ns (e i) = Inr (dests, Some t)"
    by (auto simp: bindE_eq_Inr)
  with t env show ?thesis by (auto simp: opened_def)
qed

text \<open>The TLS agent has opened, moreover, what a TCP agent would have.\<close>

lemma tls_conn_open_means_ready:
  assumes "process_reaches (tls_surroundings cfg creates pins epoll_ok ssl sockets time_ns e) cfg s" and "tp_type cfg = TLS"
    and "acb_conn_open (shared s) \<noteq> 0" and "i < nat (thread_count cfg)"
  shows "pins i \<and> (\<exists>dests t. throughput_start cfg (epoll_ok i) (sockets i) time_ns (e i) = Inr (dests, Some (tls_tcp t)) \<and>
    phase s i \<in> {Waiting t, Passed t, Looping t})"
proof -
  let ?env = "tls_surroundings cfg creates pins epoll_ok ssl sockets time_ns e"
  have env: "threads ?env = nat (thread_count cfg)" "barrier ?env" "pin_ok ?env = pins"
    using assms(2) by (simp_all add: tls_surroundings_def uses_barrier_def)
  from conn_open_means_opened [OF assms(1) env(2) assms(3)] assms(4) env(1) obtain t where
    t: "phase s i \<in> {Waiting t, Passed t, Looping t}" "opened ?env i t" by auto
  then obtain dests where "tls_start cfg (epoll_ok i) (ssl i) (sockets i) time_ns (e i) = Inr (dests, Some t)"
    by (auto simp: opened_def tls_surroundings_def tls_main_def bindE_eq_Inr split: if_splits)
  from tls_start_tcp [OF this] t env show ?thesis by (auto simp: opened_def)
qed

text \<open>
  Property C38. One thread that fails stalls the agent. If the processor of one thread does not exist, or one of its connections cannot be opened, then in
  every interleaving \<open>conn_open\<close> stays 0, no thread enters its loop, and the threads that have opened their connections can never pass
  the barrier.
\<close>

theorem failed_thread_stalls:
  assumes "process_reaches env cfg s" and "barrier env" and "i < threads env" and "\<not> pin_ok env i \<or> conns_of env i = Inr None"
  shows "acb_conn_open (shared s) = 0 \<and> (\<forall>j < threads env. \<forall>t. phase s j \<noteq> Looping t) \<and>
    (\<forall>j < threads env. \<forall>t. phase s j = Waiting t \<longrightarrow> process_step env (Thread j) s = Inr None)"
proof -
  from process_inv [OF assms(1)] have inv: "start_inv env s" by simp
  with assms(3) have "phase_ok env i (phase s i)" by (simp add: start_inv_def)
  with assms(4) have "\<not> at_barrier (phase s i)" by (cases "phase s i") (auto simp: opened_def)
  with assms(3) have b: "\<not> barrier_open env s" by (auto simp: barrier_open_iff)
  with inv assms(2) have "\<forall>j < threads env. \<not> past_barrier (phase s j)" "acb_conn_open (shared s) = 0"
    by (auto simp: start_inv_def)
  with b show ?thesis by (force simp: process_step_def thread_step_def)
qed

subsection \<open>The start ends\<close>

definition all_good :: "'t surroundings \<Rightarrow> bool" where
  "all_good env \<longleftrightarrow> barrier env \<and> 0 < threads env \<and>
     (\<forall>i < threads env. create_ok env i \<and> pin_ok env i \<and> (\<exists>t. conns_of env i = Inr (Some t)))"

fun work_left :: "'t thread_phase \<Rightarrow> nat" where
  "work_left Unborn = 5"
| "work_left Created = 4"
| "work_left Pinned = 3"
| "work_left (Waiting t) = 2"
| "work_left (Passed t) = 1"
| "work_left (Looping t) = 0"
| "work_left Returned = 0"

definition startup_work :: "'t surroundings \<Rightarrow> 't agent_process \<Rightarrow> nat" where
  "startup_work env s = sum_list (map (\<lambda>i. work_left (phase s i)) [0..<threads env])"

lemma startup_work_update:
  assumes "i < threads env" and "phase s' = (phase s)(i := ph)" and "work_left ph < work_left (phase s i)"
  shows "startup_work env s' < startup_work env s"
proof -
  have "(\<Sum>j < threads env. work_left (phase s' j)) < (\<Sum>j < threads env. work_left (phase s j))"
    by (rule sum_strict_mono_ex1) (use assms in auto)
  then show ?thesis by (simp add: startup_work_def interv_sum_list_conv_sum_set_nat atLeast0LessThan)
qed

definition good_inv :: "'t surroundings \<Rightarrow> 't agent_process \<Rightarrow> bool" where
  "good_inv env s \<longleftrightarrow> exited s = None \<and> (\<forall>i < threads env. \<forall>t. phase s i = Looping t \<longrightarrow> acb_conn_open (shared s) = 1)"

lemma all_good_opened:
  assumes "all_good env" and "start_inv env s" and "i < threads env"
  shows "phase s i \<noteq> Returned"
  using assms by (fastforce simp: all_good_def start_inv_def)

lemma good_inv_main:
  assumes "all_good env" and "start_inv env s" and "born_inv env s" and "good_inv env s" and "main_step env s = Some s'"
  shows "good_inv env s' \<and> startup_work env s' < startup_work env s"
  using assms(5)
proof (cases rule: main_step_cases)
  case create
  have "phase s (to_create s) = Unborn" using assms(3) by (simp add: born_inv_def)
  then have "startup_work env s' < startup_work env s"
    using create by (intro startup_work_update [where i = "to_create s" and ph = Created]) simp_all
  moreover have "good_inv env s'" using assms(4) by (simp add: create(3) good_inv_def)
  ultimately show ?thesis by simp
next
  case fail
  with assms(1) show ?thesis by (simp add: all_good_def)
next
  case self
  have "startup_work env s' < startup_work env s"
    using self assms(1) by (intro startup_work_update [where i = 0 and ph = Created]) (simp_all add: all_good_def)
  moreover have "good_inv env s'" using assms(4) by (simp add: self(3) good_inv_def)
  ultimately show ?thesis by simp
next
  case home
  with all_good_opened [OF assms(1,2), of 0] assms(1) show ?thesis by (simp add: all_good_def)
qed

lemma good_inv_thread:
  assumes "all_good env" and "i < threads env" and "good_inv env s" and "thread_step env i s = Inr (Some s')"
  shows "good_inv env s' \<and> startup_work env s' < startup_work env s"
  using assms(4)
proof (cases rule: thread_step_cases)
  case pin
  have "startup_work env s' < startup_work env s"
    using pin assms(1,2) by (intro startup_work_update [where i = i and ph = Pinned]) (simp_all add: all_good_def)
  with assms(3) show ?thesis by (simp add: pin(2) good_inv_def)
next
  case none
  with assms(1,2) show ?thesis by (force simp: all_good_def)
next
  case (conns t)
  then have "startup_work env s' < startup_work env s"
    using assms(1,2) by (intro startup_work_update [where i = i and ph = "Waiting t"]) (simp_all add: all_good_def)
  with assms(1,3) show ?thesis by (simp add: conns(3) good_inv_def all_good_def)
next
  case (pass t)
  then have "startup_work env s' < startup_work env s"
    using assms(2) by (intro startup_work_update [where i = i and ph = "Passed t"]) simp_all
  with assms(3) show ?thesis by (simp add: pass(3) good_inv_def)
next
  case (enter t)
  then have "startup_work env s' < startup_work env s"
    using assms(2) by (intro startup_work_update [where i = i and ph = "Looping t"]) simp_all
  with assms(3) show ?thesis by (simp add: enter(2) good_inv_def set_conn_open_def)
qed

lemma good_inv_step:
  assumes "all_good env" and "start_inv env s \<and> born_inv env s" and "good_inv env s" and "process_step env a s = Inr (Some s')"
  shows "good_inv env s' \<and> startup_work env s' < startup_work env s"
proof (cases a)
  case Main
  with assms show ?thesis using good_inv_main by (auto simp: process_step_def split: if_splits)
next
  case (Thread i)
  with assms(4) have "i < threads env" "thread_step env i s = Inr (Some s')" by (auto simp: process_step_def split: if_splits)
  then show ?thesis using good_inv_thread assms(1,3) by blast
qed

lemma good_reaches: "process_reaches env cfg s \<Longrightarrow> all_good env \<Longrightarrow> good_inv env s"
proof (induction rule: process_reaches.induct)
  case process_starts
  show ?case by (simp add: process_start_def good_inv_def)
next
  case (process_steps s a s')
  with good_inv_step [OF _ process_inv] show ?case by blast
qed

lemma nobody_moves:
  assumes "all_good env" and "start_inv env s" and "born_inv env s" and "exited s = None"
    and "\<And>a s'. process_step env a s \<noteq> Inr (Some s')" and "i < threads env"
  shows "\<exists>t. phase s i = Looping t"
proof -
  have good: "create_ok env j" "pin_ok env j" "\<exists>t. conns_of env j = Inr (Some t)" if "j < threads env" for j
    using that assms(1) by (auto simp: all_good_def)
  have main: "main_step env s = None"
    using assms(5) [of Main] assms(4) by (cases "main_step env s") (auto simp: process_step_def)
  then have c: "\<not> to_create s < threads env" "phase s 0 \<noteq> Unborn"
    using good(1) by (auto simp: main_step_def Let_def split: if_splits)
  have born: "phase s j \<noteq> Unborn" if "j < threads env" for j
    using that c assms(3) by (cases "j = 0") (auto simp: born_inv_def)
  have stuck: "\<not> (\<exists>s'. thread_step env j s = Inr (Some s'))" if "j < threads env" for j
    using assms(5) [of "Thread j"] assms(4) that by (simp add: process_step_def)
  have ph: "(\<exists>t. phase s j = Waiting t) \<or> (\<exists>t. phase s j = Looping t)" if j: "j < threads env" for j
    using stuck [OF j] born [OF j] all_good_opened [OF assms(1,2) j] good [OF j]
    by (cases "phase s j") (auto simp: thread_step_def)
  then have "barrier_open env s" by (force simp: barrier_open_iff)
  with stuck [OF assms(6)] ph [OF assms(6)] show ?thesis by (auto simp: thread_step_def)
qed


text \<open>A process with one thread that succeeds.\<close>

lemma one_thread_starts:
  assumes "threads env = 1" and "barrier env" and "pin_ok env 0" and "conns_of env 0 = Inr (Some t)"
  shows "\<exists>s. process_reaches env cfg s \<and> acb_conn_open (shared s) = 1 \<and> phase s 0 = Looping t"
proof -
  let ?c = "(process_start cfg)\<lparr>phase := (\<lambda>_. Unborn)(0 := Created)\<rparr>"
  let ?w = "?c\<lparr>phase := (phase ?c)(0 := Waiting t)\<rparr>"
  have c: "process_reaches env cfg ?c"
    by (rule process_steps [OF process_starts, where a = Main]) (simp add: process_step_def main_step_def process_start_def assms(1))
  have p: "process_reaches env cfg (?c\<lparr>phase := (phase ?c)(0 := Pinned)\<rparr>)"
    by (rule process_steps [OF c, where a = "Thread 0"]) (simp add: process_step_def thread_step_def process_start_def assms(1,3))
  have w: "process_reaches env cfg ?w"
    by (rule process_steps [OF p, where a = "Thread 0"]) (simp add: process_step_def thread_step_def process_start_def assms)
  have "process_reaches env cfg (?w\<lparr>phase := (phase ?w)(0 := Passed t)\<rparr>)"
    by (rule process_steps [OF w, where a = "Thread 0"])
      (simp add: process_step_def thread_step_def process_start_def assms(1) barrier_open_iff)
  then have "process_reaches env cfg (?w\<lparr>shared := set_conn_open 1 (shared ?w), phase := (phase ?w)(0 := Looping t)\<rparr>)"
    by (rule process_steps [where a = "Thread 0"]) (simp add: process_step_def thread_step_def process_start_def assms(1))
  then show ?thesis
    by (intro exI [of _ "?w\<lparr>shared := set_conn_open 1 (shared ?w), phase := (phase ?w)(0 := Looping t)\<rparr>"]) (simp add: set_conn_open_def)
qed

lemma echo1_opens:
  "\<exists>t. throughput_start echo1_config True (\<lambda>_. (5, None)) 100 start_env = Inr ([\<lparr>ip = 0, port = 0\<rparr>], Some t)"
  by (simp add: throughput_start_def throughput_open_connections_def echo1_config_def some_config_def
      conn_per_thread_def connection_target_def get_max_pending_reqs_def numeral_eq_Suc)

lemma echo1_transport: "tp_type echo1_config = TCP" "atype echo1_config \<noteq> LATENCY_AGENT" "thread_count echo1_config = 1"
  by (simp_all add: echo1_config_def some_config_def)

theorem conn_open_means_ready_witness:
  "\<exists>s. process_reaches (tcp_surroundings echo1_config (\<lambda>_. True) (\<lambda>_. True) (\<lambda>_. True) (\<lambda>_ _. (5, None)) 100 (\<lambda>_. start_env)) echo1_config s \<and>
    acb_conn_open (shared s) = 1 \<and> (\<exists>t. phase s 0 \<in> {Waiting t, Passed t, Looping t})"
proof -
  let ?env = "tcp_surroundings echo1_config (\<lambda>_. True) (\<lambda>_. True) (\<lambda>_. True) (\<lambda>_ _. (5, None)) 100 (\<lambda>_. start_env)"
  from echo1_opens obtain t where
    t: "throughput_start echo1_config True (\<lambda>_. (5, None)) 100 start_env = Inr ([\<lparr>ip = 0, port = 0\<rparr>], Some t)" by blast
  have "\<exists>s. process_reaches ?env echo1_config s \<and> acb_conn_open (shared s) = 1 \<and> phase s 0 = Looping t"
    by (rule one_thread_starts) (simp_all add: tcp_surroundings_def uses_barrier_def echo1_transport t)
  then obtain s where s: "process_reaches ?env echo1_config s" "acb_conn_open (shared s) = 1" by blast
  from conn_open_means_ready [OF s(1) echo1_transport(1,2), of 0] s show ?thesis by (auto simp: echo1_transport)
qed

text \<open>Two threads on a machine with one processor.\<close>

definition two_threads :: "unit surroundings" where
  "two_threads = \<lparr>threads = 2, create_ok = \<lambda>_. True, pin_ok = (\<lambda>i. i = 0), conns_of = \<lambda>_. Inr (Some ()), barrier = True\<rparr>"

theorem failed_thread_stalls_witness:
  "\<exists>s. process_reaches two_threads echo1_config s \<and> phase s 0 = Waiting () \<and> process_step two_threads (Thread 0) s = Inr None \<and>
    acb_conn_open (shared s) = 0"
proof -
  let ?s0 = "process_start echo1_config :: unit agent_process"
  let ?s1 = "?s0\<lparr>phase := (phase ?s0)(1 := Created), to_create := 2\<rparr>"
  let ?s2 = "?s1\<lparr>phase := (phase ?s1)(0 := Created)\<rparr>"
  let ?s3 = "?s2\<lparr>phase := (phase ?s2)(0 := Pinned)\<rparr>"
  let ?s4 = "?s3\<lparr>phase := (phase ?s3)(0 := Waiting ())\<rparr>"
  note defs = process_step_def main_step_def thread_step_def process_start_def two_threads_def
  have "process_reaches two_threads echo1_config ?s1"
    by (rule process_steps [OF process_starts, where a = Main]) (simp add: defs numeral_2_eq_2)
  then have "process_reaches two_threads echo1_config ?s2"
    by (rule process_steps [where a = Main]) (simp add: defs)
  then have "process_reaches two_threads echo1_config ?s3"
    by (rule process_steps [where a = "Thread 0"]) (simp add: defs)
  then have s4: "process_reaches two_threads echo1_config ?s4"
    by (rule process_steps [where a = "Thread 0"]) (simp add: defs)
  have "barrier two_threads" "1 < threads two_threads" "\<not> pin_ok two_threads 1 \<or> conns_of two_threads 1 = Inr None"
    by (simp_all add: two_threads_def)
  from failed_thread_stalls [OF s4 this] have "acb_conn_open (shared ?s4) = 0" "process_step two_threads (Thread 0) ?s4 = Inr None"
    by (simp_all add: two_threads_def)
  with s4 show ?thesis by (intro exI [of _ ?s4]) simp
qed

definition one_thread :: "unit surroundings" where
  "one_thread = \<lparr>threads = 1, create_ok = \<lambda>_. True, pin_ok = \<lambda>_. True, conns_of = \<lambda>_. Inr (Some ()), barrier = True\<rparr>"

end
