(* ===== verification/Tcp_Types.thy ===== *)
theory Tcp_Types
  imports Tcp_Safety
begin

section \<open>The memory of a TCP thread keeps its shape\<close>

text \<open>
  What a thread allocates when it opens its connections: the array of connections with their buffers, and a ring of time
  stamps for each. No step of a loop changes the sizes, the descriptors or the indices, whatever the server, the kernel
  and the application protocol do.
\<close>

definition conn_shape :: "tcp_connection \<Rightarrow> u32 \<times> u16 \<times> nat" where
  "conn_shape c = (fd c, idx c, length (buffer c))"

definition ring_slots :: "pending_tx_timestamps \<Rightarrow> nat" where
  "ring_slots p = length (pending p)"

definition tcp_shape :: "tcp_thread \<Rightarrow> (u32 \<times> u16 \<times> nat) list \<times> nat list" where
  "tcp_shape t = (map conn_shape (connections t), map ring_slots (per_conn_tx_timestamps t))"

subsection \<open>The rings\<close>

lemma write_pending_slots [simp]: "ring_slots (write_pending p k i) = ring_slots p"
  by (simp add: ring_slots_def write_pending_def)

lemma ring_slots_fields [simp]:
  "ring_slots (p\<lparr>head := h\<rparr>) = ring_slots p" "ring_slots (p\<lparr>tail := h\<rparr>) = ring_slots p"
  "ring_slots (p\<lparr>consumed := h\<rparr>) = ring_slots p" "ring_slots (p\<lparr>tx_byte_counter := h\<rparr>) = ring_slots p"
  by (simp_all add: ring_slots_def)

lemma add_pending_slots: "add_pending_tx_timestamp m p n = Inr p' \<Longrightarrow> ring_slots p' = ring_slots p"
  by (auto simp: add_pending_tx_timestamp_def Let_def bindE_eq_Inr)

lemma pop_pending_slots: "pop_pending_tx_timestamps m p = Inr (i, p') \<Longrightarrow> ring_slots p' = ring_slots p"
  by (auto simp: pop_pending_tx_timestamps_def bindE_eq_Inr split: if_splits)

lemma push_complete_slots: "push_complete_tx_timestamp m p ts e st = Inr (p', r) \<Longrightarrow> ring_slots p' = ring_slots p"
  by (auto simp: push_complete_tx_timestamp_def Let_def bindE_eq_Inr split: prod.splits)

lemma complete_loop_slots:
  assumes "complete_loop m rt ro k p st e = Some r"
  shows "\<forall>p' st' e'. r = Inr (p', st', e') \<longrightarrow> ring_slots p' = ring_slots p"
proof (rule complete_loop.raw_induct
    [where P = "\<lambda>m rt ro k p st e r. \<forall>p' st' e'. r = Inr (p', st', e') \<longrightarrow> ring_slots p' = ring_slots p", OF _ assms], goal_cases)
  case (1 loop m rt ro k p st e r)
  show ?case
  proof (cases "read_pending p k")
    case (Inl err)
    with 1(2) show ?thesis by auto
  next
    case (Inr i)
    show ?thesis
    proof (cases "optid i \<le> ro + 1 \<and> optid i \<noteq> ro + 1")
      case False
      with 1(2) Inr show ?thesis by (auto simp: Let_def split: if_splits)
    next
      case True
      show ?thesis
      proof (cases "pend_slot m (tail p + 1)")
        case (Inl err)
        with True \<open>read_pending p k = Inr i\<close> 1(2) show ?thesis by (auto simp: Let_def)
      next
        case (Inr k')
        with True \<open>read_pending p k = Inr i\<close> 1(2)
        have "loop m rt ro k' ((write_pending p k (i\<lparr>time := rt\<rparr>))\<lparr>tail := tail p + 1\<rparr>)
            (fst (add_tx_timestamp rt e st)) (snd (add_tx_timestamp rt e st)) = Some r"
          by (simp add: Let_def)
        from 1(1) [OF this] show ?thesis by simp
      qed
    qed
  qed
qed

lemma get_tx_timestamp_slots:
  "get_tx_timestamp m q p st e = Inr (n, q', p', st', e') \<Longrightarrow> ring_slots p' = ring_slots p"
proof (induction q)
  case Nil
  then show ?case by (simp add: get_tx_timestamp.simps bindE_eq_Inr split: if_splits)
next
  case (Cons x q)
  show ?case
  proof (cases "head p = tail p \<or> x = Recvmsg_error \<or> x = Recvmsg_block")
    case True
    with Cons.prems show ?thesis by (auto simp: get_tx_timestamp.simps [of m "x # q"] bindE_eq_Inr split: if_splits)
  next
    case False
    then obtain data hdr where x: "x = Recvmsg data hdr" by (cases x) auto
    have ne: "head p \<noteq> tail p" using False by simp
    note run = Cons.prems [unfolded x, unfolded get_tx_timestamp.simps [of m "Recvmsg data hdr # q"]]
    obtain v t i where ext: "extract_timestamp hdr (- 1) (None, None) = Inr (v, t, i)" and v: "v = 1"
      and b: "tail p \<le> head p" "data = []"
      using run ne by (auto simp: bindE_eq_Inr simp del: get_tx_timestamp.simps)
    obtain k where k: "pend_slot m (tail p) = Inr k" using run ne ext v b by (auto simp: bindE_eq_Inr assertE_def)
    obtain info where info: "read_pending p k = Inr info" using run ne ext v b k by (auto simp: bindE_eq_Inr assertE_def)
    have r: "(case (t, i) of
           (Some recv_time, Some recv_optid) \<Rightarrow>
             if recv_optid + 1 < optid info then get_tx_timestamp m q p st e
             else bindE (assertE (optid info \<le> recv_optid + 1)) (\<lambda>_.
               case complete_loop m recv_time recv_optid k p st e of
                 None \<Rightarrow> Inl Diverges
               | Some r \<Rightarrow> bindE r (\<lambda>(p, st, e). Inr (1, q, p, st, e)))
         | _ \<Rightarrow> Inl Uninit) = (Inr (n, q', p', st', e') :: _ result)"
      using run ne ext v b k info by (simp add: assertE_def)
    show ?thesis
    proof (cases t; cases i)
      fix rt ro assume ti: "t = Some rt" "i = Some ro"
      show ?thesis
      proof (cases "ro + 1 < optid info")
        case True
        with r ti Cons.IH show ?thesis by simp
      next
        case False
        with r ti show ?thesis by (auto simp: bindE_eq_Inr split: option.splits dest: complete_loop_slots)
      qed
    qed (use r in auto)
  qed
qed

lemma wait_tx_slots: "wait_tx m q k s = Inr (q', p', st', e') \<Longrightarrow> ring_slots p' = ring_slots (fst s)"
proof (induction k arbitrary: q s)
  case 0
  then show ?case by (cases s) simp
next
  case (Suc k)
  obtain p st e where s: "s = (p, st, e)" by (cases s)
  with Suc.prems obtain n q1 p1 st1 e1 where g: "get_tx_timestamp m q p st e = Inr (n, q1, p1, st1, e1)"
    and r: "(if n = 1 then Inr (q1, p1, st1, e1) else if q1 = [] then Inl Diverges else wait_tx m q1 k (p1, st1, e1)) =
      (Inr (q', p', st', e') :: _ result)"
    by (auto simp: bindE_eq_Inr)
  from r Suc.IH [of q1 "(p1, st1, e1)"] get_tx_timestamp_slots [OF g] s show ?case by (auto split: if_splits)
qed

lemma match_responses_slots:
  "match_responses m n q info s = Inr (info', q', p', st', e') \<Longrightarrow> ring_slots p' = ring_slots (fst s)"
proof (induction n arbitrary: q info s)
  case 0
  then show ?case by simp
next
  case (Suc n)
  obtain p st e where s: "s = (p, st, e)" by (cases s)
  with Suc.prems obtain i p1 where g: "pop_pending_tx_timestamps m p = Inr (i, p1)" by (auto simp: bindE_eq_Inr)
  show ?case
  proof (cases i)
    case (Some y)
    with Suc.prems s g Suc.IH [of q i "(p1, st, e)"] pop_pending_slots [OF g] show ?thesis by simp
  next
    case None
    with Suc.prems s g obtain q2 p2 st2 e2 j p3 where w: "wait_tx m q (Suc (length q)) (p1, st, e) = Inr (q2, p2, st2, e2)"
      and o: "pop_pending_tx_timestamps m p2 = Inr (j, p3)"
      and r: "match_responses m n q2 j (p3, st2, e2) = Inr (info', q', p', st', e')"
      by (auto simp: bindE_eq_Inr simp del: wait_tx.simps)
    from Suc.IH [OF r] pop_pending_slots [OF o] wait_tx_slots [OF w] pop_pending_slots [OF g] s show ?thesis by simp
  qed
qed

subsection \<open>The connections\<close>

lemma handle_response_shape: "handle_response cfg c = Inr (c', brp) \<Longrightarrow> conn_shape c' = conn_shape c"
  by (auto simp: handle_response_def conn_shape_def Let_def bindE_eq_Inr split: if_splits)

lemma tcp_receive_shape:
  assumes "tcp_receive cfg c r = Inr out"
  shows "case out of Rx_return \<Rightarrow> True | Rx_closed c' \<Rightarrow> conn_shape c' = conn_shape c | Rx_data c' brp \<Rightarrow> conn_shape c' = conn_shape c"
  using assms
  by (auto simp: tcp_receive_def Let_def bindE_eq_Inr split: recv_ret.splits if_splits dest!: handle_response_shape)
    (auto simp: conn_shape_def)

subsection \<open>The steps\<close>

lemma tcp_shape_fields [simp]:
  "tcp_shape (t\<lparr>stats := st\<rparr>) = tcp_shape t" "tcp_shape (t\<lparr>renv := e\<rparr>) = tcp_shape t"
  "tcp_shape (t\<lparr>to_send := r\<rparr>) = tcp_shape t" "tcp_shape (t\<lparr>next_tx := n\<rparr>) = tcp_shape t"
  "tcp_shape (t\<lparr>conn_idx := k\<rparr>) = tcp_shape t" "tcp_shape (t\<lparr>rx_timestamp := rx\<rparr>) = tcp_shape t"
  by (simp_all add: tcp_shape_def)

lemma map_update_same: "f y = f (xs ! k) \<Longrightarrow> map f (xs[k := y]) = map f xs"
  by (cases "k < length xs") (simp_all add: map_update list_update_same_conv list_update_beyond)

lemma tcp_shape_update_conn:
  "conn_shape (f (connections t ! i)) = conn_shape (connections t ! i) \<Longrightarrow> tcp_shape (update_conn i f t) = tcp_shape t"
  by (simp add: tcp_shape_def update_conn_def map_update_same)

lemma tcp_shape_update_ring:
  "per_conn_tx_timestamps t = ps \<Longrightarrow> ring_slots p = ring_slots (ps ! k) \<Longrightarrow>
   tcp_shape (t\<lparr>per_conn_tx_timestamps := ps[k := p]\<rparr>) = tcp_shape t"
  by (auto simp: tcp_shape_def map_update_same)

lemma tcp_shape_count [simp]:
  "tcp_shape (update_conn i count_request t) = tcp_shape t" "tcp_shape (update_conn i (count_responses brp) t) = tcp_shape t"
  by (simp_all add: tcp_shape_update_conn conn_shape_def count_request_def count_responses_def)

lemma book_received_shape [simp]: "tcp_shape (book_received os brp t) = tcp_shape t"
  by (simp add: book_received_def)

lemma book_sent_shape: "book_sent os n t = Inr t' \<Longrightarrow> tcp_shape t' = tcp_shape t"
  by (auto simp: book_sent_def Let_def bindE_eq_Inr)

lemma sample_tx_shape [simp]: "tcp_shape (sample_tx ts t) = tcp_shape t"
  by (simp add: sample_tx_def split: prod.split)

lemma take_conn_shape: "take_conn cfg t = Inr (c, t') \<Longrightarrow> tcp_shape t' = tcp_shape t"
  by (auto simp: take_conn_def bindE_eq_Inr)

lemma take_request_shape: "take_request cfg t = Inr (r, t') \<Longrightarrow> tcp_shape t' = tcp_shape t"
  by (auto simp: take_request_def bindE_eq_Inr)

lemma loop_head_shape: "loop_head os t = Inr (obs, pt, t') \<Longrightarrow> tcp_shape t' = tcp_shape t"
  by (auto simp: loop_head_def split: if_splits)

lemma receive_on_shape:
  assumes "receive_on cfg i r t = Inr out"
  shows "case out of Inl (obs, go_on, t') \<Rightarrow> tcp_shape t' = tcp_shape t | Inr (brp, t') \<Rightarrow> tcp_shape t' = tcp_shape t"
proof -
  from assms obtain x where x: "tcp_receive cfg (connections t ! i) r = Inr x"
    and out: "(case x of Rx_return \<Rightarrow> Inr (Inl ([], False, t))
        | Rx_closed c \<Rightarrow> Inr (Inl ([Connection_closed i], True, update_conn i (\<lambda>_. c) t))
        | Rx_data c brp \<Rightarrow> Inr (Inr (brp, update_conn i (\<lambda>_. c) t))) = (Inr out :: _ result)"
    by (auto simp: receive_on_def bindE_eq_Inr split: if_splits)
  from tcp_receive_shape [OF x] out show ?thesis by (cases x) (auto simp: tcp_shape_update_conn)
qed

lemma measure_responses_shape: "measure_responses cfg os i brp rx t = Inr t' \<Longrightarrow> tcp_shape t' = tcp_shape t"
  by (auto simp: measure_responses_def Let_def result_iffs tcp_shape_update_ring dest!: match_responses_slots)

lemmas shape_kept = take_request_shape book_sent_shape push_complete_slots add_pending_slots get_tx_timestamp_slots
  measure_responses_shape

lemma throughput_issue_shape:
  assumes "throughput_issue cfg os i t = Inr (obs, pt, t')"
  shows "tcp_shape t' = tcp_shape t"
proof -
  from assms obtain r t1 s wire where t1: "take_request cfg t = Inr (r, t1)"
    and s: "throughput_send (writes os) 0 (iov_cnt r) (s32 (int (bytes_to_send r))) (iovs r) [] = Inr (s, wire)"
    by (auto simp: throughput_issue_def bindE_eq_Inr)
  with assms take_request_shape [OF t1] show ?thesis
    by (cases s) (auto simp: throughput_issue_def bindE_eq_Inr dest!: book_sent_shape)
qed

lemma symmetric_issue_shape: "symmetric_issue cfg os i t = Inr (obs, pt, t') \<Longrightarrow> tcp_shape t' = tcp_shape t"
  by (auto simp: symmetric_issue_def Let_def bindE_eq_Inr tcp_shape_update_ring split: if_splits dest!: shape_kept)

lemma nic_issue_shape:
  assumes "nic_issue cfg os i t = Inr (obs, pt, t')"
  shows "tcp_shape t' = tcp_shape t"
proof -
  obtain r t1 where t1: "take_request cfg t = Inr (r, t1)" using assms by (auto simp: nic_issue_def bindE_eq_Inr)
  show ?thesis
  proof (cases "writes os")
    case (Cons w ws)
    with assms t1 take_request_shape [OF t1] show ?thesis
      by (cases w) (auto simp: nic_issue_def Let_def bindE_eq_Inr tcp_shape_update_ring split: if_splits dest!: book_sent_shape add_pending_slots)
  qed (use assms t1 in \<open>simp add: nic_issue_def Let_def\<close>)
qed

lemma latency_issue_shape:
  assumes "latency_issue cfg os i t = Inr (obs, pt, t')"
  shows "tcp_shape t' = tcp_shape t"
proof -
  obtain r t1 where t1: "take_request cfg t = Inr (r, t1)" using assms by (auto simp: latency_issue_def bindE_eq_Inr)
  show ?thesis
  proof (cases "writes os")
    case (Cons w ws)
    with assms t1 take_request_shape [OF t1] show ?thesis
      by (cases w) (auto simp: latency_issue_def Let_def bindE_eq_Inr)
  qed (use assms t1 in \<open>simp add: latency_issue_def Let_def\<close>)
qed

text \<open>The events: whatever is received, the rest of the step keeps the shape.\<close>

lemma receive_on_then:
  assumes "bindE (receive_on cfg i r t) f = Inr (obs, pt, t')"
    and "\<And>o' go_on t1. f (Inl (o', go_on, t1)) = Inr (obs, pt, t') \<Longrightarrow> tcp_shape t' = tcp_shape t1"
    and "\<And>brp t1. f (Inr (brp, t1)) = Inr (obs, pt, t') \<Longrightarrow> tcp_shape t' = tcp_shape t1"
  shows "tcp_shape t' = tcp_shape t"
proof -
  from assms(1) obtain out where out: "receive_on cfg i r t = Inr out" "f out = Inr (obs, pt, t')" by (auto simp: bindE_eq_Inr)
  from receive_on_shape [OF out(1)] out(2) assms(2,3) show ?thesis by (cases out) (auto split: prod.splits)
qed

lemma throughput_event_shape: "throughput_event cfg os ev evs t = Inr (obs, pt, t') \<Longrightarrow> tcp_shape t' = tcp_shape t"
  unfolding throughput_event_def by (auto split: if_splits elim!: receive_on_then)

lemma symmetric_event_shape: "symmetric_event cfg os ev evs t = Inr (obs, pt, t') \<Longrightarrow> tcp_shape t' = tcp_shape t"
  unfolding symmetric_event_def
  by (auto simp: bindE_eq_Inr [of "measure_responses _ _ _ _ _ _"] split: if_splits elim!: receive_on_then dest: measure_responses_shape)

lemma nic_event_shape:
  assumes "nic_event cfg os ev evs t = Inr (obs, pt, t')"
  shows "tcp_shape t' = tcp_shape t"
proof (cases "ev_in ev")
  case True
  with assms obtain n rx where rx: "timestamp_recv (nic_recvmsg os (connections t ! ev_conn ev)) (rx_timestamp t) = Inr (n, rx)"
    by (auto simp: nic_event_def Let_def bindE_eq_Inr split: if_splits)
  let ?t = "t\<lparr>rx_timestamp := rx\<rparr>"
  have "bindE (receive_on cfg (ev_conn ev) (received os) ?t) (\<lambda>out.
          case out of
            Inl (obs, go_on, t) \<Rightarrow> Inr (obs, if go_on then At_events evs else Returned, t)
          | Inr (brp, t) \<Rightarrow>
              if brp_reqs brp = 0 then Inr ([], At_events evs, t)
              else case rx of
                None \<Rightarrow> Inl Uninit
              | Some info \<Rightarrow>
                  bindE (measure_responses cfg os (ev_conn ev) brp (time info) t) (\<lambda>t.
                    Inr ([Responses (ev_conn ev) brp], if next_tx t < later os then At_head else At_events evs, t))) =
      (Inr (obs, pt, t') :: tcp_result)"
    using assms True rx by (simp add: nic_event_def Let_def split: if_splits)
  then have "tcp_shape t' = tcp_shape ?t"
    by (rule receive_on_then) (auto simp: result_iffs split: if_splits dest: measure_responses_shape)
  then show ?thesis by simp
next
  case False
  with assms show ?thesis
    by (auto simp: nic_event_def Let_def bindE_eq_Inr tcp_shape_update_ring split: if_splits dest!: get_tx_timestamp_slots)
qed

lemma latency_receive_shape:
  assumes "latency_receive cfg os i start t = Inr (obs, pt, t')"
  shows "tcp_shape t' = tcp_shape t"
proof (cases "received os \<in> {Recv_error, Recv_block}")
  case False
  with assms have "bindE (receive_on cfg i (received os) t) (\<lambda>out.
        case out of
          Inl (obs, _, t) \<Rightarrow> Inr (obs, if buffer_idx (connections t ! i) \<noteq> 0 then At_recv i start else At_head, t)
        | Inr (brp, t) \<Rightarrow>
            if 0 < brp_reqs brp then
              bindE (assertE (proto_type (app_proto cfg) \<noteq> PROTO_MEMCACHED_BIN \<or> brp_reqs brp = 1)) (\<lambda>_.
              let t = book_received os brp t in
              bindE (add_latency_sample (acb os) (later os - start) None (stats t)) (\<lambda>st.
              bindE (get_ia (acb os) (renv t)) (\<lambda>(ia, e).
              let t = t\<lparr>stats := st, renv := e, next_tx := next_tx t + ia\<rparr> in
              Inr ([Responses i brp], if buffer_idx (connections t ! i) \<noteq> 0 then At_recv i start else At_head, t))))
            else Inr ([], if buffer_idx (connections t ! i) \<noteq> 0 then At_recv i start else At_head, t)) =
      (Inr (obs, pt, t') :: tcp_result)"
    by (auto simp: latency_receive_def Let_def assertE_def split: if_splits)
  then show ?thesis by (rule receive_on_then) (auto simp: bindE_eq_Inr Let_def split: if_splits)
qed (use assms in \<open>auto simp: latency_receive_def Let_def bindE_eq_Inr split: if_splits\<close>)

lemma sending_shape:
  assumes "(if b then bindE (take_conn cfg t) (\<lambda>(c, t). case c of None \<Rightarrow> Inr ([], pt0, t) | Some i \<Rightarrow> issue i t)
      else Inr ([], pt0, t)) = (Inr (obs, pt, t') :: tcp_result)"
    and "\<And>i t1. issue i t1 = Inr (obs, pt, t') \<Longrightarrow> tcp_shape t' = tcp_shape t1"
  shows "tcp_shape t' = tcp_shape t"
proof (cases b)
  case True
  with assms(1) obtain c t1 where c: "take_conn cfg t = Inr (c, t1)" by (auto simp: bindE_eq_Inr)
  with True assms take_conn_shape [OF c] show ?thesis by (cases c) auto
qed (use assms(1) in simp)

lemma tcp_step_shape:
  assumes "tcp_step cfg os (pt, t) = Inr (obs, pt', t')"
  shows "tcp_shape t' = tcp_shape t"
proof (cases "atype cfg")
  case THROUGHPUT_AGENT
  then have "throughput_step cfg os (pt, t) = Inr (obs, pt', t')" using assms by (simp add: tcp_step_def)
  then show ?thesis
    by (cases "(cfg, os, pt, t)" rule: throughput_step.cases)
      (auto dest: loop_head_shape throughput_event_shape elim!: sending_shape intro: throughput_issue_shape simp del: split_paired_All)
next
  case LATENCY_AGENT
  then have "latency_step cfg os (pt, t) = Inr (obs, pt', t')" using assms by (simp add: tcp_step_def)
  then show ?thesis
  proof (cases "(cfg, os, pt, t)" rule: latency_step.cases)
    case 1
    with \<open>latency_step cfg os (pt, t) = _\<close> have "tcp_shape t' = tcp_shape (t\<lparr>next_tx := now os\<rparr>) \<or>
        (if \<not> now os < next_tx t then bindE (take_conn cfg t) (\<lambda>(c, t). case c of None \<Rightarrow> Inr ([], At_head, t) | Some i \<Rightarrow> latency_issue cfg os i t)
         else Inr ([], At_head, t)) = (Inr (obs, pt', t') :: tcp_result)"
      by (auto split: if_splits)
    then show ?thesis using sending_shape [OF _ latency_issue_shape] by fastforce
  qed (auto dest: latency_receive_shape)
next
  case SYMMETRIC_NIC_TIMESTAMP_AGENT
  then have "nic_step cfg os (pt, t) = Inr (obs, pt', t')" using assms by (simp add: tcp_step_def)
  then show ?thesis
    by (cases "(cfg, os, pt, t)" rule: nic_step.cases)
      (auto dest: loop_head_shape nic_event_shape elim!: sending_shape intro: nic_issue_shape)
next
  case SYMMETRIC_AGENT
  then have "symmetric_step cfg os (pt, t) = Inr (obs, pt', t')" using assms by (simp add: tcp_step_def)
  then show ?thesis
    by (cases "(cfg, os, pt, t)" rule: symmetric_step.cases)
      (auto dest: loop_head_shape symmetric_event_shape elim!: sending_shape intro: symmetric_issue_shape)
qed

subsection \<open>From the start on\<close>

lemma run_shape: "loop_run (tcp_step cfg) env (pt0, t0) tr (pt, t) \<Longrightarrow> tcp_shape t = tcp_shape t0"
proof -
  assume r: "loop_run (tcp_step cfg) env (pt0, t0) tr (pt, t)"
  have "tcp_shape (snd (pt, t)) = tcp_shape t0"
    by (rule loop_run_invariant [OF r, where I = "\<lambda>_ s. tcp_shape (snd s) = tcp_shape t0"])
      (auto dest: tcp_step_shape)
  then show ?thesis by simp
qed

lemma start_shape:
  assumes "throughput_start cfg ok sockets s0 e = Inr (dests, Some t0)"
  shows "\<exists>n. conn_per_thread cfg = Inr (int n) \<and>
    map conn_shape (connections t0) = map (\<lambda>i. (fst (sockets i), of_nat i, MAX_PAYLOAD)) [0..<n] \<and>
    map ring_slots (per_conn_tx_timestamps t0) =
      replicate (if atype cfg \<in> {SYMMETRIC_NIC_TIMESTAMP_AGENT, SYMMETRIC_AGENT} then n else 0) (nat (get_max_pending_reqs cfg))"
proof -
  let ?stamped = "atype cfg \<in> {SYMMETRIC_NIC_TIMESTAMP_AGENT, SYMMETRIC_AGENT}"
  from assms obtain conns rings where o: "throughput_open_connections cfg ok sockets = Inr (dests, Some (conns, rings))"
    and t0: "t0 = start_thread conns rings s0 e"
    by (auto simp: throughput_start_def bindE_eq_Inr)
  from o have "ok" by (simp add: throughput_open_connections_def split: if_splits)
  with o obtain k where k: "conn_per_thread cfg = Inr k" "0 \<le> k"
    and c: "open_sockets cfg (throughput_calls cfg) open_connection sockets 0 (nat k) = Inr (dests, Some conns)"
    and r: "rings = (if ?stamped then replicate (nat k) (init_pending (get_max_pending_reqs cfg)) else [])"
    unfolding throughput_open_connections_def Let_def
    by (simp only: bindE_eq_Inr assertE_eq if_False not_True_eq_False split_paired_Ex prod.case) auto
  from open_sockets_made [OF c] have "map conn_shape conns = map (\<lambda>i. (fst (sockets i), of_nat i, MAX_PAYLOAD)) [0..<nat k]"
    by (intro nth_equalityI) (simp_all add: conn_shape_def open_connection_def)
  with k r t0 show ?thesis
    by (intro exI [of _ "nat k"]) (simp add: start_thread_def ring_slots_def init_pending_def)
qed


lemma echo1_opened:
  "throughput_start echo1_config True (\<lambda>_. (5, None)) 100 start_env = Inr ([\<lparr>ip = 0, port = 0\<rparr>], Some echo1_start)"
  by (simp add: throughput_start_def throughput_open_connections_def echo1_start_def echo1_config_def some_config_def
      conn_per_thread_def connection_target_def get_max_pending_reqs_def numeral_eq_Suc)


end
