(* ===== verification/Tcp_Latency.thy ===== *)
theory Tcp_Latency
  imports Tcp_Types
begin

section \<open>The symmetric agent measures the latency of its requests\<close>

text \<open>
  A run that is remembered with the answers each step got: which request was sent when, and which response was read
  when. The proofs show that the entries of the latency ring are the differences between the two, for every run that does not
  fail, whatever the server does.
\<close>

subsection \<open>Histories\<close>

text \<open>The steps of a run with their answers and observations, the latest first.\<close>

type_synonym history = "(os_answers \<times> observation list) list"

inductive timed_run :: "(os_answers \<Rightarrow> tcp_state \<Rightarrow> tcp_result) \<Rightarrow> tcp_state \<Rightarrow> history \<Rightarrow> tcp_state \<Rightarrow> bool"
  for step :: "os_answers \<Rightarrow> tcp_state \<Rightarrow> tcp_result" and s :: tcp_state where
  timed_start: "timed_run step s [] s"
| timed_step: "timed_run step s h s1 \<Longrightarrow> step os s1 = Inr (obs, s2) \<Longrightarrow> timed_run step s ((os, obs) # h) s2"

text \<open>The clock at the sending of the requests on connection \<open>i\<close>, in their order; the number of responses read from it.\<close>

fun stamps_on :: "nat \<Rightarrow> history \<Rightarrow> timespec list" where
  "stamps_on i [] = []"
| "stamps_on i ((os, obs) # h) =
     stamps_on i h @ (case obs of [Request_sent j w s] \<Rightarrow> if j = i then [clock os] else [] | _ \<Rightarrow> [])"

fun replies_on :: "nat \<Rightarrow> history \<Rightarrow> nat" where
  "replies_on i [] = 0"
| "replies_on i ((os, obs) # h) = replies_on i h + answered_on i obs"

text \<open>
  What should be measured: a read that completes responses is measured once, for the last of them; its latency is the time
  since the request was sent that it answers, the responses of a connection being in the order of its requests.
\<close>

fun latencies :: "history \<Rightarrow> (int \<times> timespec) list" where
  "latencies [] = []"
| "latencies ((os, obs) # h) =
     latencies h @
     (case obs of
        [Responses i brp] \<Rightarrow>
          let s = stamps_on i h ! (replies_on i h + unat (brp_reqs brp) - 1) in [(ts_ns (clock os) - ts_ns s, s)]
      | _ \<Rightarrow> [])"

lemma latency_ns_diff: "timespec_diff (Some c) (Some s) = Some d \<Longrightarrow> latency_ns d = ts_ns c - ts_ns s"
  by (auto simp: latency_ns_eq timespec_diff_def ts_ns_def split: if_splits)

lemma length_latencies: "length (latencies h) \<le> length h"
  by (induction h rule: latencies.induct) (auto split: list.splits observation.splits simp: Let_def)

subsection \<open>What a step leaves alone\<close>

text \<open>The part of the statistics that holds latencies; the part of a connection that counts requests.\<close>

definition lat_part :: "thread_stats \<Rightarrow> u32 \<times> (nat \<Rightarrow> lat_sample) \<times> u32" where
  "lat_part st = (inc_idx st, samples st, tx_sample_selector st)"

definition links :: "tcp_thread \<Rightarrow> (u16 \<times> u16) list" where
  "links t = map (\<lambda>c. (idx c, pending_reqs c)) (connections t)"

definition same_links :: "tcp_thread \<Rightarrow> tcp_thread \<Rightarrow> bool" where
  "same_links t t' \<longleftrightarrow> links t' = links t \<and> per_conn_tx_timestamps t' = per_conn_tx_timestamps t \<and>
     lat_part (stats t') = lat_part (stats t)"

lemma same_links_refl [simp]: "same_links t t"
  by (simp add: same_links_def)

lemma same_links_trans: "same_links t t1 \<Longrightarrow> same_links t1 t2 \<Longrightarrow> same_links t t2"
  by (simp add: same_links_def)

lemma length_links [simp]: "length (links t) = length (connections t)"
  by (simp add: links_def)

lemma lat_part_tx [simp]: "lat_part (add_throughput_tx_sample a p st) = lat_part st"
  by (simp add: lat_part_def add_throughput_tx_sample_def)

lemma lat_part_rx [simp]: "lat_part (add_throughput_rx_sample a p st) = lat_part st"
  by (simp add: lat_part_def add_throughput_rx_sample_def)

lemma lat_part_stamp: "add_tx_timestamp ts e st = (st', e') \<Longrightarrow> lat_part st' = lat_part st"
  by (auto simp: lat_part_def add_tx_timestamp_def Let_def split: prod.splits if_splits option.splits)

lemma take_conn_links:
  "take_conn cfg t = Inr (c, t') \<Longrightarrow> same_links t t' \<and> (\<forall>i. c = Some i \<longrightarrow> i < length (connections t') \<and> conn_usable cfg (connections t' ! i))"
  using pick_conn_usable by (fastforce simp: take_conn_def bindE_eq_Inr same_links_def links_def)

lemma take_request_links: "take_request cfg t = Inr (r, t') \<Longrightarrow> same_links t t' \<and> connections t' = connections t"
  by (auto simp: take_request_def bindE_eq_Inr same_links_def links_def)

lemma loop_head_links: "loop_head os t = Inr (obs, pt, t') \<Longrightarrow> same_links t t' \<and> obs = []"
  by (auto simp: loop_head_def same_links_def links_def split: if_splits)

lemma links_update_conn:
  "idx (f (connections t ! i)) = idx (connections t ! i) \<Longrightarrow> pending_reqs (f (connections t ! i)) = pending_reqs (connections t ! i) \<Longrightarrow>
   same_links t (update_conn i f t)"
  by (simp add: same_links_def links_def update_conn_def map_update_same)

lemma receive_on_links:
  assumes "receive_on cfg i r t = Inr out"
  shows "i < length (connections t) \<and>
    (case out of Inl (obs, go_on, t') \<Rightarrow> same_links t t' \<and> (obs = [] \<or> obs = [Connection_closed i]) | Inr (brp, t') \<Rightarrow> same_links t t')"
proof -
  from assms obtain x where i: "i < length (connections t)" and x: "tcp_receive cfg (connections t ! i) r = Inr x"
    and out: "(case x of Rx_return \<Rightarrow> Inr (Inl ([], False, t))
        | Rx_closed c \<Rightarrow> Inr (Inl ([Connection_closed i], True, update_conn i (\<lambda>_. c) t))
        | Rx_data c brp \<Rightarrow> Inr (Inr (brp, update_conn i (\<lambda>_. c) t))) = (Inr out :: _ result)"
    by (auto simp: receive_on_def bindE_eq_Inr split: if_splits)
  from tcp_receive_pending [OF x] out i show ?thesis by (cases x) (auto intro: links_update_conn)
qed

subsection \<open>Time stamps are never missing\<close>

lemma wait_tx_nothing:
  assumes "head p = tail p"
  shows "wait_tx m q k (p, st, e) = Inl Diverges"
proof -
  have "get_tx_timestamp m q p st e = Inr (0, q, p, st, e)" using assms by (simp add: get_tx_timestamp.simps)
  then show ?thesis by (induction k) simp_all
qed

lemma match_responses_fails:
  "tx_inv n p \<Longrightarrow> waiting_q p = [] \<Longrightarrow> length (completed_q p) < r \<Longrightarrow>
   \<exists>err. match_responses (int n) r q info (p, st, e) = Inl err"
proof (induction r arbitrary: p info)
  case (Suc r)
  show ?case
  proof (cases "completed_q p")
    case Nil
    have "head p = tail p"
      using Suc.prems(2) length_queues(2) [of p] tx_invD(4) [OF Suc.prems(1)] by (simp add: word_unat_eq_iff)
    with pop_pending_refines [OF Suc.prems(1)] Nil wait_tx_nothing [of p "int n" q "Suc (length q)" st e]
    show ?thesis by (simp del: wait_tx.simps)
  next
    case (Cons t ts)
    with pop_pending_refines [OF Suc.prems(1)] obtain i p1 where
      p1: "pop_pending_tx_timestamps (int n) p = Inr (Some i, p1)" "tx_inv n p1" "completed_q p1 = ts" "waiting_q p1 = waiting_q p"
      by auto
    with Suc.IH [of p1 "Some i"] Suc.prems Cons show ?thesis by simp
  qed
qed simp

subsection \<open>The invariant\<close>

text \<open>
  The ring of a connection holds the stamps of its unanswered requests, in the order of the requests; \<open>pending_reqs\<close>
  counts them; and the latency ring holds what should have been measured.
\<close>

definition fifo_conn :: "nat \<Rightarrow> history \<Rightarrow> nat \<Rightarrow> u16 \<times> u16 \<Rightarrow> pending_tx_timestamps \<Rightarrow> bool" where
  "fifo_conn n h i l p \<longleftrightarrow> unat (fst l) = i \<and> tx_inv n p \<and> waiting_q p = [] \<and> length (completed_q p) = unat (snd l) \<and>
     completed_q p = drop (replies_on i h) (stamps_on i h) \<and> replies_on i h \<le> length (stamps_on i h) \<and>
     unat (head p) = length (stamps_on i h)"

lemma fifo_connD:
  assumes "fifo_conn n h i (a, b) p"
  shows "unat a = i" and "tx_inv n p" and "waiting_q p = []" and "length (completed_q p) = unat b"
    and "completed_q p = drop (replies_on i h) (stamps_on i h)" and "replies_on i h \<le> length (stamps_on i h)"
    and "unat (head p) = length (stamps_on i h)"
  using assms unfolding fifo_conn_def fst_conv snd_conv by blast+

definition fifo_inv :: "nat \<Rightarrow> history \<Rightarrow> tcp_thread \<Rightarrow> bool" where
  "fifo_inv n h t \<longleftrightarrow> length (per_conn_tx_timestamps t) = length (connections t) \<and>
     (\<forall>i < length (connections t). fifo_conn n h i (links t ! i) (per_conn_tx_timestamps t ! i))"

definition measured :: "nat \<Rightarrow> history \<Rightarrow> tcp_thread \<Rightarrow> bool" where
  "measured k h t \<longleftrightarrow> lat.holds (map lat_entry (every k 0 (latencies h))) (stats t) \<and>
     unat (tx_sample_selector (stats t)) = length (latencies h) \<and> (\<forall>p \<in> set (latencies h). 0 < fst p)"

lemma fifo_inv_same: "fifo_inv n h t \<Longrightarrow> same_links t t' \<Longrightarrow> fifo_inv n h t'"
  unfolding fifo_inv_def same_links_def by (metis length_links)

lemma measured_same: "measured k h t \<Longrightarrow> lat_part (stats t') = lat_part (stats t) \<Longrightarrow> measured k h t'"
  by (simp add: measured_def lat.holds_def lat_part_def)

lemma length_stamps: "length (stamps_on i h) \<le> length h"
  by (induction i h rule: stamps_on.induct) (auto split: list.splits observation.splits)

lemma nth_links: "i < length (connections t) \<Longrightarrow> links t ! i = (idx (connections t ! i), pending_reqs (connections t ! i))"
  by (simp add: links_def)

text \<open>An observation that is not of connection \<open>j\<close> does not change its part of the history.\<close>

lemma fifo_inv_step:
  assumes "fifo_inv n h t" and "i < length (connections t)"
    and "links t' = (links t)[i := l]" and "per_conn_tx_timestamps t' = (per_conn_tx_timestamps t)[i := p]"
    and "fifo_conn n ((os, obs) # h) i l p"
    and "\<And>j. j \<noteq> i \<Longrightarrow> stamps_on j ((os, obs) # h) = stamps_on j h \<and> replies_on j ((os, obs) # h) = replies_on j h"
  shows "fifo_inv n ((os, obs) # h) t'"
proof -
  have len: "length (connections t') = length (connections t)" using arg_cong [OF assms(3), of length] by simp
  have "fifo_conn n ((os, obs) # h) j (links t' ! j) (per_conn_tx_timestamps t' ! j)" if "j < length (connections t)" for j
    using assms that by (cases "j = i") (auto simp: fifo_inv_def fifo_conn_def simp del: stamps_on.simps replies_on.simps)
  with assms(1,4) len show ?thesis by (simp add: fifo_inv_def)
qed

subsection \<open>Sending\<close>

lemma symmetric_issue_links:
  assumes "symmetric_issue cfg os i t = Inr (obs, pt, t')" and "i < length (connections t)"
    and "get_max_pending_reqs cfg = int n" and "n < 2 ^ 16" and "conn_usable cfg (connections t ! i)"
    and "fifo_inv n h t" and "length h < 2 ^ 32 - 1"
  shows "fifo_inv n ((os, obs) # h) t' \<and> lat_part (stats t') = lat_part (stats t) \<and> (\<exists>w s. obs = [Request_sent i w s])"
proof -
  let ?c = "connections t ! i" and ?p = "per_conn_tx_timestamps t ! i"
  from assms(1) obtain r t1 where t1: "take_request cfg t = Inr (r, t1)" by (auto simp: symmetric_issue_def bindE_eq_Inr)
  note same = take_request_links [OF t1]
  have f: "fifo_conn n h i (idx ?c, pending_reqs ?c) ?p" using assms(2,6) by (simp add: fifo_inv_def nth_links)
  note tx = fifo_connD(2,3) [OF f] and idx = fifo_connD(1) [OF f] and cq = fifo_connD(4) [OF f] and hd = fifo_connD(7) [OF f]
  have lt: "unat (pending_reqs ?c) < n" by (rule usable_unat [OF assms(5,3)])
  have room: "unat (head ?p) < unat (consumed ?p) + n"
    using tx cq lt tx_invD(3,4) [OF tx(1)] length_queues [of ?p] by simp
  have "Suc (unat (head ?p)) < 2 ^ 32" using hd length_stamps [of i h] assms(7) by simp
  from push_complete_refines [OF tx room this, of "clock os" "renv t1" "stats t1"] obtain p' st' e' where
    p': "push_complete_tx_timestamp (int n) ?p (clock os) (renv t1) (stats t1) = Inr (p', st', e')" "tx_inv n p'"
      "completed_q p' = completed_q ?p @ [clock os]" "waiting_q p' = []" "head p' = head ?p + 1" by blast
  have st': "lat_part st' = lat_part (stats t1)"
    using p'(1) by (auto simp: push_complete_tx_timestamp_def bindE_eq_Inr Let_def split: prod.splits dest: lat_part_stamp)
  from assms(1) t1 same p'(1) idx assms(3) obtain w where obs: "obs = [Request_sent i w (now os)]"
    and b: "book_sent os (s32 (int (bytes_to_send r)))
      (update_conn i count_request (t1\<lparr>per_conn_tx_timestamps := (per_conn_tx_timestamps t1)[i := p'], stats := st', renv := e'\<rparr>)) = Inr t'"
    by (auto simp: symmetric_issue_def bindE_eq_Inr Let_def same_links_def split: if_splits)
  from b same have t': "connections t' = (connections t)[i := count_request ?c]"
    "per_conn_tx_timestamps t' = (per_conn_tx_timestamps t)[i := p']" "lat_part (stats t') = lat_part (stats t)"
    using st' by (auto simp: book_sent_def Let_def bindE_eq_Inr update_conn_def same_links_def)
  have "unat (pending_reqs ?c + 1) = Suc (unat (pending_reqs ?c))" using lt assms(4) by (intro unat_Suc_nowrap) simp
  moreover have "unat (head ?p + 1) = Suc (unat (head ?p))"
    using hd length_stamps [of i h] assms(7) by (intro unat_Suc_nowrap) simp
  ultimately have "fifo_conn n ((os, obs) # h) i (idx ?c, pending_reqs ?c + 1) p'"
    using p'(2-5) idx cq hd fifo_connD(5,6) [OF f] by (simp add: fifo_conn_def obs answered_on_def)
  then have "fifo_inv n ((os, obs) # h) t'"
    by (rule fifo_inv_step [OF assms(6,2), rotated 2])
      (simp_all add: t' links_def map_update count_request_def obs answered_on_def)
  with t'(3) obs show ?thesis by blast
qed

subsection \<open>Measuring\<close>

lemma every_snoc: "every k i (xs @ [x]) = every k i xs @ (if (i + length xs) mod k = 0 then [x] else [])"
  by (induction xs arbitrary: i) simp_all

lemma measured_step:
  assumes "measured k h t" and "should_measure a" and "sampling_period a = Inr (int k)" and "length h < 2 ^ 32 - 1"
    and "add_latency_sample a d (Some s) (stats t) = Inr st'"
    and "latencies ((os, obs) # h) = latencies h @ [(d, s)]" and "lat_part (stats t') = lat_part st'"
  shows "measured k ((os, obs) # h) t'"
proof -
  let ?st = "(stats t)\<lparr>tx_sample_selector := tx_sample_selector (stats t) + 1\<rparr>" and ?l = "length (latencies h)"
  have d: "0 < d" using assms(5) by (auto simp: add_latency_sample_def bindE_eq_Inr)
  have sel: "unat (tx_sample_selector (stats t)) = ?l" and
    h: "lat.holds (map lat_entry (every k 0 (latencies h))) (stats t)"
    using assms(1) by (simp_all add: measured_def)
  have "?l < 2 ^ 32 - 1" using length_latencies [of h] assms(4) by linarith
  then have sel': "unat (tx_sample_selector (stats t) + 1) = Suc ?l"
    unfolding sel [symmetric] by (intro unat_Suc_nowrap) simp
  have st': "st' = (if ?l mod k = 0 then push_latency (lat_entry (d, s)) ?st else ?st)"
    using add_latency_sample_measured [OF assms(2,3) d, of s "stats t"] assms(5) sel by (simp add: Let_def)
  have "lat.holds (map lat_entry (every k 0 (latencies h))) ?st" using h by (simp add: lat.holds_def)
  then have "lat.holds (map lat_entry (every k 0 (latencies h @ [(d, s)]))) st'"
    using lat.holds_push by (simp add: st' every_snoc)
  moreover have "unat (tx_sample_selector st') = Suc ?l" using sel' by (simp add: st' push_latency_def)
  ultimately show ?thesis
    using assms(1,7) d unfolding measured_def assms(6) by (auto simp: lat.holds_def lat_part_def)
qed

lemma measure_responses_links:
  assumes "measure_responses cfg os i brp (clock os) t = Inr t'" and "i < length (connections t)"
    and "get_max_pending_reqs cfg = int n" and "fifo_inv n h t" and "measured k h t"
    and "should_measure (acb os)" and "sampling_period (acb os) = Inr (int k)" and "length h < 2 ^ 32 - 1"
    and "brp_reqs brp \<noteq> 0"
  shows "fifo_inv n ((os, [Responses i brp]) # h) t' \<and> measured k ((os, [Responses i brp]) # h) t'"
proof -
  let ?c = "connections t ! i" and ?p = "per_conn_tx_timestamps t ! i" and ?r = "unat (brp_reqs brp)"
  let ?obs = "[Responses i brp]"
  have f: "fifo_conn n h i (idx ?c, pending_reqs ?c) ?p" using assms(2,4) by (simp add: fifo_inv_def nth_links)
  note tx = fifo_connD(2,3) [OF f] and idx = fifo_connD(1) [OF f] and cq = fifo_connD(4) [OF f] and
    seq = fifo_connD(5,6) [OF f] and hd = fifo_connD(7) [OF f]
  have idx': "unat (idx (connections (update_conn i (count_responses brp) t) ! i)) = i"
    using idx assms(2) by (simp add: update_conn_def count_responses_def)
  have pos: "0 < ?r" using assms(9) by (simp add: unat_gt_0)
  have le: "?r \<le> length (completed_q ?p)"
  proof (rule ccontr)
    assume "\<not> ?r \<le> length (completed_q ?p)"
    with match_responses_fails [OF tx, of ?r "errqueue os" None "stats t" "renv t"] obtain err where
      "match_responses (int n) ?r (errqueue os) None (?p, stats t, renv t) = Inl err" by auto
    with assms(1,3) idx' show False by (simp add: measure_responses_def Let_def split: if_splits)
  qed
  from match_responses_ok [OF tx le, of "errqueue os" None "stats t" "renv t"] pos obtain s p' where
    m: "match_responses (int n) ?r (errqueue os) None (?p, stats t, renv t) = Inr (Some s, errqueue os, p', stats t, renv t)"
      "time s = completed_q ?p ! (?r - 1)" "tx_inv n p'" "waiting_q p' = []" "completed_q p' = drop ?r (completed_q ?p)"
      "head p' = head ?p" by auto
  from assms(1,3) idx' m(1) obtain l st' where
    l: "timespec_diff (Some (clock os)) (Some (time s)) = Some l"
      "add_latency_sample (acb os) (latency_ns l) (Some (time s)) (stats t) = Inr st'"
    and t': "t' = book_received os brp ((update_conn i (count_responses brp) t)
      \<lparr>per_conn_tx_timestamps := (per_conn_tx_timestamps t)[i := p'], renv := renv t, stats := st'\<rparr>)"
    by (auto simp: measure_responses_def Let_def result_iffs)
  have "unat (pending_reqs ?c) < 2 ^ LENGTH(16)" by (rule unsigned_less)
  then have r16: "?r < 2 ^ 16" using le cq by simp
  then have "unat (ucast (brp_reqs brp) :: u16) = ?r" by (simp add: unsigned_ucast_eq take_bit_nat_eq_self)
  then have "unat (pending_reqs ?c - ucast (brp_reqs brp)) = unat (pending_reqs ?c) - ?r"
    using le cq by (simp add: unat_sub word_le_nat_alt)
  then have "fifo_conn n ((os, ?obs) # h) i (idx ?c, pending_reqs ?c - ucast (brp_reqs brp)) p'"
    using m(3-6) idx cq hd seq le by (simp add: fifo_conn_def answered_on_def add.commute) arith
  then have "fifo_inv n ((os, ?obs) # h) t'"
    by (rule fifo_inv_step [OF assms(4,2), rotated 2])
      (simp_all add: t' links_def book_received_def update_conn_def map_update count_responses_def answered_on_def)
  moreover have "measured k ((os, ?obs) # h) t'"
  proof (rule measured_step [OF assms(5-8) l(2)])
    have "time s = stamps_on i h ! (replies_on i h + ?r - 1)"
      using m(2) seq pos le by (simp add: add.commute)
    then show "latencies ((os, ?obs) # h) = latencies h @ [(latency_ns l, time s)]"
      using latency_ns_diff [OF l(1)] by (simp add: Let_def)
    show "lat_part (stats t') = lat_part st'" by (simp add: t' book_received_def)
  qed
  ultimately show ?thesis by blast
qed

subsection \<open>Every step and every run\<close>

lemma nothing_observed:
  assumes "fifo_inv n h t" and "measured k h t" and "same_links t t'" and "obs = [] \<or> obs = [Connection_closed i]"
  shows "fifo_inv n ((os, obs) # h) t' \<and> measured k ((os, obs) # h) t'"
proof -
  have "fifo_inv n h t'" by (rule fifo_inv_same [OF assms(1,3)])
  moreover have "measured k h t'" using assms(2,3) by (auto simp: same_links_def intro: measured_same)
  ultimately show ?thesis
    using assms(4) by (auto simp: fifo_inv_def fifo_conn_def measured_def answered_on_def)
qed

lemma symmetric_event_measures:
  assumes "symmetric_event cfg os ev evs t = Inr (obs, pt, t')"
    and "get_max_pending_reqs cfg = int n" and "fifo_inv n h t" and "measured k h t"
    and "should_measure (acb os)" and "sampling_period (acb os) = Inr (int k)" and "length h < 2 ^ 32 - 1"
  shows "fifo_inv n ((os, obs) # h) t' \<and> measured k ((os, obs) # h) t'"
proof -
  from assms(1) obtain out where out: "receive_on cfg (ev_conn ev) (received os) t = Inr out"
    and r: "(case out of
          Inl (obs, go_on, t) \<Rightarrow> Inr (obs, if go_on then At_events evs else Returned, t)
        | Inr (brp, t) \<Rightarrow>
            if brp_reqs brp = 0 then Inr ([], At_events evs, t)
            else bindE (measure_responses cfg os (ev_conn ev) brp (clock os) t) (\<lambda>t.
              Inr ([Responses (ev_conn ev) brp], At_events evs, t))) = (Inr (obs, pt, t') :: tcp_result)"
    by (auto simp: symmetric_event_def bindE_eq_Inr split: if_splits)
  note same = receive_on_links [OF out]
  show ?thesis
  proof (cases out)
    case (Inl x)
    obtain o1 go_on t1 where x: "x = (o1, go_on, t1)" by (cases x)
    with Inl same r have "same_links t t'" "obs = [] \<or> obs = [Connection_closed (ev_conn ev)]" by auto
    then show ?thesis by (rule nothing_observed [OF assms(3,4)])
  next
    case (Inr x)
    obtain brp t1 where x: "x = (brp, t1)" by (cases x)
    have s1: "same_links t t1" "ev_conn ev < length (connections t)" using same by (simp_all add: Inr x)
    show ?thesis
    proof (cases "brp_reqs brp = 0")
      case True
      with r Inr x have "t' = t1" "obs = []" by simp_all
      with nothing_observed [OF assms(3,4) s1(1)] show ?thesis by simp
    next
      case False
      with r Inr x have m: "measure_responses cfg os (ev_conn ev) brp (clock os) t1 = Inr t'"
        and obs: "obs = [Responses (ev_conn ev) brp]" by (auto simp: bindE_eq_Inr)
      have f1: "fifo_inv n h t1" by (rule fifo_inv_same [OF assms(3) s1(1)])
      have m1: "measured k h t1" using assms(4) s1(1) by (auto simp: same_links_def intro: measured_same)
      have len: "ev_conn ev < length (connections t1)" using s1 by (metis length_links same_links_def)
      show ?thesis unfolding obs by (rule measure_responses_links [OF m len assms(2) f1 m1 assms(5-7) False])
    qed
  qed
qed

lemma symmetric_step_measures:
  assumes "symmetric_step cfg os (pt, t) = Inr (obs, pt', t')"
    and "get_max_pending_reqs cfg = int n" and "n < 2 ^ 16" and "fifo_inv n h t" and "measured k h t"
    and "should_measure (acb os)" and "sampling_period (acb os) = Inr (int k)" and "length h < 2 ^ 32 - 1"
  shows "fifo_inv n ((os, obs) # h) t' \<and> measured k ((os, obs) # h) t'"
proof (cases "(cfg, os, pt, t)" rule: symmetric_step.cases)
  case (2 cfg' os' t0)
  show ?thesis
  proof (cases "next_tx t \<le> now os")
    case True
    with 2 assms(1) obtain c t1 where c: "take_conn cfg t = Inr (c, t1)" by (auto simp: bindE_eq_Inr)
    note same = take_conn_links [OF c]
    show ?thesis
    proof (cases c)
      case None
      with True 2 c assms(1) same nothing_observed [OF assms(4,5), of t1 "[]"] show ?thesis by simp
    next
      case (Some i)
      with True 2 c assms(1) have i: "symmetric_issue cfg os i t1 = Inr (obs, pt', t')" by simp
      have f1: "fifo_inv n h t1" using same by (intro fifo_inv_same [OF assms(4)]) simp
      have "measured k h t1" using assms(5) same by (auto simp: same_links_def intro: measured_same)
      moreover have "i < length (connections t1)" "conn_usable cfg (connections t1 ! i)" using same Some by simp_all
      from symmetric_issue_links [OF i this(1) assms(2,3) this(2) f1 assms(8)]
      have "fifo_inv n ((os, obs) # h) t'" "lat_part (stats t') = lat_part (stats t1)" "\<exists>w s. obs = [Request_sent i w s]" by auto
      ultimately show ?thesis by (auto simp: measured_def lat.holds_def lat_part_def)
    qed
  next
    case False
    with 2 assms(1) nothing_observed [OF assms(4,5), of t "[]"] show ?thesis by simp
  qed
next
  case (5 cfg' os' ev evs t0)
  with assms symmetric_event_measures [of cfg os ev evs t obs pt' t'] show ?thesis by simp
qed (use assms nothing_observed [OF assms(4,5), of t' obs] in \<open>auto dest: loop_head_links\<close>)

lemma run_measures:
  assumes "timed_run (symmetric_step cfg) (At_head, t0) h s"
    and "get_max_pending_reqs cfg = int n" and "n < 2 ^ 16" and "fifo_inv n [] t0" and "measured k [] t0"
    and "\<forall>(os, obs) \<in> set h. should_measure (acb os) \<and> sampling_period (acb os) = Inr (int k)" and "length h < 2 ^ 32"
  shows "fifo_inv n h (snd s) \<and> measured k h (snd s)"
  using assms(1,6,7)
proof (induction rule: timed_run.induct)
  case timed_start
  with assms(4,5) show ?case by simp
next
  case (timed_step h s1 os obs s2)
  then have "fifo_inv n h (snd s1)" "measured k h (snd s1)" by simp_all
  then show ?case
    using timed_step.hyps(2) timed_step.prems assms(2,3) symmetric_step_measures [of cfg os "fst s1" "snd s1" obs "fst s2" "snd s2" n h k]
    by simp
qed

lemma start_measured:
  assumes "throughput_start cfg ok sockets s0 e = Inr (dests, Some t0)" and "atype cfg = SYMMETRIC_AGENT"
    and "get_max_pending_reqs cfg = int n" and "0 < n" and "n < 2 ^ 16" and "length (connections t0) \<le> 2 ^ 16"
  shows "fifo_inv n [] t0 \<and> measured k [] t0"
proof -
  from assms(1) obtain conns rings where o: "throughput_open_connections cfg ok sockets = Inr (dests, Some (conns, rings))"
    and t0: "t0 = start_thread conns rings s0 e"
    by (auto simp: throughput_start_def bindE_eq_Inr)
  from o have "ok" by (simp add: throughput_open_connections_def split: if_splits)
  with o obtain j where c: "open_sockets cfg (throughput_calls cfg) open_connection sockets 0 (nat j) = Inr (dests, Some conns)"
    and r: "rings = replicate (nat j) (init_pending (int n))"
    unfolding throughput_open_connections_def Let_def using assms(2,3)
    by (simp only: bindE_eq_Inr assertE_eq if_False not_True_eq_False split_paired_Ex prod.case) auto
  note made = open_sockets_made [OF c]
  have "n < 2 ^ 31" using assms(5) by simp
  note p = init_pending_inv [OF assms(4) this]
  have "fifo_conn n [] i (links t0 ! i) (init_pending (int n))" if "i < length conns" for i
    using made that p assms(6)
    by (simp add: fifo_conn_def links_def t0 start_thread_def open_connection_def unat_of_nat_id tx_abs_of_def empty_tx_abs_def init_pending_def)
  then have "fifo_inv n [] t0" using made r by (simp add: fifo_inv_def t0 start_thread_def)
  moreover have "measured k [] t0"
    by (simp add: measured_def lat.holds_def t0 start_thread_def init_per_thread_stats_def)
  ultimately show ?thesis by blast
qed


text \<open>One request goes out at second 1 and is answered 5 seconds later.\<close>

definition at_6s :: os_answers where
  "at_6s = echo1_os 200 [] (Recv ''#'') (Timespec 6 0)"

definition echo1_waiting :: "thread_stats \<Rightarrow> rand_env \<Rightarrow> tcp_thread" where
  "echo1_waiting st e =
     \<lparr>next_tx = 10100, stats = st, renv = e, to_send = \<lparr>meta = 0, iov_cnt = 1, iovs = [mk_iov ''#'' 1]\<rparr>, rx_timestamp = None,
      connections = [(open_connection 5 0)\<lparr>pending_reqs := 1\<rparr>], conn_idx = 1,
      per_conn_tx_timestamps = [\<lparr>tx_byte_counter = 0, head = 1, tail = 1, consumed = 0, pending = [\<lparr>time = Timespec 1 0, optid = 0\<rparr>]\<rparr>]\<rparr>"

lemma echo1_send_step:
  "\<exists>st e. symmetric_step echo1_config (echo1_os 130 [Wr_block, Wr 1] Recv_block (Timespec 1 0)) (At_send, echo1_start) =
     Inr ([Request_sent 0 ''#'' 130], At_send, echo1_waiting st e)"
proof -
  obtain st' e' where st': "add_tx_timestamp (Timespec 1 0) start_env init_per_thread_stats = (st', e')" by fastforce
  show ?thesis
    by (simp add: symmetric_issue_def echo1_simps echo1_ia push_complete_tx_timestamp_def pend_slot_def init_pending_def
        read_pending_def write_pending_def st' Let_def echo1_waiting_def)
qed

lemma echo1_measuring: "should_measure echo1_acb" "sampling_period echo1_acb = Inr (int 1)"
  by (simp_all add: echo1_acb_def measuring_def should_measure_def sampling_period_def get_sampling_rate_def lround_def)

lemma echo1_reply_step:
  "\<exists>t. symmetric_step echo1_config at_6s (At_events (polled at_6s), echo1_waiting st e) =
     Inr ([Responses 0 (BRP 1 1)], At_events [], t)"
proof -
  have "\<exists>st'. add_latency_sample echo1_acb 5000000000 (Some (Timespec 1 0)) st = Inr st'"
    using add_latency_sample_measured [OF echo1_measuring, of 5000000000 "Timespec 1 0" st] by simp
  then show ?thesis
    by (auto simp: symmetric_event_def receive_on_def at_6s_def echo1_waiting_def echo1_simps tcp_receive_def handle_response_def Let_def
      process_response_def consume_response_def echo_consume_response_def size_of_int_def measure_responses_def
      count_responses_def pop_pending_tx_timestamps_def pend_slot_def read_pending_def timespec_diff_def latency_ns_eq ts_ns_def)
qed

lemma echo1_timed_run:
  "\<exists>h t. timed_run (symmetric_step echo1_config) (At_head, echo1_start) h (At_events [], t) \<and> length h = 5 \<and>
    (\<forall>(os, obs) \<in> set h. acb os = echo1_acb) \<and> latencies h = [(5000000000, Timespec 1 0)]"
proof -
  let ?step = "symmetric_step echo1_config" and ?os = "echo1_os 130 [Wr_block, Wr 1] Recv_block (Timespec 1 0)"
  have "?step ?os (At_head, echo1_start) = Inr ([], At_send, echo1_start)" by (simp add: loop_head_def echo1_os_def echo1_load)
  from timed_step [where step = ?step, OF timed_start this] have r1: "timed_run ?step (At_head, echo1_start) [(?os, [])] (At_send, echo1_start)" .
  from echo1_send_step obtain st e where "?step ?os (At_send, echo1_start) = Inr ([Request_sent 0 ''#'' 130], At_send, echo1_waiting st e)"
    by blast
  note r2 = timed_step [where step = ?step, OF r1 this]
  have "?step at_6s (At_send, echo1_waiting st e) = Inr ([], At_poll, echo1_waiting st e)"
    by (simp add: at_6s_def echo1_os_def echo1_waiting_def)
  note r3 = timed_step [where step = ?step, OF r2 this]
  have "?step at_6s (At_poll, echo1_waiting st e) = Inr ([], At_events (polled at_6s), echo1_waiting st e)" by simp
  note r4 = timed_step [where step = ?step, OF r3 this]
  from echo1_reply_step obtain t where
    "?step at_6s (At_events (polled at_6s), echo1_waiting st e) = Inr ([Responses 0 (BRP 1 1)], At_events [], t)" by blast
  note r5 = timed_step [where step = ?step, OF r4 this]
  show ?thesis
    by (rule exI, rule exI, rule conjI [OF r5]) (simp add: at_6s_def echo1_os_def ts_ns_def answered_on_def)
qed


end
