(* ===== verification/Spec2Isabelle.thy ===== *)
theory Spec2Isabelle
  imports Loader Tls Udp R2p2_Build Pico_Sse Chunked Manager Agent_Threads Tcp_Latency
begin

text \<open>
  A verification library for Lancet, a tool that measures the latency of microsecond-scale
  servers. The program under study is the measuring agent, the C code of \<open>agents/\<close> and
  \<open>inc/lancet/\<close>: a manager starts it on a load generator, it opens connections to the servers,
  sends requests of an application protocol at the times a distribution prescribes, matches the
  responses with the requests, and leaves counters and samples in shared memory for the manager.

  How the parts interact. The command line (\<open>args.c\<close>) configures the agent; each of its threads runs
  one event loop (\<open>tp_tcp.c\<close>, \<open>tp_udp.c\<close>, \<open>tp_ssl.c\<close>, \<open>tp_r2p2.c\<close>). The loop draws the next send time from the load distribution (\<open>rand_gen.c\<close>), asks the application
  protocol (\<open>app_proto.c\<close>, \<open>memcache.c\<close>, \<open>redis.c\<close>, \<open>http_app.cc\<close>) for a request and hands it the bytes received,
  keeps a ring of transmit time stamps per connection (\<open>timestamping.c\<close>) and reports to the
  statistics (\<open>stats.c\<close>). The configuration and the control block the manager writes
  (\<open>agent.c\<close>) say how many connections there are, how many requests may be in flight on each,
  and whether to load and to measure. The loader (\<open>loader.c\<close>) is a second program over the same
  protocols, which fills a key-value server.

  \<^bold>\<open>The theories.\<close>
  \<^item> \<open>Lancet_Prelude\<close>: machine words, faults (failed assertions, undefined behaviour, loops that
    do not end) and the result type \<open>fault + 'a\<close> every fallible function returns.
  \<^item> \<open>C_Library\<close>: the string, number, byte order and \<open>drand48\<close> routines the code calls.
  \<^item> \<open>Lancet_Types\<close>: byte/request pairs, time stamps and scatter/gather requests.
  \<^item> \<open>Rand_Gen\<close>, \<open>Key_Gen\<close>, \<open>KV_Workload\<close>: distributions (inverse transform samplers with their
    cumulative distribution functions), keys, and key-value workloads.
  \<^item> \<open>Response_Frames\<close>: the interface between transports and protocols, two locales: \<open>framing\<close> (how
    the first complete message is cut off a stream) and \<open>response_protocol\<close> (a consumer counts
    exactly the messages at the front of its input).
  \<^item> \<open>Memcache\<close>, \<open>Redis\<close>, \<open>Simple_Protocols\<close>: the protocols' consumers and request builders, with
    interpretations of \<open>response_protocol\<close> for those that keep its laws.
  \<^item> \<open>Pico_Http\<close>, \<open>Http\<close>: the HTTP response parser as functions on a memory, the end of the input and a
    position; a law that all its parts obey (\<open>reads\<close>: a successful run depends on the bytes it passed
    only, and on less of them it asks for more) is closed under sequencing, and gives the consumer's
    correctness on a response that is cut anywhere.
  \<^item> \<open>Http_Request\<close>, \<open>Chunked\<close>: the parser's entry points for requests and its decoder of chunked bodies (the agent is
    built with them and does not call them): a printed request is read back, and the decoder is an automaton that
    does not see where its input was cut.
  \<^item> \<open>Pico_Sse\<close>: the parser as compiled with SSE 4.2, which looks for the ends of tokens in blocks of sixteen
    bytes; it gives the same answers on every input.
  \<^item> \<open>Manager\<close>: the messages of the coordinator, and the loop that answers them in \<open>manager.c\<close>.
  \<^item> \<open>App_Proto\<close>, \<open>Args\<close>, \<open>Loader\<close>: the choice of the protocol, the command line and the start of the
    agent, and the loader from its command line to the last key.
  \<^item> \<open>Agent\<close>, \<open>Stats\<close>: configuration, control block, counters and sample rings (locale
    \<open>sample_ring\<close>: a ring holds the newest entries of its log).
  \<^item> \<open>Simulation\<close>, \<open>Timestamping\<close>: runs of operations; the ring of transmit time stamps refines a
    queue of completed stamps followed by a queue of awaited byte offsets.
  \<^item> \<open>Event_Loop\<close>, \<open>Example_Agent\<close>: what the loops of the transports share: the points of a
    loop, the answers of the kernel, the clocks and the manager (the input of a step), the opening of
    the sockets, the schedule and the accounting of a request; and a configuration for witnesses.
  \<^item> \<open>Tcp_Connection\<close>: one connection: choosing it, reading into its buffer, writing a request.
    The locale \<open>buffered_protocol\<close> is a connection as the client of a response protocol.
  \<^item> \<open>Tcp_Main\<close>: opening the connections and the four event loops as step functions on a point of
    the loop and the thread's state.
  \<^item> \<open>Tcp_Runs\<close>: the runs of the loops as an inductive relation: requests in flight, the schedule
    of the open loop, the closed loop of the latency agent.
  \<^item> \<open>Tcp_Safety\<close>: the invariant of the symmetric agent, and that no step of it can fail while the
    server, the clock and the kernel keep their promises.
  \<^item> \<open>Tcp_Types\<close>: no step of a loop changes the shape of a thread's memory.
  \<^item> \<open>Tcp_Latency\<close>: runs with their histories: the latencies in the ring of the symmetric agent are the true
    ones, each the time from the sending of a request to the read of its own response.
  \<^item> \<open>Udp\<close>: sockets that carry one datagram at a time, and the four loops over them (locale
    \<open>datagram_loop\<close>).
  \<^item> \<open>Tls\<close>: the handshakes and the symmetric loop over a TLS library, as a refinement of the TCP one.
  \<^item> \<open>R2p2\<close>: the loops that hand their requests to a library and are called back, with the library as a
    parameter; the locale \<open>callback_loop\<close> says who owns the context of a request.
  \<^item> \<open>R2p2_Build\<close>: what the build with R2P2 changes elsewhere: the routes that requests carry, from the
    workload to the context the library is given, and the arguments.
  \<^item> \<open>Agent_Threads\<close>: the start of the threads, interleaved in any order, up to the barrier behind which the
    manager is told that the connections are open; and the calls that switch time stamping on.
  \<^item> \<open>Spec2Isabelle\<close> (this theory): protocols over connections, end to end.

  \<^bold>\<open>Modelling decisions.\<close> Integers have the width of the C types where it matters (the 16-bit
  \<open>buffer_idx\<close> and \<open>pending_reqs\<close>, the 32-bit ring counters, the 64-bit byte counts); \<open>int\<close> and
  \<open>long\<close> values that the code keeps far from their limits are integers. A \<open>double\<close> is a real
  number, and an operation whose value would be an infinity or a NaN is the fault \<open>NonFinite\<close>. A
  pointer into memory is the list of the bytes from it to the end of its object, and reading
  past that end is a fault. Assertions are kept, as in the default build. The build without
  R2P2 and without SSE is modelled; what the two macros change is modelled beside it, SSE in \<open>Pico_Sse\<close>, R2P2 and its hardware
  time stamps in \<open>R2p2\<close> and \<open>R2p2_Build\<close>, whose definitions repeat a function as that build has it.

  \<^bold>\<open>Termination and bounds.\<close> Loops over data are total functions with a measure. Loops that may
  not end are \<open>partial_function (option)\<close> (\<open>redis_kv_loop\<close>, \<open>complete_loop\<close>, \<open>stss_loop\<close>): \<open>None\<close> is
  a loop that runs for ever, and the theorems on well-formed input prove that the value is
  \<open>Some\<close>. The write loops and the wait for a time stamp consume one kernel answer in each turn; when
  the answers run out the result says so (\<open>Still_sending\<close>, \<open>Diverges\<close>). The bounds in the theorems
  (fewer than \<open>2 ^ 32\<close> requests on a connection, messages no larger than the buffer of 16384
  bytes, fewer than \<open>2 ^ 16\<close> requests in flight) are the widths of the C fields; theorems of
  kind error show what happens beyond them.

  \<^bold>\<open>Not modelled.\<close> The R2P2 library, which is not in the repository: the transport is modelled
  over a record of what it uses of the library. The functions that \<open>manager.c\<close>, which this commit does
  not build, calls to aggregate the statistics: they are not in the repository. The coordinator (Go) and the agent manager (Python) are
  programs of their own. The mapping of shared memory and the log output are calls of the operating system without logic of
  their own. The generator of the gamma distribution: the failing assertion at the head of \<open>gamma_init\<close> leaves it
  unreachable.
\<close>

section \<open>Redis and memcached over TCP\<close>

interpretation redis_tcp: buffered_protocol redis_frame redis_kv_consume_response redis_valid
  by unfold_locales

interpretation mb_tcp: buffered_protocol mb_frame memcache_bin_consume_response "\<lambda>_. True"
  by unfold_locales

text \<open>
  Property C1. A Redis server's replies, each small enough for a connection's buffer, are counted
  exactly once each however the byte stream is cut into reads: nothing is lost or counted twice
  between two reads, and the reports add up to the bytes of the whole replies received.
\<close>

theorem redis_over_tcp:
  assumes "consume_response_fn (app_proto cfg) = Some redis_kv_consume_response"
    and "\<forall>m \<in> set replies. redis_reply m \<and> length m \<le> MAX_PAYLOAD"
  shows "\<exists>conn sock brps k. tcp_reads cfg ns (open_connection s i) (concat replies) = Inr (conn, sock, brps) \<and>
    k \<le> length replies \<and> conn_data conn @ sock = concat (drop k replies) \<and>
    sum_list brps = to_brp (length (concat (take k replies)), k) \<and> (sock = [] \<longrightarrow> k = length replies)"
proof (rule redis_tcp.tcp_reads_stream [OF assms(1)])
  show "redis_tcp.small_messages replies"
    using assms(2) redis_frame_reply by (auto simp: redis_tcp.small_messages_def)
  show "redis_valid (concat replies)"
    using assms(2) by (intro redis_valid_concat) blast
qed

definition redis_proto :: application_protocol where
  "redis_proto = \<lparr>proto_type = PROTO_REDIS,
     create_request_fn = redis_kv_create_request (one_key_info 0),
     consume_response_fn = Some redis_kv_consume_response\<rparr>"

theorem redis_over_tcp_witness:
  "\<exists>conn sock brps k. tcp_reads (some_config redis_proto 1 1 4) [2, 0, 9] (open_connection 5 0)
       (''+OK'' @ CRLF @ ''$-1'' @ CRLF) = Inr (conn, sock, brps) \<and>
     conn_data conn @ sock = concat (drop k [''+OK'' @ CRLF, ''$-1'' @ CRLF]) \<and>
     sum_list brps = to_brp (length (concat (take k [''+OK'' @ CRLF, ''$-1'' @ CRLF])), k)"
proof -
  have "consume_response_fn (app_proto (some_config redis_proto 1 1 4)) = Some redis_kv_consume_response"
    by (simp add: some_config_def redis_proto_def)
  moreover have "\<forall>m \<in> set [''+OK'' @ CRLF, ''$-1'' @ CRLF]. redis_reply m \<and> length m \<le> MAX_PAYLOAD"
    using redis_reply.status [of "''OK''"] redis_reply.missing by simp
  ultimately have "\<exists>conn sock brps k. tcp_reads (some_config redis_proto 1 1 4) [2, 0, 9] (open_connection 5 0)
       (concat [''+OK'' @ CRLF, ''$-1'' @ CRLF]) = Inr (conn, sock, brps) \<and>
     k \<le> length [''+OK'' @ CRLF, ''$-1'' @ CRLF] \<and>
     conn_data conn @ sock = concat (drop k [''+OK'' @ CRLF, ''$-1'' @ CRLF]) \<and>
     sum_list brps = to_brp (length (concat (take k [''+OK'' @ CRLF, ''$-1'' @ CRLF])), k) \<and>
     (sock = [] \<longrightarrow> k = length [''+OK'' @ CRLF, ''$-1'' @ CRLF])"
    by (rule redis_over_tcp)
  moreover have "concat [''+OK'' @ CRLF, ''$-1'' @ CRLF] = ''+OK'' @ CRLF @ ''$-1'' @ CRLF" by simp
  ultimately show ?thesis by metis
qed

text \<open>
  Property C9. The same holds for the binary memcached protocol, for any replies whose headers
  announce their length.
\<close>

theorem memcache_bin_over_tcp:
  assumes "consume_response_fn (app_proto cfg) = Some memcache_bin_consume_response"
    and "\<forall>m \<in> set replies. mb_reply m \<and> length m \<le> MAX_PAYLOAD"
  shows "\<exists>conn sock brps k. tcp_reads cfg ns (open_connection s i) (concat replies) = Inr (conn, sock, brps) \<and>
    k \<le> length replies \<and> conn_data conn @ sock = concat (drop k replies) \<and>
    sum_list brps = to_brp (length (concat (take k replies)), k) \<and> (sock = [] \<longrightarrow> k = length replies)"
proof (rule mb_tcp.tcp_reads_stream [OF assms(1)])
  show "mb_tcp.small_messages replies"
    using assms(2) mb_frame_reply by (auto simp: mb_tcp.small_messages_def)
qed simp

definition memcache_proto :: application_protocol where
  "memcache_proto = \<lparr>proto_type = PROTO_MEMCACHED_BIN,
     create_request_fn = memcache_bin_create_request (one_key_info 0),
     consume_response_fn = Some memcache_bin_consume_response\<rparr>"

theorem memcache_bin_over_tcp_witness:
  "\<exists>conn sock brps k. tcp_reads (some_config memcache_proto 1 1 4) [10, 20] (open_connection 5 0)
       (concat [store_bmc_header zero_bmc_header]) = Inr (conn, sock, brps) \<and>
     conn_data conn @ sock = concat (drop k [store_bmc_header zero_bmc_header]) \<and>
     sum_list brps = to_brp (length (concat (take k [store_bmc_header zero_bmc_header])), k)"
proof -
  have "consume_response_fn (app_proto (some_config memcache_proto 1 1 4)) = Some memcache_bin_consume_response"
    by (simp add: some_config_def memcache_proto_def)
  moreover have "\<forall>m \<in> set [store_bmc_header zero_bmc_header]. mb_reply m \<and> length m \<le> MAX_PAYLOAD"
    by (simp add: zero_header_reply)
  ultimately show ?thesis
    using memcache_bin_over_tcp [of "some_config memcache_proto 1 1 4" "[store_bmc_header zero_bmc_header]"
        "[10, 20]" 5 0] by blast
qed

end
